(* ===== verification/Prelude.thy ===== *)
theory Prelude
  imports Main "HOL-Library.Word"
begin

text \<open>
  Shared vocabulary of the development: the machine integer types of
  \<^verbatim>\<open>include/types.h\<close>, the outcome of a kernel function (a value with the new
  state, a \<open>panic\<close>, going to sleep, or an access that C leaves undefined), sequencing
  of outcomes and the total-correctness predicate \<open>runs\<close> with its rules, first-match
  array scans, reading and overwriting a run of bytes, little-endian integers, and
  the interface of a fixed-width encoding with the laws of arrays of such encodings.
\<close>

unbundle bit_operations_syntax

named_theorems runs_rules \<open>introduction rules for total correctness of outcomes\<close>
named_theorems slot_laws \<open>reading and writing fixed-width records inside a block\<close>

section \<open>Machine types\<close>

type_synonym uchar = "8 word"
type_synonym ushort = "16 word"
type_synonym uint = "32 word"
type_synonym uintp = "64 word"
type_synonym block = "uchar list"

text \<open>
  The channels that kernel code sleeps on and wakes: the address of a buffer, of the
  log, of an inode, of a pipe's \<open>nread\<close> or \<open>nwrite\<close>, of a process, of \<open>ticks\<close>,
  of the console's \<open>input.r\<close>.
\<close>

datatype chan = ChBuf nat | ChLog | ChInode nat | ChNread nat | ChNwrite nat
  | ChProc nat | ChTicks | ChInput

section \<open>Outcomes\<close>

text \<open>
  \<open>Ret a s\<close> is a normal return; \<open>Panic m\<close> is a call of \<open>panic\<close>, which never
  returns; \<open>Sleep c s\<close> is a call of \<open>sleep\<close> on channel \<open>c\<close>; \<open>Fault\<close> is an access
  whose effect C does not define (outside an array, through a null pointer).
\<close>

datatype ('a, 's) outcome = Ret 'a 's | Panic string | Sleep chan 's | Fault

fun obind :: "('a, 's) outcome \<Rightarrow> ('a \<Rightarrow> 's \<Rightarrow> ('b, 's) outcome) \<Rightarrow> ('b, 's) outcome" where
  "obind (Ret a s) f = f a s"
| "obind (Panic m) f = Panic m"
| "obind (Sleep c s) f = Sleep c s"
| "obind Fault f = Fault"

definition runs :: "('a, 's) outcome \<Rightarrow> ('a \<Rightarrow> 's \<Rightarrow> bool) \<Rightarrow> bool" where
  "runs m Q \<longleftrightarrow> (case m of Ret a s \<Rightarrow> Q a s | _ \<Rightarrow> False)"

lemma runs_Ret [simp]: "runs (Ret a s) Q = Q a s"
  by (simp add: runs_def)

lemma runs_simps [simp]: "runs (Panic m) Q = False" "runs (Sleep c s) Q = False"
    "runs Fault Q = False"
  by (simp_all add: runs_def)

lemma runs_iff: "runs m Q \<longleftrightarrow> (\<exists>a s. m = Ret a s \<and> Q a s)"
  by (cases m) auto

lemma runs_obind [simp]: "runs (obind m f) Q = runs m (\<lambda>a s. runs (f a s) Q)"
  by (cases m) auto

lemma runs_mono: "runs m P \<Longrightarrow> (\<And>a s. P a s \<Longrightarrow> Q a s) \<Longrightarrow> runs m Q"
  by (cases m) auto

lemma runs_conj: "runs m P \<Longrightarrow> runs m Q \<Longrightarrow> runs m (\<lambda>a s. P a s \<and> Q a s)"
  by (cases m) auto

lemma obind_Panic: "runs m Q \<Longrightarrow> (\<And>a s. Q a s \<Longrightarrow> f a s = Panic e) \<Longrightarrow> obind m f = Panic e"
  by (cases m) auto

lemma obind_Ret_iff:
  "obind m f = Ret b t \<longleftrightarrow> (\<exists>a s. m = Ret a s \<and> f a s = Ret b t)"
  by (cases m) auto

lemma obind_assoc: "obind (obind m f) g = obind m (\<lambda>a s. obind (f a s) g)"
  by (cases m) auto

lemma obind_Ret_right [simp]: "obind m Ret = m"
  by (cases m) auto

section \<open>Counting loops\<close>

primrec ofor :: "'i list \<Rightarrow> ('i \<Rightarrow> 's \<Rightarrow> (unit, 's) outcome) \<Rightarrow> 's \<Rightarrow> (unit, 's) outcome" where
  "ofor [] body s = Ret () s"
| "ofor (i # is) body s = obind (body i s) (\<lambda>_ s. ofor is body s)"

lemma ofor_append: "ofor (xs @ ys) body s = obind (ofor xs body s) (\<lambda>_ s. ofor ys body s)"
  by (induction xs arbitrary: s) (simp_all add: obind_assoc)

lemma runs_ofor:
  assumes "I 0 s"
    and "\<And>k s. k < n \<Longrightarrow> I k s \<Longrightarrow> runs (body k s) (\<lambda>_ s'. I (Suc k) s')"
  shows "runs (ofor [0..<n] body s) (\<lambda>_ s'. I n s')"
  using assms
proof (induction n)
  case (Suc n)
  have "runs (ofor [0..<n] body s) (\<lambda>_ s'. I n s')"
    using Suc.prems by (intro Suc.IH) auto
  then have "runs (ofor [0..<n] body s) (\<lambda>_ s'. runs (body n s') (\<lambda>_ s'. I (Suc n) s'))"
    by (rule runs_mono) (use Suc.prems(2)[of n] in auto)
  then show ?case by (simp add: ofor_append)
qed simp

section \<open>First match in an array\<close>

text \<open>The \<open>for\<close> loops that stop at the first array element with a property.\<close>

primrec find_idx :: "('a \<Rightarrow> bool) \<Rightarrow> 'a list \<Rightarrow> nat option" where
  "find_idx P [] = None"
| "find_idx P (x # xs) = (if P x then Some 0 else map_option Suc (find_idx P xs))"

lemma find_idx_None: "find_idx P xs = None \<longleftrightarrow> (\<forall>i < length xs. \<not> P (xs ! i))"
proof (induction xs)
  case (Cons x xs)
  have "(\<forall>i < length (x # xs). \<not> P ((x # xs) ! i))
      \<longleftrightarrow> \<not> P x \<and> (\<forall>i < length xs. \<not> P (xs ! i))"
    by (auto simp: less_Suc_eq_0_disj)
  with Cons show ?case by simp
qed simp

lemma find_idx_Some:
  "find_idx P xs = Some i \<longleftrightarrow> i < length xs \<and> P (xs ! i) \<and> (\<forall>j < i. \<not> P (xs ! j))"
proof (induction xs arbitrary: i)
  case (Cons x xs)
  then show ?case by (cases i) (auto simp: less_Suc_eq_0_disj)
qed simp

lemma find_idx_SomeD:
  assumes "find_idx P xs = Some i"
  shows "i < length xs" "P (xs ! i)" "\<And>j. j < i \<Longrightarrow> \<not> P (xs ! j)"
  using assms by (auto simp: find_idx_Some)

lemma find_idx_exists: "i < length xs \<Longrightarrow> P (xs ! i) \<Longrightarrow> \<exists>j. find_idx P xs = Some j"
  using find_idx_None[of P xs] by (cases "find_idx P xs") auto

lemma find_idx_cong:
  "length xs = length ys \<Longrightarrow> (\<And>i. i < length xs \<Longrightarrow> P (xs ! i) = Q (ys ! i)) \<Longrightarrow>
   find_idx P xs = find_idx Q ys"
proof (induction xs ys rule: list_induct2)
  case (Cons x xs y ys)
  have "P x = Q y" using Cons.prems[of 0] by simp
  moreover have "find_idx P xs = find_idx Q ys"
    using Cons.prems[of "Suc i" for i] by (intro Cons.IH) auto
  ultimately show ?case by simp
qed simp

lemma find_SomeD: "find P xs = Some x \<Longrightarrow> x \<in> set xs \<and> P x"
  by (induction xs) (auto split: if_splits)

lemma find_exists: "x \<in> set xs \<Longrightarrow> P x \<Longrightarrow> \<exists>y. find P xs = Some y"
  by (induction xs) auto

section \<open>Runs of bytes\<close>

text \<open>
  \<open>chunk off n xs\<close> is what a copy of \<open>n\<close> elements out of \<open>xs\<close> at \<open>off\<close> reads;
  \<open>patch off ys xs\<close> is \<open>xs\<close> after \<open>ys\<close> was copied into it at \<open>off\<close>.
\<close>

definition chunk :: "nat \<Rightarrow> nat \<Rightarrow> 'a list \<Rightarrow> 'a list" where
  "chunk off n xs = take n (drop off xs)"

definition patch :: "nat \<Rightarrow> 'a list \<Rightarrow> 'a list \<Rightarrow> 'a list" where
  "patch off ys xs = take off xs @ ys @ drop (off + length ys) xs"

lemma length_chunk [simp]: "off + n \<le> length xs \<Longrightarrow> length (chunk off n xs) = n"
  by (simp add: chunk_def)

lemma length_patch [simp]: "off + length ys \<le> length xs \<Longrightarrow> length (patch off ys xs) = length xs"
  by (simp add: patch_def)

lemma nth_chunk: "off + n \<le> length xs \<Longrightarrow> i < n \<Longrightarrow> chunk off n xs ! i = xs ! (off + i)"
  by (simp add: chunk_def)

lemma nth_patch:
  "off + length ys \<le> length xs \<Longrightarrow> i < length xs \<Longrightarrow>
   patch off ys xs ! i = (if off \<le> i \<and> i < off + length ys then ys ! (i - off) else xs ! i)"
  by (auto simp: patch_def nth_append)

lemma chunk_patch_same:
  "off + length ys \<le> length xs \<Longrightarrow> chunk off (length ys) (patch off ys xs) = ys"
  by (rule nth_equalityI) (auto simp: nth_chunk nth_patch)

lemma chunk_patch_other:
  "off + length ys \<le> length xs \<Longrightarrow> o2 + n \<le> length xs \<Longrightarrow>
   o2 + n \<le> off \<or> off + length ys \<le> o2 \<Longrightarrow> chunk o2 n (patch off ys xs) = chunk o2 n xs"
  by (rule nth_equalityI) (auto simp: nth_chunk nth_patch)

lemma patch_all: "length ys = length xs \<Longrightarrow> patch 0 ys xs = ys"
  by (simp add: patch_def)

section \<open>Little-endian integers\<close>

definition le16 :: "ushort \<Rightarrow> uchar list" where
  "le16 w = [ucast w, ucast (drop_bit 8 w)]"

definition unle16 :: "uchar list \<Rightarrow> ushort" where
  "unle16 bs = ucast (bs ! 0) OR push_bit 8 (ucast (bs ! 1))"

definition le32 :: "uint \<Rightarrow> uchar list" where
  "le32 w = [ucast w, ucast (drop_bit 8 w), ucast (drop_bit 16 w), ucast (drop_bit 24 w)]"

definition unle32 :: "uchar list \<Rightarrow> uint" where
  "unle32 bs = ucast (bs ! 0) OR push_bit 8 (ucast (bs ! 1)) OR push_bit 16 (ucast (bs ! 2))
     OR push_bit 24 (ucast (bs ! 3))"

lemma length_le [simp]: "length (le16 v) = 2" "length (le32 w) = 4"
  by (simp_all add: le16_def le32_def)

lemma unle16_le16 [simp]: "unle16 (le16 w) = w"
proof (rule bit_word_eqI)
  fix n assume "n < LENGTH(16)"
  then consider "n < 8" | "8 \<le> n" "n < 16" by fastforce
  then show "bit (unle16 (le16 w)) n = bit w n"
    by cases (auto simp: unle16_def le16_def bit_simps)
qed

lemma unle32_le32 [simp]: "unle32 (le32 w) = w"
proof (rule bit_word_eqI)
  fix n assume "n < LENGTH(32)"
  then consider "n < 8" | "8 \<le> n" "n < 16" | "16 \<le> n" "n < 24" | "24 \<le> n" "n < 32"
    by fastforce
  then show "bit (unle32 (le32 w)) n = bit w n"
    by cases (auto simp: unle32_def le32_def bit_simps)
qed

lemma uchar_high_bits: "8 \<le> n \<Longrightarrow> bit (x :: uchar) n = False"
  using bit_imp_le_length[of x n] by auto

lemma le32_unle32:
  assumes "length bs = 4"
  shows "le32 (unle32 bs) = bs"
proof -
  obtain p q r s where bs: "bs = [p, q, r, s]"
    using assms by (auto simp: numeral_eq_Suc length_Suc_conv)
  show ?thesis unfolding bs le32_def unle32_def
    by (simp; intro conjI; rule bit_word_eqI; auto simp: bit_simps uchar_high_bits)
qed

section \<open>Fixed-width encodings and arrays of them\<close>

definition get_slot :: "(uchar list \<Rightarrow> 'r) \<Rightarrow> nat \<Rightarrow> nat \<Rightarrow> block \<Rightarrow> 'r" where
  "get_slot dec w i blk = dec (chunk (w * i) w blk)"

definition put_slot :: "('r \<Rightarrow> uchar list) \<Rightarrow> nat \<Rightarrow> nat \<Rightarrow> 'r \<Rightarrow> block \<Rightarrow> block" where
  "put_slot enc w i x blk = patch (w * i) (enc x) blk"

text \<open>
  What the file system relies on when it casts a block to an array of structs: every
  well-formed value has \<open>width\<close> bytes and is read back from them.
\<close>

locale codec =
  fixes enc :: "'r \<Rightarrow> uchar list"
    and dec :: "uchar list \<Rightarrow> 'r"
    and width :: nat
    and wf :: "'r \<Rightarrow> bool"
  assumes length_enc: "wf x \<Longrightarrow> length (enc x) = width"
    and dec_enc: "wf x \<Longrightarrow> dec (enc x) = x"
    and wf_dec: "length bs = width \<Longrightarrow> wf (dec bs)"
begin

lemma slot_le: "Suc i * width \<le> length blk \<Longrightarrow> width * i + width \<le> length blk"
  by (simp add: mult.commute)

lemma length_put_slot:
  "wf x \<Longrightarrow> Suc i * width \<le> length blk \<Longrightarrow> length (put_slot enc width i x blk) = length blk"
  using slot_le[of i blk] by (simp add: put_slot_def length_enc)

lemma get_put_same:
  "wf x \<Longrightarrow> Suc i * width \<le> length blk \<Longrightarrow>
   get_slot dec width i (put_slot enc width i x blk) = x"
  using chunk_patch_same[of "width * i" "enc x" blk] slot_le[of i blk]
  by (simp add: get_slot_def put_slot_def length_enc dec_enc)

lemma slots_apart: "i \<noteq> j \<Longrightarrow> width * j + width \<le> width * i \<or> width * i + width \<le> width * j"
proof -
  assume "i \<noteq> j"
  then consider "Suc j \<le> i" | "Suc i \<le> j" by linarith
  then show ?thesis
    by cases (use mult_le_mono2[of "Suc j" i width] mult_le_mono2[of "Suc i" j width] in simp)+
qed

lemma get_put_other:
  assumes "wf x" "Suc i * width \<le> length blk" "Suc j * width \<le> length blk" "i \<noteq> j"
  shows "get_slot dec width j (put_slot enc width i x blk) = get_slot dec width j blk"
  using assms slot_le[of i blk] slot_le[of j blk] slots_apart[of i j]
  by (simp add: get_slot_def put_slot_def length_enc chunk_patch_other)

lemma wf_get_slot: "Suc i * width \<le> length blk \<Longrightarrow> wf (get_slot dec width i blk)"
  using slot_le[of i blk] by (simp add: get_slot_def wf_dec)

end

interpretation u32: codec le32 unle32 4 "\<lambda>_. True"
  by unfold_locales simp_all

interpretation u16: codec le16 unle16 2 "\<lambda>_. True"
  by unfold_locales simp_all

lemmas [slot_laws] = u32.length_put_slot u32.get_put_same u32.get_put_other

end
