(* ===== verification/Cache_Spec.thy ===== *)
theory Cache_Spec
  imports Prelude
begin

text \<open>
  What a block cache promises to the log and the file system. The abstract state is
  the disk, the logical contents of every block, the blocks some caller holds, the
  blocks pinned in the cache because they differ from the disk, the history of disk
  writes, and the part of the state the cache does not touch. The locale lists one
  law per operation, each relating it to its abstract effect, and derives the three
  idioms of the clients: look at a block, overwrite a pinned block, and copy one
  block onto the disk image of another.
\<close>

section \<open>Abstract cache\<close>

record 'r cache =
  cdisk :: "block list"
  cview :: "nat \<Rightarrow> block"
  cheld :: "nat set"
  cdirty :: "nat set"
  ctrace :: "(nat \<times> block) list"
  crest :: 'r

definition c_get :: "nat \<Rightarrow> 'r cache \<Rightarrow> 'r cache" where
  "c_get n c = c\<lparr>cheld := insert n (cheld c)\<rparr>"

definition c_put :: "nat \<Rightarrow> block \<Rightarrow> 'r cache \<Rightarrow> 'r cache" where
  "c_put n d c = c\<lparr>cview := (cview c)(n := d)\<rparr>"

definition c_mark :: "nat \<Rightarrow> 'r cache \<Rightarrow> 'r cache" where
  "c_mark n c = c\<lparr>cdirty := insert n (cdirty c)\<rparr>"

definition c_write :: "nat \<Rightarrow> 'r cache \<Rightarrow> 'r cache" where
  "c_write n c = c\<lparr>cdisk := (cdisk c)[n := cview c n], cdirty := cdirty c - {n},
     ctrace := ctrace c @ [(n, cview c n)]\<rparr>"

definition c_rel :: "nat \<Rightarrow> 'r cache \<Rightarrow> 'r cache" where
  "c_rel n c = c\<lparr>cheld := cheld c - {n}\<rparr>"

definition can_get :: "nat \<Rightarrow> nat \<Rightarrow> 'r cache \<Rightarrow> bool" where
  "can_get cap n c \<longleftrightarrow> n < length (cdisk c) \<and> n \<notin> cheld c \<and>
     (n \<in> cdirty c \<or> card (cheld c \<union> cdirty c) < cap)"

definition can_rel :: "nat \<Rightarrow> 'r cache \<Rightarrow> bool" where
  "can_rel n c \<longleftrightarrow> n \<in> cdirty c \<or> cview c n = cdisk c ! n"

lemmas c_defs = c_get_def c_put_def c_mark_def c_write_def c_rel_def

text \<open>Applying a sequence of whole-block writes to a disk and to a cache.\<close>

definition apply_writes :: "block list \<Rightarrow> (nat \<times> block) list \<Rightarrow> block list" where
  "apply_writes D W = foldl (\<lambda>D (n, d). D[n := d]) D W"

definition c_store :: "(nat \<times> block) list \<Rightarrow> 'r cache \<Rightarrow> 'r cache" where
  "c_store W c = foldl (\<lambda>c (n, d). c_write n (c_put n d c)) c W"

lemma apply_writes_simps [simp]:
  "apply_writes D [] = D"
  "apply_writes D (W @ [(n, d)]) = (apply_writes D W)[n := d]"
  by (simp_all add: apply_writes_def)

lemma apply_writes_append: "apply_writes D (V @ W) = apply_writes (apply_writes D V) W"
  by (simp add: apply_writes_def)

lemma length_apply_writes [simp]: "length (apply_writes D W) = length D"
  by (induction W rule: rev_induct) (auto split: prod.splits)

lemma apply_writes_other: "b \<notin> fst ` set W \<Longrightarrow> apply_writes D W ! b = D ! b"
  by (induction W rule: rev_induct) auto

lemma apply_writes_last:
  "b < length D \<Longrightarrow> b \<notin> fst ` set V \<Longrightarrow> apply_writes D (W @ (b, d) # V) ! b = d"
proof -
  assume *: "b < length D" "b \<notin> fst ` set V"
  have "W @ (b, d) # V = (W @ [(b, d)]) @ V" by simp
  then have "apply_writes D (W @ (b, d) # V) = apply_writes ((apply_writes D W)[b := d]) V"
    by (simp only: apply_writes_append[of D "W @ [(b, d)]"] apply_writes_simps)
  then show ?thesis using * apply_writes_other[of b V] by simp
qed

lemma apply_writes_mem:
  assumes "distinct (map fst W)" "(b, d) \<in> set W" "b < length D"
  shows "apply_writes D W ! b = d"
proof -
  obtain U V where W: "W = U @ (b, d) # V" using assms(2) by (auto simp: in_set_conv_decomp)
  then have "b \<notin> fst ` set V" using assms(1) by auto
  then show ?thesis using apply_writes_last[OF assms(3)] W by simp
qed

lemma c_store_Nil [simp]: "c_store [] c = c"
  by (simp add: c_store_def)

lemma c_store_snoc: "c_store (W @ [(n, d)]) c = c_write n (c_put n d (c_store W c))"
  by (simp add: c_store_def)

lemma c_store_append: "c_store (V @ W) c = c_store W (c_store V c)"
  by (simp add: c_store_def)

lemma c_store_fields [simp]:
  "cdisk (c_store W c) = apply_writes (cdisk c) W"
  "cheld (c_store W c) = cheld c"
  "cdirty (c_store W c) = cdirty c - fst ` set W"
  "ctrace (c_store W c) = ctrace c @ W"
  "crest (c_store W c) = crest c"
  by (induction W rule: rev_induct) (auto simp: c_store_snoc c_write_def c_put_def)

lemma cview_store_other: "b \<notin> fst ` set W \<Longrightarrow> cview (c_store W c) b = cview c b"
  by (induction W rule: rev_induct) (auto simp: c_store_snoc c_write_def c_put_def)

lemma cview_store_last: "b \<notin> fst ` set V \<Longrightarrow> cview (c_store (W @ (b, d) # V) c) b = d"
proof -
  assume *: "b \<notin> fst ` set V"
  have "W @ (b, d) # V = (W @ [(b, d)]) @ V" by simp
  then have "c_store (W @ (b, d) # V) c = c_store V (c_write b (c_put b d (c_store W c)))"
    by (simp only: c_store_append[of "W @ [(b, d)]"] c_store_snoc)
  then show ?thesis by (simp add: cview_store_other[OF *] c_write_def c_put_def)
qed

lemma cview_store_mem:
  assumes "distinct (map fst W)" "(b, d) \<in> set W"
  shows "cview (c_store W c) b = d"
proof -
  obtain U V where W: "W = U @ (b, d) # V" using assms(2) by (auto simp: in_set_conv_decomp)
  then have "b \<notin> fst ` set V" using assms(1) by auto
  then show ?thesis using cview_store_last W by simp
qed

section \<open>The contract\<close>

locale block_cache =
  fixes inv :: "'s \<Rightarrow> bool"
    and ab :: "'s \<Rightarrow> 'r cache"
    and holds :: "'s \<Rightarrow> nat \<Rightarrow> nat \<Rightarrow> bool"
    and dat :: "nat \<Rightarrow> 's \<Rightarrow> block"
    and rd :: "nat \<Rightarrow> 's \<Rightarrow> (nat, 's) outcome"
    and put :: "nat \<Rightarrow> block \<Rightarrow> 's \<Rightarrow> 's"
    and mark :: "nat \<Rightarrow> 's \<Rightarrow> 's"
    and wr :: "nat \<Rightarrow> 's \<Rightarrow> (unit, 's) outcome"
    and rel :: "nat \<Rightarrow> 's \<Rightarrow> (unit, 's) outcome"
    and bsize :: nat
    and cap :: nat
  assumes rd_law: "inv s \<Longrightarrow> can_get cap n (ab s) \<Longrightarrow>
      runs (rd n s) (\<lambda>i s'. inv s' \<and> holds s' i n \<and> ab s' = c_get n (ab s) \<and>
        (\<forall>j m. holds s j m \<longrightarrow> holds s' j m))"
    and dat_law: "inv s \<Longrightarrow> holds s i n \<Longrightarrow> dat i s = cview (ab s) n"
    and put_law: "inv s \<Longrightarrow> holds s i n \<Longrightarrow> length d = bsize \<Longrightarrow>
      inv (put i d s) \<and> ab (put i d s) = c_put n d (ab s) \<and>
      (\<forall>j m. holds s j m \<longrightarrow> holds (put i d s) j m)"
    and mark_law: "inv s \<Longrightarrow> holds s i n \<Longrightarrow>
      inv (mark i s) \<and> ab (mark i s) = c_mark n (ab s) \<and>
      (\<forall>j m. holds s j m \<longrightarrow> holds (mark i s) j m)"
    and wr_law: "inv s \<Longrightarrow> holds s i n \<Longrightarrow>
      runs (wr i s) (\<lambda>_ s'. inv s' \<and> ab s' = c_write n (ab s) \<and>
        (\<forall>j m. holds s j m \<longrightarrow> holds s' j m))"
    and rel_law: "inv s \<Longrightarrow> holds s i n \<Longrightarrow> can_rel n (ab s) \<Longrightarrow>
      runs (rel i s) (\<lambda>_ s'. inv s' \<and> ab s' = c_rel n (ab s) \<and>
        (\<forall>j m. holds s j m \<and> m \<noteq> n \<longrightarrow> holds s' j m))"
    and held_law: "inv s \<Longrightarrow> holds s i n \<Longrightarrow> n \<in> cheld (ab s) \<and> n < length (cdisk (ab s))"
    and clean_law: "inv s \<Longrightarrow> n < length (cdisk (ab s)) \<Longrightarrow> n \<notin> cheld (ab s) \<Longrightarrow>
      can_rel n (ab s)"
    and size_law: "inv s \<Longrightarrow> n < length (cdisk (ab s)) \<Longrightarrow> length (cview (ab s) n) = bsize"
begin

lemma rd_wp:
  assumes "inv s" "can_get cap n (ab s)"
    and "\<And>i s'. \<lbrakk>inv s'; holds s' i n; ab s' = c_get n (ab s); dat i s' = cview (ab s) n;
           \<forall>j m. holds s j m \<longrightarrow> holds s' j m\<rbrakk> \<Longrightarrow> Q i s'"
  shows "runs (rd n s) Q"
  using rd_law[OF assms(1,2)]
proof (rule runs_mono, elim conjE)
  fix i s' assume *: "inv s'" "holds s' i n" "ab s' = c_get n (ab s)"
    "\<forall>j m. holds s j m \<longrightarrow> holds s' j m"
  then have "dat i s' = cview (ab s) n"
    using dat_law[OF *(1,2)] by (simp add: c_get_def)
  with * show "Q i s'" by (intro assms(3))
qed

lemma wr_wp:
  assumes "inv s" "holds s i n"
    and "\<And>s'. \<lbrakk>inv s'; ab s' = c_write n (ab s); \<forall>j m. holds s j m \<longrightarrow> holds s' j m\<rbrakk> \<Longrightarrow> Q () s'"
  shows "runs (wr i s) Q"
  using wr_law[OF assms(1,2)] by (rule runs_mono) (use assms(3) in auto)

lemma rel_wp:
  assumes "inv s" "holds s i n" "can_rel n (ab s)"
    and "\<And>s'. \<lbrakk>inv s'; ab s' = c_rel n (ab s); \<forall>j m. holds s j m \<and> m \<noteq> n \<longrightarrow> holds s' j m\<rbrakk>
           \<Longrightarrow> Q () s'"
  shows "runs (rel i s) Q"
  using rel_law[OF assms(1-3)] by (rule runs_mono) (use assms(4) in auto)

text \<open>Read a block, compute from it, release it.\<close>

lemma peek:
  assumes "inv s" "can_get cap n (ab s)"
    and "\<And>s'. \<lbrakk>inv s'; ab s' = ab s; \<forall>j m. holds s j m \<longrightarrow> holds s' j m\<rbrakk> \<Longrightarrow>
           runs (k (cview (ab s) n) s') Q"
  shows "runs (obind (rd n s) (\<lambda>i s. obind (rel i s) (\<lambda>_ s'. k (dat i s) s'))) Q"
  unfolding runs_obind
proof (rule rd_wp[OF assms(1,2)])
  fix i s1
  assume 1: "inv s1" "holds s1 i n" "ab s1 = c_get n (ab s)" "dat i s1 = cview (ab s) n"
    "\<forall>j m. holds s j m \<longrightarrow> holds s1 j m"
  have free: "n \<notin> cheld (ab s)" using assms(2) by (simp add: can_get_def)
  have "can_rel n (ab s)"
    using clean_law[OF assms(1) _ free] assms(2) by (simp add: can_get_def)
  then have r: "can_rel n (ab s1)" by (simp add: 1(3) can_rel_def c_get_def)
  show "runs (rel i s1) (\<lambda>_ s'. runs (k (dat i s1) s') Q)"
  proof (rule rel_wp[OF 1(1,2) r])
    fix s2 assume 2: "inv s2" "ab s2 = c_rel n (ab s1)"
      "\<forall>j m. holds s1 j m \<and> m \<noteq> n \<longrightarrow> holds s2 j m"
    have "ab s2 = ab s" using free by (simp add: 2 1 c_rel_def c_get_def)
    moreover have "\<forall>j m. holds s j m \<longrightarrow> holds s2 j m"
      using 1(5) 2(3) held_law[OF assms(1)] free by blast
    ultimately show "runs (k (dat i s1) s2) Q" using assms(3)[OF 2(1)] 1(4) by simp
  qed
qed

text \<open>
  Copy block \<open>m\<close> onto block \<open>n\<close> and write it out, releasing the two buffers in
  either order.
\<close>

lemma copy_put_write:
  assumes "inv s" "holds s i n" "holds s j m"
  shows "runs (wr i (put i (dat j s) s)) (\<lambda>_ s'. inv s' \<and> holds s' i n \<and> holds s' j m \<and>
    ab s' = c_write n (c_put n (cview (ab s) m) (ab s)))"
proof -
  have d: "dat j s = cview (ab s) m" by (rule dat_law[OF assms(1,3)])
  have len: "length (dat j s) = bsize"
    using size_law[OF assms(1)] held_law[OF assms(1,3)] d by simp
  note p = put_law[OF assms(1,2) len]
  show ?thesis
    by (rule wr_wp[of _ _ n]) (use p assms d in auto)
qed

lemma release_two:
  assumes "inv s" "holds s i n" "holds s j m" "n \<noteq> m" "can_rel n (ab s)" "can_rel m (ab s)"
  shows "runs (obind (rel i s) (\<lambda>_ s. rel j s)) (\<lambda>_ s'. inv s' \<and> ab s' = c_rel m (c_rel n (ab s)))"
  unfolding runs_obind
proof (rule rel_wp[OF assms(1,2,5)])
  fix s1 assume 1: "inv s1" "ab s1 = c_rel n (ab s)" "\<forall>j m. holds s j m \<and> m \<noteq> n \<longrightarrow> holds s1 j m"
  have h: "holds s1 j m" using 1 assms by blast
  have "can_rel m (ab s1)" using assms(6) by (simp add: 1 can_rel_def c_rel_def)
  then show "runs (rel j s1) (\<lambda>_ s'. inv s' \<and> ab s' = c_rel m (c_rel n (ab s)))"
    by (rule rel_wp[OF 1(1) h]) (use 1 in auto)
qed

lemma copy_tail:
  assumes "inv s" "holds s i n" "holds s j m" "n \<noteq> m" "can_rel m (ab s)"
  shows "runs (obind (wr i (put i (dat j s) s)) (\<lambda>_ s. obind (rel j s) (\<lambda>_ s. rel i s)))
    (\<lambda>_ s'. inv s' \<and> ab s' = c_rel n (c_rel m (c_write n (c_put n (cview (ab s) m) (ab s)))))"
  unfolding runs_obind
  by (rule runs_mono[OF copy_put_write[OF assms(1-3)]], elim conjE,
      fold runs_obind, drule (2) release_two)
    (use assms held_law[OF assms(1,2)] in \<open>auto simp: can_rel_def c_defs\<close>)

lemma both_released:
  assumes "n \<notin> cheld c" "m \<notin> cheld c" "n \<noteq> m"
  shows "c_rel n (c_rel m (c_write n (c_put n d (c_get m (c_get n c))))) = c_write n (c_put n d c)"
    "c_rel n (c_rel m (c_write n (c_put n d (c_get n (c_get m c))))) = c_write n (c_put n d c)"
  using assms by (auto intro!: cache.equality simp: c_defs)

lemma copy_block:
  assumes "inv s" "can_get cap n (ab s)" "can_get cap m (c_get n (ab s))"
  shows "runs (obind (rd n s) (\<lambda>i s. obind (rd m s) (\<lambda>j s.
      obind (wr i (put i (dat j s) s)) (\<lambda>_ s. obind (rel j s) (\<lambda>_ s. rel i s)))))
    (\<lambda>_ s'. inv s' \<and> ab s' = c_write n (c_put n (cview (ab s) m) (ab s)))"
  unfolding runs_obind[of "rd n s"]
proof (rule rd_wp[OF assms(1,2)])
  have ne: "n \<noteq> m" "n \<notin> cheld (ab s)" "m \<notin> cheld (ab s)"
    using assms by (auto simp: can_get_def c_get_def)
  have rel: "can_rel m (ab s)"
    using clean_law[OF assms(1) _ ne(3)] assms(3) by (simp add: can_get_def c_get_def)
  fix i s1 assume 1: "inv s1" "holds s1 i n" "ab s1 = c_get n (ab s)"
  have "can_get cap m (ab s1)" using assms(3) 1(3) by simp
  then show "runs (obind (rd m s1) (\<lambda>j s. obind (wr i (put i (dat j s) s))
      (\<lambda>_ s. obind (rel j s) (\<lambda>_ s. rel i s))))
      (\<lambda>_ s'. inv s' \<and> ab s' = c_write n (c_put n (cview (ab s) m) (ab s)))"
    unfolding runs_obind[of "rd m s1"]
  proof (rule rd_wp[OF 1(1)])
    fix j s2 assume 2: "inv s2" "holds s2 j m" "ab s2 = c_get m (ab s1)"
      "\<forall>j m. holds s1 j m \<longrightarrow> holds s2 j m"
    have "can_rel m (ab s2)" using rel by (simp add: 1 2 can_rel_def c_get_def)
    then show "runs (obind (wr i (put i (dat j s2) s2)) (\<lambda>_ s. obind (rel j s) (\<lambda>_ s. rel i s)))
      (\<lambda>_ s'. inv s' \<and> ab s' = c_write n (c_put n (cview (ab s) m) (ab s)))"
      using runs_mono[OF copy_tail[OF 2(1) _ 2(2) ne(1)], of i] 1 2 both_released[OF ne(2,3,1)]
      by (simp add: c_get_def)
  qed
qed

lemma copy_block':
  assumes "inv s" "can_get cap m (ab s)" "can_get cap n (c_get m (ab s))"
  shows "runs (obind (rd m s) (\<lambda>j s. obind (rd n s) (\<lambda>i s.
      obind (wr i (put i (dat j s) s)) (\<lambda>_ s. obind (rel j s) (\<lambda>_ s. rel i s)))))
    (\<lambda>_ s'. inv s' \<and> ab s' = c_write n (c_put n (cview (ab s) m) (ab s)))"
  unfolding runs_obind[of "rd m s"]
proof (rule rd_wp[OF assms(1,2)])
  have ne: "n \<noteq> m" "n \<notin> cheld (ab s)" "m \<notin> cheld (ab s)"
    using assms by (auto simp: can_get_def c_get_def)
  have rel: "can_rel m (ab s)"
    using clean_law[OF assms(1) _ ne(3)] assms(2) by (simp add: can_get_def c_get_def)
  fix j s1 assume 1: "inv s1" "holds s1 j m" "ab s1 = c_get m (ab s)"
  have "can_get cap n (ab s1)" using assms(3) 1(3) by simp
  then show "runs (obind (rd n s1) (\<lambda>i s. obind (wr i (put i (dat j s) s))
      (\<lambda>_ s. obind (rel j s) (\<lambda>_ s. rel i s))))
      (\<lambda>_ s'. inv s' \<and> ab s' = c_write n (c_put n (cview (ab s) m) (ab s)))"
    unfolding runs_obind[of "rd n s1"]
  proof (rule rd_wp[OF 1(1)])
    fix i s2 assume 2: "inv s2" "holds s2 i n" "ab s2 = c_get n (ab s1)"
      "\<forall>j m. holds s1 j m \<longrightarrow> holds s2 j m"
    have "can_rel m (ab s2)" using rel by (simp add: 1 2 can_rel_def c_get_def)
    then show "runs (obind (wr i (put i (dat j s2) s2)) (\<lambda>_ s. obind (rel j s) (\<lambda>_ s. rel i s)))
      (\<lambda>_ s'. inv s' \<and> ab s' = c_write n (c_put n (cview (ab s) m) (ab s)))"
      using runs_mono[OF copy_tail[OF 2(1,2) _ ne(1)], of j] 1 2 both_released[OF ne(2,3,1)]
      by (simp add: c_get_def)
  qed
qed

text \<open>Change a block in place and write it out.\<close>

lemma rewrite_block:
  assumes "inv s" "can_get cap n (ab s)" "length (f (cview (ab s) n)) = bsize"
  shows "runs (obind (rd n s) (\<lambda>i s. obind (wr i (put i (f (dat i s)) s)) (\<lambda>_ s. rel i s)))
    (\<lambda>_ s'. inv s' \<and> ab s' = c_write n (c_put n (f (cview (ab s) n)) (ab s)))"
  unfolding runs_obind
proof (rule rd_wp[OF assms(1,2)])
  have free: "n \<notin> cheld (ab s)" and n: "n < length (cdisk (ab s))"
    using assms(2) by (auto simp: can_get_def)
  fix i s1 assume 1: "inv s1" "holds s1 i n" "ab s1 = c_get n (ab s)" "dat i s1 = cview (ab s) n"
  note p = put_law[OF 1(1,2), of "f (dat i s1)"]
  show "runs (wr i (put i (f (dat i s1)) s1)) (\<lambda>_ t. runs (rel i t)
      (\<lambda>_ s'. inv s' \<and> ab s' = c_write n (c_put n (f (cview (ab s) n)) (ab s))))"
  proof (rule wr_wp[of _ _ n])
    fix s2 assume 2: "inv s2" "ab s2 = c_write n (ab (put i (f (dat i s1)) s1))"
      "\<forall>j m. holds (put i (f (dat i s1)) s1) j m \<longrightarrow> holds s2 j m"
    have ab: "ab s2 = c_write n (c_put n (f (cview (ab s) n)) (c_get n (ab s)))"
      using 2(2) p assms(3) 1 by simp
    have h: "holds s2 i n" using 1 2(3) p assms(3) by simp
    have r: "can_rel n (ab s2)" using n by (simp add: ab can_rel_def c_defs)
    have "c_rel n (ab s2) = c_write n (c_put n (f (cview (ab s) n)) (ab s))"
      using free by (auto intro!: cache.equality simp: ab c_defs)
    then show "runs (rel i s2)
        (\<lambda>_ s'. inv s' \<and> ab s' = c_write n (c_put n (f (cview (ab s) n)) (ab s)))"
      by (intro rel_wp[OF 2(1) h r]) simp
  qed (use p 1 assms(3) in simp_all)
qed

end

end
