(* ===== verification/Bio.thy ===== *)
theory Bio
  imports Cache_Spec
begin

text \<open>
  The in-memory disk (\<^verbatim>\<open>kernel/memide.c\<close>) and the buffer cache (\<^verbatim>\<open>kernel/bio.c\<close>).

  The disk is the list of its blocks; \<open>dwrites\<close> records, oldest first, every block
  \<open>iderw\<close> writes to it. A buffer is named by its index in \<open>bcache.buf\<close>; \<open>lru\<close> lists
  the buffers from \<open>bcache.head.next\<close> on, most recently used first (the theory
  \<open>Bcache_List\<close> shows that the \<open>prev\<close>/\<open>next\<close> manipulations of the C code implement
  it). \<open>wakeq\<close> records the channels passed to \<open>wakeup\<close>. The sections between
  \<open>acquire\<close> and \<open>release\<close> of \<open>bcache.lock\<close> are the atomic steps of the model.

  The locale \<open>block_cache\<close> states what the cache promises to its clients: a logical
  disk (\<open>view\<close>) that reading, recycling and writing back never change.
\<close>

section \<open>State\<close>

definition BSIZE :: nat where "BSIZE = 512"
definition NBUF :: nat where "NBUF = 30"

datatype bflag = B_BUSY | B_VALID | B_DIRTY

record buf =
  flags :: "bflag set"
  dev :: uint
  blockno :: nat
  data :: block

record bstate =
  wakeq :: "chan list"
  memdisk :: "block list"
  dwrites :: "(nat \<times> block) list"
  bufs :: "buf list"
  lru :: "nat list"

definition upd_buf :: "nat \<Rightarrow> (buf \<Rightarrow> buf) \<Rightarrow> 'a bstate_scheme \<Rightarrow> 'a bstate_scheme" where
  "upd_buf i f s = s\<lparr>bufs := (bufs s)[i := f (bufs s ! i)]\<rparr>"

definition set_data :: "nat \<Rightarrow> block \<Rightarrow> 'a bstate_scheme \<Rightarrow> 'a bstate_scheme" where
  "set_data i d = upd_buf i (data_update (\<lambda>_. d))"

definition wakeup :: "chan \<Rightarrow> 'a bstate_scheme \<Rightarrow> 'a bstate_scheme" where
  "wakeup c s = s\<lparr>wakeq := wakeq s @ [c]\<rparr>"

section \<open>The disk\<close>

definition ideinit :: "uchar list \<Rightarrow> 'a bstate_scheme \<Rightarrow> 'a bstate_scheme" where
  "ideinit img s =
     s\<lparr>memdisk := map (\<lambda>k. chunk (BSIZE * k) BSIZE img) [0..<length img div BSIZE]\<rparr>"

definition iderw :: "nat \<Rightarrow> 'a bstate_scheme \<Rightarrow> (unit, 'a bstate_scheme) outcome" where
  "iderw i s =
     (let b = bufs s ! i in
      if B_BUSY \<notin> flags b then Panic ''iderw: buf not busy''
      else if B_VALID \<in> flags b \<and> B_DIRTY \<notin> flags b then Panic ''iderw: nothing to do''
      else if dev b \<noteq> 1 then Panic ''iderw: request not for disk 1''
      else if length (memdisk s) \<le> blockno b then Panic ''iderw: block out of range''
      else if B_DIRTY \<in> flags b then
        Ret () (upd_buf i (flags_update (\<lambda>f. insert B_VALID (f - {B_DIRTY})))
          (s\<lparr>memdisk := (memdisk s)[blockno b := data b],
             dwrites := dwrites s @ [(blockno b, data b)]\<rparr>))
      else
        Ret () (upd_buf i (\<lambda>b. b\<lparr>data := memdisk s ! blockno b,
                                 flags := insert B_VALID (flags b)\<rparr>) s))"

section \<open>The buffer cache\<close>

definition binit :: "'a bstate_scheme \<Rightarrow> 'a bstate_scheme" where
  "binit s = foldl (\<lambda>s i. upd_buf i (dev_update (\<lambda>_. -1)) (s\<lparr>lru := i # lru s\<rparr>))
     (s\<lparr>lru := []\<rparr>) [0..<NBUF]"

definition bget :: "uint \<Rightarrow> nat \<Rightarrow> 'a bstate_scheme \<Rightarrow> (nat, 'a bstate_scheme) outcome" where
  "bget d n s =
     (case find (\<lambda>i. dev (bufs s ! i) = d \<and> blockno (bufs s ! i) = n) (lru s) of
        Some i \<Rightarrow>
          if B_BUSY \<notin> flags (bufs s ! i)
          then Ret i (upd_buf i (flags_update (insert B_BUSY)) s)
          else Sleep (ChBuf i) s
      | None \<Rightarrow>
          (case find (\<lambda>i. B_BUSY \<notin> flags (bufs s ! i) \<and> B_DIRTY \<notin> flags (bufs s ! i))
                  (rev (lru s)) of
             Some i \<Rightarrow>
               Ret i (upd_buf i (\<lambda>b. b\<lparr>dev := d, blockno := n, flags := {B_BUSY}\<rparr>) s)
           | None \<Rightarrow> Panic ''bget: no buffers''))"

definition bread :: "uint \<Rightarrow> nat \<Rightarrow> 'a bstate_scheme \<Rightarrow> (nat, 'a bstate_scheme) outcome" where
  "bread d n s =
     obind (bget d n s) (\<lambda>i s.
       if B_VALID \<notin> flags (bufs s ! i) then obind (iderw i s) (\<lambda>_ s. Ret i s)
       else Ret i s)"

definition bwrite :: "nat \<Rightarrow> 'a bstate_scheme \<Rightarrow> (unit, 'a bstate_scheme) outcome" where
  "bwrite i s =
     (if B_BUSY \<notin> flags (bufs s ! i) then Panic ''bwrite''
      else iderw i (upd_buf i (flags_update (insert B_DIRTY)) s))"

definition brelse :: "nat \<Rightarrow> 'a bstate_scheme \<Rightarrow> (unit, 'a bstate_scheme) outcome" where
  "brelse i s =
     (if B_BUSY \<notin> flags (bufs s ! i) then Panic ''brelse''
      else Ret () (wakeup (ChBuf i)
        (upd_buf i (flags_update (\<lambda>f. f - {B_BUSY}))
          (s\<lparr>lru := i # remove1 i (lru s)\<rparr>))))"

section \<open>Invariant and abstraction\<close>

definition buf_ok :: "block list \<Rightarrow> buf \<Rightarrow> bool" where
  "buf_ok D b \<longleftrightarrow>
     length (data b) = BSIZE \<and>
     (B_DIRTY \<in> flags b \<or> B_BUSY \<in> flags b \<longrightarrow> B_VALID \<in> flags b) \<and>
     (B_VALID \<in> flags b \<longleftrightarrow> dev b = 1) \<and>
     (B_VALID \<in> flags b \<longrightarrow> blockno b < length D) \<and>
     (B_VALID \<in> flags b \<and> B_DIRTY \<notin> flags b \<and> B_BUSY \<notin> flags b \<longrightarrow> data b = D ! blockno b)"

definition bufs_unique :: "buf list \<Rightarrow> bool" where
  "bufs_unique bs \<longleftrightarrow>
     (\<forall>i < length bs. \<forall>j < length bs.
        dev (bs ! i) = 1 \<and> dev (bs ! j) = 1 \<and> blockno (bs ! i) = blockno (bs ! j) \<longrightarrow> i = j)"

definition binv :: "'a bstate_scheme \<Rightarrow> bool" where
  "binv s \<longleftrightarrow>
     length (bufs s) = NBUF \<and> distinct (lru s) \<and> set (lru s) = {..<NBUF} \<and>
     (\<forall>d \<in> set (memdisk s). length d = BSIZE) \<and>
     (\<forall>i < NBUF. buf_ok (memdisk s) (bufs s ! i)) \<and>
     bufs_unique (bufs s)"

text \<open>The logical disk: a valid buffer's data, else what is on the disk.\<close>

definition view :: "'a bstate_scheme \<Rightarrow> nat \<Rightarrow> block" where
  "view s n =
     (case find_idx (\<lambda>b. B_VALID \<in> flags b \<and> blockno b = n) (bufs s) of
        Some i \<Rightarrow> data (bufs s ! i)
      | None \<Rightarrow> memdisk s ! n)"

definition flagged :: "bflag \<Rightarrow> 'a bstate_scheme \<Rightarrow> nat set" where
  "flagged F s = blockno ` {b \<in> set (bufs s). F \<in> flags b}"

abbreviation held :: "'a bstate_scheme \<Rightarrow> nat set" where "held \<equiv> flagged B_BUSY"
abbreviation dirty :: "'a bstate_scheme \<Rightarrow> nat set" where "dirty \<equiv> flagged B_DIRTY"

definition holds :: "'a bstate_scheme \<Rightarrow> nat \<Rightarrow> nat \<Rightarrow> bool" where
  "holds s i n \<longleftrightarrow> i < NBUF \<and> B_BUSY \<in> flags (bufs s ! i) \<and> blockno (bufs s ! i) = n"

section \<open>Replacing one buffer\<close>

lemma flagged_iff:
  "length (bufs s) = NBUF \<Longrightarrow>
   n \<in> flagged F s \<longleftrightarrow> (\<exists>i < NBUF. F \<in> flags (bufs s ! i) \<and> blockno (bufs s ! i) = n)"
  by (auto simp: flagged_def in_set_conv_nth)

lemma finite_flagged [simp]: "finite (flagged F s)"
  by (simp add: flagged_def)

lemma binv_unique:
  assumes "binv s" "i < NBUF" "j < NBUF" "B_VALID \<in> flags (bufs s ! i)"
    "B_VALID \<in> flags (bufs s ! j)" "blockno (bufs s ! i) = blockno (bufs s ! j)"
  shows "i = j"
  using assms unfolding binv_def bufs_unique_def buf_ok_def by metis

lemma binvD:
  assumes "binv s"
  shows "length (bufs s) = NBUF" "set (lru s) = {..<NBUF}" "distinct (lru s)"
    "i < NBUF \<Longrightarrow> buf_ok (memdisk s) (bufs s ! i)"
    "d \<in> set (memdisk s) \<Longrightarrow> length d = BSIZE"
  using assms by (auto simp: binv_def)

lemma binv_flag_valid:
  "binv s \<Longrightarrow> i < NBUF \<Longrightarrow> B_BUSY \<in> flags (bufs s ! i) \<or> B_DIRTY \<in> flags (bufs s ! i) \<Longrightarrow>
   B_VALID \<in> flags (bufs s ! i)"
  using binvD(4)[of s i] by (auto simp: buf_ok_def)

lemma binv_dev:
  "binv s \<Longrightarrow> i < NBUF \<Longrightarrow> B_VALID \<in> flags (bufs s ! i) \<longleftrightarrow> dev (bufs s ! i) = 1"
  using binvD(4)[of s i] by (simp add: buf_ok_def)

lemma view_valid:
  assumes "binv s" "i < NBUF" "B_VALID \<in> flags (bufs s ! i)"
  shows "view s (blockno (bufs s ! i)) = data (bufs s ! i)"
proof -
  have len: "length (bufs s) = NBUF" using assms(1) by (simp add: binv_def)
  let ?P = "\<lambda>b. B_VALID \<in> flags b \<and> blockno b = blockno (bufs s ! i)"
  obtain j where j: "find_idx ?P (bufs s) = Some j"
    using find_idx_exists[of i "bufs s" ?P] assms len by auto
  then have "j = i"
    using find_idx_SomeD[OF j] binv_unique[OF assms(1), of j i] assms len by simp
  with j show ?thesis by (simp add: view_def)
qed

lemma view_uncached:
  assumes "length (bufs s) = NBUF"
    "\<And>i. i < NBUF \<Longrightarrow> B_VALID \<in> flags (bufs s ! i) \<Longrightarrow> blockno (bufs s ! i) \<noteq> n"
  shows "view s n = memdisk s ! n"
proof -
  have "find_idx (\<lambda>b. B_VALID \<in> flags b \<and> blockno b = n) (bufs s) = None"
    using assms by (simp add: find_idx_None)
  then show ?thesis by (simp add: view_def)
qed

lemma holds_valid: "binv s \<Longrightarrow> holds s i n \<Longrightarrow> B_VALID \<in> flags (bufs s ! i)"
  unfolding holds_def binv_def buf_ok_def by blast

lemma holds_data: "binv s \<Longrightarrow> holds s i n \<Longrightarrow> data (bufs s ! i) = view s n"
  using view_valid[of s i] holds_valid[of s i n] by (simp add: holds_def)

text \<open>The effect of an operation that replaces buffer \<open>i\<close> and at most its disk block.\<close>

definition replaces :: "nat \<Rightarrow> buf \<Rightarrow> 'a bstate_scheme \<Rightarrow> 'a bstate_scheme \<Rightarrow> bool" where
  "replaces i b s s' \<longleftrightarrow>
     binv s \<and> i < NBUF \<and> bufs s' = (bufs s)[i := b] \<and>
     distinct (lru s') \<and> set (lru s') = set (lru s) \<and>
     length (memdisk s') = length (memdisk s) \<and>
     (\<forall>d \<in> set (memdisk s'). length d = BSIZE) \<and>
     (\<forall>n. n \<noteq> blockno b \<longrightarrow> memdisk s' ! n = memdisk s ! n) \<and>
     buf_ok (memdisk s') b \<and> B_VALID \<in> flags b \<and>
     (\<forall>j < NBUF. j \<noteq> i \<longrightarrow> B_VALID \<in> flags (bufs s ! j) \<longrightarrow> blockno (bufs s ! j) \<noteq> blockno b) \<and>
     (blockno (bufs s ! i) \<noteq> blockno b \<longrightarrow>
        B_BUSY \<notin> flags (bufs s ! i) \<and> B_DIRTY \<notin> flags (bufs s ! i))"

lemma replaces_nth:
  assumes "replaces i b s s'"
  shows "bufs s' ! i = b" "j \<noteq> i \<Longrightarrow> bufs s' ! j = bufs s ! j" "length (bufs s') = NBUF"
    "length (bufs s) = NBUF" "i < NBUF"
  using assms by (auto simp: replaces_def binv_def)

lemma replaces_binv:
  assumes R: "replaces i b s s'"
  shows "binv s'"
proof -
  note nth = replaces_nth[OF R]
  have old: "buf_ok (memdisk s') (bufs s ! j)" if "j < NBUF" "j \<noteq> i" for j
    using R that unfolding replaces_def binv_def buf_ok_def by metis
  have ok: "buf_ok (memdisk s') (bufs s' ! j)" if "j < NBUF" for j
    using R old[OF that] nth by (cases "j = i") (auto simp: replaces_def)
  have valid: "B_VALID \<in> flags (bufs s ! j)" if "j < NBUF" "dev (bufs s ! j) = 1" for j
    using R that unfolding replaces_def binv_def buf_ok_def by metis
  have apart: "blockno (bufs s ! j) \<noteq> blockno b" if "j < NBUF" "j \<noteq> i" "dev (bufs s ! j) = 1" for j
    using R that valid unfolding replaces_def by metis
  have "bufs_unique (bufs s')" unfolding bufs_unique_def nth(3)
  proof (intro allI impI, elim conjE)
    fix p q assume pq: "p < NBUF" "q < NBUF" "dev (bufs s' ! p) = 1" "dev (bufs s' ! q) = 1"
      "blockno (bufs s' ! p) = blockno (bufs s' ! q)"
    have "\<lbrakk>p \<noteq> i; q \<noteq> i\<rbrakk> \<Longrightarrow> p = q"
      using pq nth R unfolding replaces_def binv_def bufs_unique_def by metis
    then show "p = q" using pq apart[of p] apart[of q] nth by metis
  qed
  then show ?thesis using R ok nth by (simp add: replaces_def binv_def)
qed

lemma replaces_view:
  assumes R: "replaces i b s s'"
  shows "view s' = (view s)(blockno b := data b)"
proof
  fix n
  note nth = replaces_nth[OF R]
  have inv: "binv s" "binv s'" and b: "B_VALID \<in> flags b"
    using R replaces_binv[OF R] by (auto simp: replaces_def)
  show "view s' n = ((view s)(blockno b := data b)) n"
  proof (cases "n = blockno b")
    case True
    then show ?thesis using view_valid[OF inv(2) nth(5)] nth(1) b by simp
  next
    case n: False
    show ?thesis
    proof (cases "\<exists>j < NBUF. B_VALID \<in> flags (bufs s' ! j) \<and> blockno (bufs s' ! j) = n")
      case True
      then obtain j where j: "j < NBUF" "B_VALID \<in> flags (bufs s' ! j)" "blockno (bufs s' ! j) = n"
        by blast
      then have "j \<noteq> i" using nth(1) n by auto
      then show ?thesis
        using view_valid[OF inv(2) j(1,2)] view_valid[OF inv(1) j(1)] j nth(2)[of j] n by simp
    next
      case False
      then have disk: "view s' n = memdisk s ! n"
        using view_uncached[of s' n] nth R n by (auto simp: replaces_def)
      show ?thesis
      proof (cases "B_VALID \<in> flags (bufs s ! i) \<and> blockno (bufs s ! i) = n")
        case True
        then have "data (bufs s ! i) = memdisk s ! n"
          using R n unfolding replaces_def binv_def buf_ok_def by metis
        then show ?thesis using view_valid[OF inv(1) nth(5)] True disk n by simp
      next
        case new: False
        have "view s n = memdisk s ! n"
          using False new nth by (intro view_uncached) metis+
        then show ?thesis using disk n by simp
      qed
    qed
  qed
qed

lemma replaces_flagged:
  assumes R: "replaces i b s s'" and F: "F = B_BUSY \<or> F = B_DIRTY"
  shows "flagged F s' = (if F \<in> flags b then insert (blockno b) (flagged F s)
                         else flagged F s - {blockno b})"
proof -
  note nth = replaces_nth[OF R]
  have old: "blockno (bufs s ! j) \<noteq> blockno b" if "j < NBUF" "j \<noteq> i" "F \<in> flags (bufs s ! j)" for j
  proof -
    have "B_VALID \<in> flags (bufs s ! j)"
      using R F that unfolding replaces_def binv_def buf_ok_def by blast
    then show ?thesis using R that by (simp add: replaces_def)
  qed
  have at_i: "F \<in> flags (bufs s ! i) \<Longrightarrow> blockno (bufs s ! i) = blockno b"
    using R F by (auto simp: replaces_def)
  show ?thesis
    unfolding set_eq_iff
  proof
    fix n
    have split: "n \<in> flagged F s' \<longleftrightarrow> (F \<in> flags b \<and> blockno b = n) \<or>
        (\<exists>j < NBUF. j \<noteq> i \<and> F \<in> flags (bufs s ! j) \<and> blockno (bufs s ! j) = n)"
      using flagged_iff[OF nth(3), of n F] nth by metis
    have "n \<in> flagged F s \<longleftrightarrow> (F \<in> flags (bufs s ! i) \<and> blockno (bufs s ! i) = n) \<or>
        (\<exists>j < NBUF. j \<noteq> i \<and> F \<in> flags (bufs s ! j) \<and> blockno (bufs s ! j) = n)"
      using flagged_iff[OF nth(4), of n F] nth(5) by metis
    then show "n \<in> flagged F s' \<longleftrightarrow> n \<in> (if F \<in> flags b then insert (blockno b) (flagged F s)
                         else flagged F s - {blockno b})"
      using split old at_i by auto
  qed
qed

lemma replaces_holds:
  assumes "replaces i b s s'" "holds s j m" "j \<noteq> i"
  shows "holds s' j m"
  using assms replaces_nth[OF assms(1)] by (simp add: holds_def)

section \<open>The operations\<close>

lemma clean_buffer_exists:
  assumes inv: "binv s" and room: "card (held s \<union> dirty s) < NBUF"
  shows "\<exists>i < NBUF. B_BUSY \<notin> flags (bufs s ! i) \<and> B_DIRTY \<notin> flags (bufs s ! i)"
proof (rule ccontr)
  assume "\<not> ?thesis"
  then have all: "B_BUSY \<in> flags (bufs s ! i) \<or> B_DIRTY \<in> flags (bufs s ! i)" if "i < NBUF" for i
    using that by blast
  have len: "length (bufs s) = NBUF" using inv by (simp add: binv_def)
  have valid: "B_VALID \<in> flags (bufs s ! i)" if "i < NBUF" for i
    using binv_flag_valid[OF inv that] all[OF that] by blast
  have inj: "inj_on (\<lambda>i. blockno (bufs s ! i)) {..<NBUF}"
    using binv_unique[OF inv] valid by (auto simp: inj_on_def)
  have "(\<lambda>i. blockno (bufs s ! i)) ` {..<NBUF} \<subseteq> held s \<union> dirty s"
    using all flagged_iff[OF len] by blast
  then have "card ((\<lambda>i. blockno (bufs s ! i)) ` {..<NBUF}) \<le> card (held s \<union> dirty s)"
    by (intro card_mono) auto
  then show False using room card_image[OF inj] by simp
qed

lemma bread_replaces:
  assumes inv: "binv s" and n: "n < length (memdisk s)" and free: "n \<notin> held s"
    and room: "n \<in> dirty s \<or> card (held s \<union> dirty s) < NBUF"
  shows "\<exists>i b. bread 1 n s = Ret i (s\<lparr>bufs := (bufs s)[i := b]\<rparr>) \<and>
    replaces i b s (s\<lparr>bufs := (bufs s)[i := b]\<rparr>) \<and> B_BUSY \<notin> flags (bufs s ! i) \<and>
    blockno b = n \<and> data b = view s n \<and> B_BUSY \<in> flags b \<and> (B_DIRTY \<in> flags b \<longleftrightarrow> n \<in> dirty s)"
proof (cases "\<exists>i < NBUF. dev (bufs s ! i) = 1 \<and> blockno (bufs s ! i) = n")
  case True
  have len: "length (bufs s) = NBUF" and lru: "set (lru s) = {..<NBUF}"
    using inv by (auto simp: binv_def)
  obtain i where i: "find (\<lambda>i. dev (bufs s ! i) = 1 \<and> blockno (bufs s ! i) = n) (lru s) = Some i"
    using True lru find_exists[of _ "lru s" "\<lambda>i. dev (bufs s ! i) = 1 \<and> blockno (bufs s ! i) = n"]
    by blast
  then have i': "i < NBUF" "dev (bufs s ! i) = 1" "blockno (bufs s ! i) = n"
    using lru find_SomeD[OF i] by auto
  have nb: "B_BUSY \<notin> flags (bufs s ! i)"
    using free i' flagged_iff[OF len, of n B_BUSY] by blast
  have ok: "buf_ok (memdisk s) (bufs s ! i)" using inv i' by (simp add: binv_def)
  then have v: "B_VALID \<in> flags (bufs s ! i)" using i' by (simp add: buf_ok_def)
  have d: "B_DIRTY \<in> flags (bufs s ! i) \<longleftrightarrow> n \<in> dirty s"
    using flagged_iff[OF len, of n B_DIRTY] i' binv_unique[OF inv i'(1) _ v]
      binv_flag_valid[OF inv] by metis
  have u: "blockno (bufs s ! j) \<noteq> n" if "j < NBUF" "j \<noteq> i" "B_VALID \<in> flags (bufs s ! j)" for j
    using binv_unique[OF inv] that i' v by metis
  let ?b = "flags_update (insert B_BUSY) (bufs s ! i)"
  have "bread 1 n s = Ret i (s\<lparr>bufs := (bufs s)[i := ?b]\<rparr>)"
    using i nb v i' len by (simp add: bread_def bget_def upd_buf_def)
  moreover have "replaces i ?b s (s\<lparr>bufs := (bufs s)[i := ?b]\<rparr>)"
    using inv i' u ok v by (auto simp: replaces_def binv_def buf_ok_def)
  ultimately show ?thesis
    using nb d v i' view_valid[OF inv i'(1) v] by (intro exI[of _ i] exI[of _ ?b]) simp
next
  case False
  have len: "length (bufs s) = NBUF" and lru: "set (lru s) = {..<NBUF}"
    using inv by (auto simp: binv_def)
  have u: "blockno (bufs s ! j) \<noteq> n" if "j < NBUF" "B_VALID \<in> flags (bufs s ! j)" for j
    using False that binv_dev[OF inv] by blast
  have nd: "n \<notin> dirty s"
    using flagged_iff[OF len, of n B_DIRTY] u binv_flag_valid[OF inv] by blast
  obtain k where k: "k < NBUF" "B_BUSY \<notin> flags (bufs s ! k)" "B_DIRTY \<notin> flags (bufs s ! k)"
    using clean_buffer_exists[OF inv] room nd by auto
  have none: "find (\<lambda>i. dev (bufs s ! i) = 1 \<and> blockno (bufs s ! i) = n) (lru s) = None"
    using False lru by (auto simp: find_None_iff)
  let ?P = "\<lambda>i. B_BUSY \<notin> flags (bufs s ! i) \<and> B_DIRTY \<notin> flags (bufs s ! i)"
  obtain i where i: "find ?P (rev (lru s)) = Some i"
    using k lru find_exists[of k "rev (lru s)" ?P] by auto
  then have i': "i < NBUF" "?P i"
    using lru find_SomeD[OF i] by auto
  let ?b = "(bufs s ! i)\<lparr>dev := 1, blockno := n, data := memdisk s ! n, flags := {B_VALID, B_BUSY}\<rparr>"
  have "bread 1 n s = Ret i (s\<lparr>bufs := (bufs s)[i := ?b]\<rparr>)"
    using none i i' len n by (simp add: bread_def bget_def iderw_def Let_def upd_buf_def)
  moreover have "replaces i ?b s (s\<lparr>bufs := (bufs s)[i := ?b]\<rparr>)"
    using inv i' u n by (auto simp: replaces_def binv_def buf_ok_def)
  moreover have "view s n = memdisk s ! n"
    using view_uncached[OF len] u by blast
  ultimately show ?thesis
    using i' nd by (intro exI[of _ i] exI[of _ ?b]) simp
qed

lemma set_data_replaces:
  assumes "binv s" "holds s i n" "length d = BSIZE"
  shows "replaces i ((bufs s ! i)\<lparr>data := d\<rparr>) s (set_data i d s)"
proof -
  have "blockno (bufs s ! j) \<noteq> blockno (bufs s ! i)"
    if "j < NBUF" "j \<noteq> i" "B_VALID \<in> flags (bufs s ! j)" for j
    using that binv_unique[OF assms(1), of j i] holds_valid[OF assms(1,2)] assms(2)
    by (auto simp: holds_def)
  then show ?thesis
    using assms binvD[OF assms(1)] holds_valid[OF assms(1,2)]
    by (auto simp: replaces_def set_data_def upd_buf_def holds_def buf_ok_def)
qed

lemma set_dirty_replaces:
  assumes "binv s" "holds s i n"
  shows "replaces i (flags_update (insert B_DIRTY) (bufs s ! i)) s
    (upd_buf i (flags_update (insert B_DIRTY)) s)"
proof -
  have "blockno (bufs s ! j) \<noteq> blockno (bufs s ! i)"
    if "j < NBUF" "j \<noteq> i" "B_VALID \<in> flags (bufs s ! j)" for j
    using that binv_unique[OF assms(1), of j i] holds_valid[OF assms(1,2)] assms(2)
    by (auto simp: holds_def)
  then show ?thesis
    using assms binvD[OF assms(1)] holds_valid[OF assms(1,2)]
    by (auto simp: replaces_def upd_buf_def holds_def buf_ok_def)
qed

definition written :: "nat \<Rightarrow> 'a bstate_scheme \<Rightarrow> 'a bstate_scheme" where
  "written i s = (let b = bufs s ! i in
     s\<lparr>memdisk := (memdisk s)[blockno b := data b],
       dwrites := dwrites s @ [(blockno b, data b)],
       bufs := (bufs s)[i := flags_update (\<lambda>f. insert B_VALID (f - {B_DIRTY})) b]\<rparr>)"

lemma bwrite_written:
  assumes "binv s" "holds s i n"
  shows "bwrite i s = Ret () (written i s)"
proof -
  have "(\<lambda>f. insert B_VALID (f - {B_DIRTY})) \<circ> insert B_DIRTY =
      (\<lambda>f. insert B_VALID (f - {B_DIRTY}))"
    by auto
  then show ?thesis
    using assms binvD(1)[OF assms(1)] binvD(4)[OF assms(1), of i] holds_valid[OF assms]
    by (simp add: bwrite_def iderw_def Let_def upd_buf_def holds_def written_def buf_ok_def)
qed

lemma written_replaces:
  assumes "binv s" "holds s i n"
  shows "replaces i (flags_update (\<lambda>f. insert B_VALID (f - {B_DIRTY})) (bufs s ! i)) s
    (written i s)"
proof -
  have "blockno (bufs s ! j) \<noteq> blockno (bufs s ! i)"
    if "j < NBUF" "j \<noteq> i" "B_VALID \<in> flags (bufs s ! j)" for j
    using that binv_unique[OF assms(1), of j i] holds_valid[OF assms(1,2)] assms(2)
    by (auto simp: holds_def)
  then show ?thesis
    using assms binvD[OF assms(1)] binvD(4)[OF assms(1), of i] holds_valid[OF assms(1,2)]
    by (auto simp: replaces_def written_def Let_def holds_def buf_ok_def
        dest: set_update_subset_insert[THEN subsetD])
qed

definition released :: "nat \<Rightarrow> 'a bstate_scheme \<Rightarrow> 'a bstate_scheme" where
  "released i s = s\<lparr>bufs := (bufs s)[i := flags_update (\<lambda>f. f - {B_BUSY}) (bufs s ! i)],
     lru := i # remove1 i (lru s), wakeq := wakeq s @ [ChBuf i]\<rparr>"

lemma brelse_released: "holds s i n \<Longrightarrow> brelse i s = Ret () (released i s)"
  by (simp add: brelse_def holds_def wakeup_def upd_buf_def released_def)

lemma released_replaces:
  assumes "binv s" "holds s i n" "n \<in> dirty s \<or> view s n = memdisk s ! n"
  shows "replaces i (flags_update (\<lambda>f. f - {B_BUSY}) (bufs s ! i)) s (released i s)"
proof -
  note v = holds_valid[OF assms(1,2)]
  have i: "i < NBUF" "blockno (bufs s ! i) = n" using assms(2) by (auto simp: holds_def)
  have u: "blockno (bufs s ! j) \<noteq> blockno (bufs s ! i)"
    if "j < NBUF" "j \<noteq> i" "B_VALID \<in> flags (bufs s ! j)" for j
    using that binv_unique[OF assms(1), of j i] v i by auto
  have "B_DIRTY \<in> flags (bufs s ! i) \<or> data (bufs s ! i) = memdisk s ! n"
  proof (cases "n \<in> dirty s")
    case True
    then show ?thesis
      using flagged_iff[OF binvD(1)[OF assms(1)], of n B_DIRTY] u i
        binv_flag_valid[OF assms(1)] by metis
  next
    case False
    then show ?thesis using assms(3) holds_data[OF assms(1,2)] by simp
  qed
  then show ?thesis
    using assms(1) binvD[OF assms(1)] binvD(4)[OF assms(1) i(1)] v u i
    by (auto simp: replaces_def released_def buf_ok_def set_remove1_eq distinct_remove1)
qed

section \<open>The cache meets its contract\<close>

definition babs :: "'a bstate_scheme \<Rightarrow> 'a cache" where
  "babs s = \<lparr>cdisk = memdisk s, cview = view s, cheld = held s, cdirty = dirty s,
     ctrace = dwrites s, crest = bstate.more s\<rparr>"

lemma replaces_babs:
  assumes R: "replaces i b s s'" and h: "holds s i n" and n: "blockno b = n"
  shows "babs s' = \<lparr>cdisk = memdisk s', cview = (view s)(n := data b),
      cheld = (if B_BUSY \<in> flags b then held s else held s - {n}),
      cdirty = (if B_DIRTY \<in> flags b then insert n (dirty s) else dirty s - {n}),
      ctrace = dwrites s', crest = bstate.more s'\<rparr>"
proof -
  have "n \<in> held s"
    using h flagged_iff[OF replaces_nth(4)[OF R]] by (auto simp: holds_def)
  then show ?thesis
    using replaces_view[OF R] replaces_flagged[OF R] n by (auto simp: babs_def)
qed

lemma holds_dirty:
  assumes "binv s" "holds s i n"
  shows "B_DIRTY \<in> flags (bufs s ! i) \<longleftrightarrow> n \<in> dirty s"
  using flagged_iff[OF binvD(1)[OF assms(1)], of n B_DIRTY] assms(2)
    binv_unique[OF assms(1), of _ i] binv_flag_valid[OF assms(1)] holds_valid[OF assms]
  unfolding holds_def by metis

lemma bread_law:
  assumes inv: "binv s" and get: "can_get NBUF n (babs s)"
  shows "runs (bread 1 n s) (\<lambda>i s'. binv s' \<and> holds s' i n \<and> babs s' = c_get n (babs s) \<and>
      (\<forall>j m. holds s j m \<longrightarrow> holds s' j m))"
proof -
  have "n < length (memdisk s)" "n \<notin> held s" "n \<in> dirty s \<or> card (held s \<union> dirty s) < NBUF"
    using get by (auto simp: can_get_def babs_def)
  from bread_replaces[OF inv this] obtain i b where
    run: "bread 1 n s = Ret i (s\<lparr>bufs := (bufs s)[i := b]\<rparr>)" and
    R: "replaces i b s (s\<lparr>bufs := (bufs s)[i := b]\<rparr>)" and
    b: "B_BUSY \<notin> flags (bufs s ! i)" "blockno b = n" "data b = view s n" "B_BUSY \<in> flags b"
      "B_DIRTY \<in> flags b \<longleftrightarrow> n \<in> dirty s"
    by blast
  let ?s = "s\<lparr>bufs := (bufs s)[i := b]\<rparr>"
  have "babs ?s = c_get n (babs s)"
    using replaces_view[OF R] replaces_flagged[OF R] b by (auto simp: babs_def c_get_def)
  moreover have "holds ?s i n"
    using b replaces_nth[OF R] by (simp add: holds_def)
  moreover have "holds s j m \<Longrightarrow> holds ?s j m" for j m
    using replaces_holds[OF R, of j m] b(1) by (cases "j = i") (auto simp: holds_def)
  ultimately show ?thesis using run replaces_binv[OF R] by simp
qed

lemma replaces_keeps:
  assumes R: "replaces i b s s'" and h: "holds s i n" and b: "blockno b = n" "B_BUSY \<in> flags b"
  shows "holds s j m \<longrightarrow> holds s' j m"
  using replaces_holds[OF R, of j m] replaces_nth[OF R] h b by (cases "j = i") (auto simp: holds_def)

interpretation bc: block_cache binv babs holds "\<lambda>i s. data (bufs s ! i)" "bread 1" set_data
  "\<lambda>i. upd_buf i (flags_update (insert B_DIRTY))" bwrite brelse BSIZE NBUF
proof
  fix s :: "'a bstate_scheme" and i n and d :: block
  assume inv: "binv s"
  show "can_get NBUF n (babs s) \<Longrightarrow> runs (bread 1 n s) (\<lambda>i s'. binv s' \<and> holds s' i n \<and>
      babs s' = c_get n (babs s) \<and> (\<forall>j m. holds s j m \<longrightarrow> holds s' j m))"
    by (rule bread_law[OF inv])
  show "n < length (cdisk (babs s)) \<Longrightarrow> length (cview (babs s) n) = BSIZE"
    using view_uncached[of s n] view_valid[OF inv] binvD[OF inv] binvD(4)[OF inv]
    unfolding babs_def buf_ok_def by simp (metis nth_mem)
  show "n < length (cdisk (babs s)) \<Longrightarrow> n \<notin> cheld (babs s) \<Longrightarrow> can_rel n (babs s)"
    using view_uncached[of s n] view_valid[OF inv] binvD(1,2)[OF inv] binvD(4)[OF inv]
      flagged_iff[of s n]
    unfolding babs_def can_rel_def buf_ok_def by simp metis
  assume h: "holds s i n"
  note v = holds_valid[OF inv h] and hd = holds_dirty[OF inv h] and hdat = holds_data[OF inv h]
  have at_i: "blockno (bufs s ! i) = n" "B_BUSY \<in> flags (bufs s ! i)" "i < NBUF"
    using h by (auto simp: holds_def)
  show "data (bufs s ! i) = cview (babs s) n" using hdat by (simp add: babs_def)
  show "n \<in> cheld (babs s) \<and> n < length (cdisk (babs s))"
    using at_i v binvD(4)[OF inv at_i(3)] flagged_iff[OF binvD(1)[OF inv]]
    by (auto simp: babs_def buf_ok_def)
  { assume len: "length d = BSIZE"
    note R = set_data_replaces[OF inv h len]
    have "babs (set_data i d s) = c_put n d (babs s)"
      using replaces_babs[OF R h] at_i hd
      by (auto simp: babs_def c_put_def set_data_def upd_buf_def)
    then show "binv (set_data i d s) \<and> babs (set_data i d s) = c_put n d (babs s) \<and>
        (\<forall>j m. holds s j m \<longrightarrow> holds (set_data i d s) j m)"
      using replaces_binv[OF R] replaces_keeps[OF R h] at_i by simp }
  let ?m = "upd_buf i (flags_update (insert B_DIRTY)) s"
  note R = set_dirty_replaces[OF inv h]
  have "babs ?m = c_mark n (babs s)"
    using replaces_babs[OF R h] at_i hdat by (auto simp: babs_def c_mark_def upd_buf_def)
  then show "binv ?m \<and> babs ?m = c_mark n (babs s) \<and> (\<forall>j m. holds s j m \<longrightarrow> holds ?m j m)"
    using replaces_binv[OF R] replaces_keeps[OF R h] at_i by simp
  note R = written_replaces[OF inv h]
  have "babs (written i s) = c_write n (babs s)"
    using replaces_babs[OF R h] at_i hdat by (auto simp: babs_def c_write_def written_def Let_def)
  then show "runs (bwrite i s) (\<lambda>_ s'. binv s' \<and> babs s' = c_write n (babs s) \<and>
      (\<forall>j m. holds s j m \<longrightarrow> holds s' j m))"
    using replaces_binv[OF R] replaces_keeps[OF R h] at_i bwrite_written[OF inv h] by simp
  { assume "can_rel n (babs s)"
    then have c: "n \<in> dirty s \<or> view s n = memdisk s ! n" by (simp add: can_rel_def babs_def)
    note R = released_replaces[OF inv h c]
    have "babs (released i s) = c_rel n (babs s)"
      using replaces_babs[OF R h] at_i hdat hd by (auto simp: babs_def c_rel_def released_def)
    moreover have "\<forall>j m. holds s j m \<and> m \<noteq> n \<longrightarrow> holds (released i s) j m"
      using replaces_holds[OF R] at_i by (auto simp: holds_def)
    ultimately show "runs (brelse i s) (\<lambda>_ s'. binv s' \<and> babs s' = c_rel n (babs s) \<and>
        (\<forall>j m. holds s j m \<and> m \<noteq> n \<longrightarrow> holds s' j m))"
      using replaces_binv[OF R] brelse_released[OF h] by simp }
qed

end
