(* ===== verification/Fs_Layout.thy ===== *)
theory Fs_Layout
  imports Bio
begin

text \<open>
  The on-disk format of \<^verbatim>\<open>include/fs.h\<close> and \<^verbatim>\<open>include/stat.h\<close>: the superblock, the
  inode and the directory entry as records with their little-endian layouts, the
  macros that locate an inode or a free-map bit, and the interpretations of
  \<open>codec\<close> that let the file system treat a block as an array of these structs.
\<close>

section \<open>Constants and structures\<close>

definition ROOTINO :: nat where "ROOTINO = 1"
definition NDIRECT :: nat where "NDIRECT = 10"
definition NINDIRECT :: nat where "NINDIRECT = BSIZE div 4"
definition MAXFILE :: nat where "MAXFILE = NDIRECT + NINDIRECT"
definition IPB :: nat where "IPB = BSIZE div 64"
definition IBLOCK :: "nat \<Rightarrow> nat" where "IBLOCK i = i div IPB + 2"
definition BPB :: nat where "BPB = BSIZE * 8"
definition BBLOCK :: "nat \<Rightarrow> nat \<Rightarrow> nat" where "BBLOCK b ninodes = b div BPB + ninodes div IPB + 3"
definition DIRSIZ :: nat where "DIRSIZ = 14"

definition T_DIR :: ushort where "T_DIR = 1"
definition T_FILE :: ushort where "T_FILE = 2"
definition T_DEV :: ushort where "T_DEV = 3"

lemmas fs_consts = ROOTINO_def NDIRECT_def NINDIRECT_def MAXFILE_def IPB_def BPB_def DIRSIZ_def
  BSIZE_def

record superblock =
  sb_size :: uint
  sb_nblocks :: uint
  sb_ninodes :: uint
  sb_nlog :: uint

record dinode =
  di_type :: ushort
  di_major :: ushort
  di_minor :: ushort
  di_nlink :: ushort
  di_ownerid :: ushort
  di_groupid :: ushort
  di_mode :: uint
  di_size :: uint
  di_addrs :: "uint list"

record dirent =
  de_inum :: ushort
  de_name :: "uchar list"

section \<open>Layouts\<close>

definition enc_superblock :: "superblock \<Rightarrow> uchar list" where
  "enc_superblock sb = le32 (sb_size sb) @ le32 (sb_nblocks sb) @ le32 (sb_ninodes sb) @
     le32 (sb_nlog sb)"

definition dec_superblock :: "uchar list \<Rightarrow> superblock" where
  "dec_superblock bs =
     \<lparr>sb_size = unle32 (chunk 0 4 bs), sb_nblocks = unle32 (chunk 4 4 bs),
      sb_ninodes = unle32 (chunk 8 4 bs), sb_nlog = unle32 (chunk 12 4 bs)\<rparr>"

definition enc_dinode :: "dinode \<Rightarrow> uchar list" where
  "enc_dinode di =
     le16 (di_type di) @ le16 (di_major di) @ le16 (di_minor di) @ le16 (di_nlink di) @
     le16 (di_ownerid di) @ le16 (di_groupid di) @ le32 (di_mode di) @ le32 (di_size di) @
     concat (map le32 (di_addrs di))"

definition dec_dinode :: "uchar list \<Rightarrow> dinode" where
  "dec_dinode bs =
     \<lparr>di_type = unle16 (chunk 0 2 bs), di_major = unle16 (chunk 2 2 bs),
      di_minor = unle16 (chunk 4 2 bs), di_nlink = unle16 (chunk 6 2 bs),
      di_ownerid = unle16 (chunk 8 2 bs), di_groupid = unle16 (chunk 10 2 bs),
      di_mode = unle32 (chunk 12 4 bs), di_size = unle32 (chunk 16 4 bs),
      di_addrs = map (\<lambda>k. unle32 (chunk (20 + 4 * k) 4 bs)) [0..<NDIRECT + 1]\<rparr>"

definition enc_dirent :: "dirent \<Rightarrow> uchar list" where
  "enc_dirent de = le16 (de_inum de) @ de_name de"

definition dec_dirent :: "uchar list \<Rightarrow> dirent" where
  "dec_dirent bs = \<lparr>de_inum = unle16 (chunk 0 2 bs), de_name = chunk 2 DIRSIZ bs\<rparr>"

definition wf_dinode :: "dinode \<Rightarrow> bool" where
  "wf_dinode di \<longleftrightarrow> length (di_addrs di) = NDIRECT + 1"

definition wf_dirent :: "dirent \<Rightarrow> bool" where
  "wf_dirent de \<longleftrightarrow> length (de_name de) = DIRSIZ"

section \<open>Round trips\<close>

lemma chunk_append1: "off + n \<le> length xs \<Longrightarrow> chunk off n (xs @ ys) = chunk off n xs"
  by (simp add: chunk_def)

lemma chunk_append2: "length xs \<le> off \<Longrightarrow> chunk off n (xs @ ys) = chunk (off - length xs) n ys"
  by (simp add: chunk_def)

lemma chunk_whole: "length xs = n \<Longrightarrow> chunk 0 n xs = xs"
  by (simp add: chunk_def)

lemmas chunk_simps = chunk_append1 chunk_append2 chunk_whole

lemma length_concat_le32 [simp]: "length (concat (map le32 xs)) = 4 * length xs"
  by (induction xs) simp_all

lemma chunk_concat_le32:
  "k < length xs \<Longrightarrow> chunk (4 * k) 4 (concat (map le32 xs)) = le32 (xs ! k)"
proof (induction xs arbitrary: k)
  case (Cons x xs)
  then show ?case by (cases k) (simp_all add: chunk_simps)
qed simp

lemma length_enc_dinode: "wf_dinode di \<Longrightarrow> length (enc_dinode di) = 64"
  by (simp add: wf_dinode_def enc_dinode_def NDIRECT_def)

lemma dec_enc_dinode:
  assumes "wf_dinode di"
  shows "dec_dinode (enc_dinode di) = di"
proof -
  have "map (\<lambda>k. unle32 (chunk (20 + 4 * k) 4 (enc_dinode di))) [0..<NDIRECT + 1] =
      map (\<lambda>k. di_addrs di ! k) [0..<NDIRECT + 1]"
    using assms by (intro map_cong refl)
      (auto simp: enc_dinode_def chunk_append2 chunk_concat_le32 wf_dinode_def)
  also have "\<dots> = di_addrs di"
    using assms by (metis map_nth wf_dinode_def)
  finally show ?thesis
    by (cases di) (simp add: dec_dinode_def, simp add: enc_dinode_def chunk_simps)
qed

interpretation sb: codec enc_superblock dec_superblock 16 "\<lambda>_. True"
  by unfold_locales (simp_all add: enc_superblock_def dec_superblock_def chunk_simps)

interpretation di: codec enc_dinode dec_dinode 64 wf_dinode
  by unfold_locales (simp_all add: length_enc_dinode dec_enc_dinode,
    simp add: wf_dinode_def dec_dinode_def)

interpretation de: codec enc_dirent dec_dirent 16 wf_dirent
  by unfold_locales
    (simp_all add: enc_dirent_def dec_dirent_def wf_dirent_def chunk_simps DIRSIZ_def)

lemmas [slot_laws] = di.length_put_slot di.get_put_same di.get_put_other di.wf_get_slot

end
