(* ===== verification/Log.thy ===== *)
theory Log
  imports Fs_Layout
begin

text \<open>
  The write-ahead log (\<^verbatim>\<open>kernel/log.c\<close>), with \<open>readsb\<close> of \<^verbatim>\<open>kernel/fs.c\<close>, which
  \<open>initlog\<close> calls. The log lives in the state as \<open>struct log\<close> does in the kernel; the
  on-disk header is the block of 32-bit integers that \<open>read_head\<close> and \<open>write_head\<close>
  cast it to. \<open>log.lock\<close> delimits the atomic steps; \<open>begin_op\<close> that has to wait is
  \<open>Sleep\<close> and is run again when \<open>&log\<close> is woken. A header on disk that says more
  than \<open>LOGSIZE\<close> blocks makes \<open>read_head\<close> write outside \<open>log.lh.block\<close>: \<open>Fault\<close>.
\<close>

section \<open>State\<close>

definition MAXOPBLOCKS :: nat where "MAXOPBLOCKS = 10"
definition LOGSIZE :: nat where "LOGSIZE = MAXOPBLOCKS * 3"

record logheader =
  lh_n :: nat
  lh_block :: "nat list"

record logst =
  lstart :: nat
  lsize :: nat
  outstanding :: int
  committing :: bool
  ldev :: uint
  lh :: logheader

record lstate = bstate +
  log :: logst

section \<open>The log header on disk\<close>

definition head_n :: "block \<Rightarrow> nat" where
  "head_n d = nat (sint (get_slot unle32 4 0 d))"

definition head_block :: "block \<Rightarrow> nat \<Rightarrow> nat" where
  "head_block d i = unat (get_slot unle32 4 (Suc i) d)"

definition put_head :: "logheader \<Rightarrow> block \<Rightarrow> block" where
  "put_head h d =
     foldl (\<lambda>d i. put_slot le32 4 (Suc i) (of_nat (lh_block h ! i)) d)
       (put_slot le32 4 0 (of_nat (lh_n h)) d) [0..<lh_n h]"

section \<open>Operations\<close>

definition readsb :: "uint \<Rightarrow> 'a bstate_scheme \<Rightarrow> (superblock, 'a bstate_scheme) outcome" where
  "readsb d s =
     obind (bread d 1 s) (\<lambda>bp s.
       obind (brelse bp s) (\<lambda>_ s'. Ret (dec_superblock (chunk 0 16 (data (bufs s ! bp)))) s'))"

definition install_one :: "nat \<Rightarrow> 'a lstate_scheme \<Rightarrow> (unit, 'a lstate_scheme) outcome" where
  "install_one tail s =
     obind (bread (ldev (log s)) (lstart (log s) + tail + 1) s) (\<lambda>lbuf s.
     obind (bread (ldev (log s)) (lh_block (lh (log s)) ! tail) s) (\<lambda>dbuf s.
     obind (bwrite dbuf (set_data dbuf (data (bufs s ! lbuf)) s)) (\<lambda>_ s.
     obind (brelse lbuf s) (\<lambda>_ s. brelse dbuf s))))"

definition install_trans :: "'a lstate_scheme \<Rightarrow> (unit, 'a lstate_scheme) outcome" where
  "install_trans s = ofor [0..<lh_n (lh (log s))] install_one s"

definition read_head :: "'a lstate_scheme \<Rightarrow> (unit, 'a lstate_scheme) outcome" where
  "read_head s =
     obind (bread (ldev (log s)) (lstart (log s)) s) (\<lambda>i s.
       let d = data (bufs s ! i); n = head_n d in
       if LOGSIZE < n then Fault
       else brelse i (s\<lparr>log := (log s)\<lparr>lh :=
              \<lparr>lh_n = n, lh_block = map (head_block d) [0..<n] @ drop n (lh_block (lh (log s)))\<rparr>\<rparr>\<rparr>))"

definition write_head :: "'a lstate_scheme \<Rightarrow> (unit, 'a lstate_scheme) outcome" where
  "write_head s =
     obind (bread (ldev (log s)) (lstart (log s)) s) (\<lambda>i s.
     obind (bwrite i (set_data i (put_head (lh (log s)) (data (bufs s ! i))) s)) (\<lambda>_ s.
     brelse i s))"

definition set_lh_n :: "nat \<Rightarrow> 'a lstate_scheme \<Rightarrow> 'a lstate_scheme" where
  "set_lh_n n s = s\<lparr>log := (log s)\<lparr>lh := (lh (log s))\<lparr>lh_n := n\<rparr>\<rparr>\<rparr>"

definition recover_from_log :: "'a lstate_scheme \<Rightarrow> (unit, 'a lstate_scheme) outcome" where
  "recover_from_log s =
     obind (read_head s) (\<lambda>_ s.
     obind (install_trans s) (\<lambda>_ s.
     write_head (set_lh_n 0 s)))"

definition initlog :: "'a lstate_scheme \<Rightarrow> (unit, 'a lstate_scheme) outcome" where
  "initlog s =
     (if BSIZE \<le> 4 + 4 * LOGSIZE then Panic ''initlog: too big logheader''
      else obind (readsb 1 s) (\<lambda>sb s.
        recover_from_log (s\<lparr>log := (log s)\<lparr>lstart := unat (sb_size sb - sb_nlog sb),
          lsize := unat (sb_nlog sb), ldev := 1\<rparr>\<rparr>)))"

definition begin_op :: "'a lstate_scheme \<Rightarrow> (unit, 'a lstate_scheme) outcome" where
  "begin_op s =
     (if committing (log s) then Sleep ChLog s
      else if int (lh_n (lh (log s))) + (outstanding (log s) + 1) * int MAXOPBLOCKS > int LOGSIZE
      then Sleep ChLog s
      else Ret () (s\<lparr>log := (log s)\<lparr>outstanding := outstanding (log s) + 1\<rparr>\<rparr>))"

definition write_log_one :: "nat \<Rightarrow> 'a lstate_scheme \<Rightarrow> (unit, 'a lstate_scheme) outcome" where
  "write_log_one tail s =
     obind (bread (ldev (log s)) (lstart (log s) + tail + 1) s) (\<lambda>to s.
     obind (bread (ldev (log s)) (lh_block (lh (log s)) ! tail) s) (\<lambda>from s.
     obind (bwrite to (set_data to (data (bufs s ! from)) s)) (\<lambda>_ s.
     obind (brelse from s) (\<lambda>_ s. brelse to s))))"

definition write_log :: "'a lstate_scheme \<Rightarrow> (unit, 'a lstate_scheme) outcome" where
  "write_log s = ofor [0..<lh_n (lh (log s))] write_log_one s"

definition commit :: "'a lstate_scheme \<Rightarrow> (unit, 'a lstate_scheme) outcome" where
  "commit s =
     (if lh_n (lh (log s)) > 0 then
        obind (write_log s) (\<lambda>_ s.
        obind (write_head s) (\<lambda>_ s.
        obind (install_trans s) (\<lambda>_ s.
        write_head (set_lh_n 0 s))))
      else Ret () s)"

definition end_op :: "'a lstate_scheme \<Rightarrow> (unit, 'a lstate_scheme) outcome" where
  "end_op s =
     (let s = s\<lparr>log := (log s)\<lparr>outstanding := outstanding (log s) - 1\<rparr>\<rparr> in
      if committing (log s) then Panic ''log.committing''
      else if outstanding (log s) = 0 then
        obind (commit (s\<lparr>log := (log s)\<lparr>committing := True\<rparr>\<rparr>)) (\<lambda>_ s.
          Ret () (wakeup ChLog (s\<lparr>log := (log s)\<lparr>committing := False\<rparr>\<rparr>)))
      else Ret () (wakeup ChLog s))"

text \<open>The index at which \<open>log_write\<close>'s absorption loop stops.\<close>

definition log_slot :: "logheader \<Rightarrow> nat \<Rightarrow> nat" where
  "log_slot h n = (case find_idx (\<lambda>b. b = n) (take (lh_n h) (lh_block h)) of
     Some i \<Rightarrow> i | None \<Rightarrow> lh_n h)"

definition log_write :: "nat \<Rightarrow> 'a lstate_scheme \<Rightarrow> (unit, 'a lstate_scheme) outcome" where
  "log_write b s =
     (let h = lh (log s) in
      if LOGSIZE \<le> lh_n h \<or> lsize (log s) \<le> lh_n h + 1 then Panic ''too big a transaction''
      else if outstanding (log s) < 1 then Panic ''log_write outside of trans''
      else
        let bn = blockno (bufs s ! b); i = log_slot h bn;
            h' = \<lparr>lh_n = (if i = lh_n h then lh_n h + 1 else lh_n h),
                  lh_block = (lh_block h)[i := bn]\<rparr>
        in Ret () (upd_buf b (flags_update (insert B_DIRTY)) (s\<lparr>log := (log s)\<lparr>lh := h'\<rparr>\<rparr>)))"

section \<open>The header round trip\<close>

lemma sint_of_nat: "n < 2 ^ 31 \<Longrightarrow> sint (of_nat n :: uint) = int n"
  by (simp add: signed_of_nat signed_take_bit_int_eq_self)

lemma unat_of_nat32: "n < 2 ^ 32 \<Longrightarrow> unat (of_nat n :: uint) = n"
  by (simp add: unsigned_of_nat take_bit_nat_eq_self)

lemma foldl_put_slot:
  "4 * (k + 1) \<le> length d \<Longrightarrow>
   length (foldl (\<lambda>d i. put_slot le32 4 (Suc i) (f i) d) d [0..<k]) = length d \<and>
   (\<forall>j \<le> k. get_slot unle32 4 j (foldl (\<lambda>d i. put_slot le32 4 (Suc i) (f i) d) d [0..<k]) =
      (case j of 0 \<Rightarrow> get_slot unle32 4 0 d | Suc i \<Rightarrow> f i))"
proof (induction k)
  case (Suc k)
  let ?d = "foldl (\<lambda>d i. put_slot le32 4 (Suc i) (f i) d) d [0..<k]"
  have len: "length ?d = length d" and
    get: "\<And>j. j \<le> k \<Longrightarrow> get_slot unle32 4 j ?d = (case j of 0 \<Rightarrow> get_slot unle32 4 0 d | Suc i \<Rightarrow> f i)"
    using Suc by auto
  have same: "get_slot unle32 4 (Suc k) (put_slot le32 4 (Suc k) (f k) ?d) = f k"
    using Suc.prems len by (intro u32.get_put_same) auto
  have other: "get_slot unle32 4 j (put_slot le32 4 (Suc k) (f k) ?d) = get_slot unle32 4 j ?d"
    if "j \<le> k" for j
    using Suc.prems len that by (intro u32.get_put_other) auto
  have "length (put_slot le32 4 (Suc k) (f k) ?d) = length d"
    using Suc.prems len by (simp add: u32.length_put_slot)
  then show ?case using same other get by (auto simp: le_Suc_eq)
qed simp

lemma put_head_laws:
  assumes "lh_n h \<le> LOGSIZE" "length d = BSIZE"
  shows "length (put_head h d) = BSIZE"
    and "head_n (put_head h d) = lh_n h"
    and "i < lh_n h \<Longrightarrow> lh_block h ! i < 2 ^ 32 \<Longrightarrow> head_block (put_head h d) i = lh_block h ! i"
proof -
  let ?d = "put_slot le32 4 0 (of_nat (lh_n h)) d"
  have len: "length ?d = BSIZE"
    using assms by (simp add: u32.length_put_slot BSIZE_def)
  have room: "4 * (lh_n h + 1) \<le> length ?d"
    using assms len by (simp add: LOGSIZE_def MAXOPBLOCKS_def BSIZE_def)
  note F = foldl_put_slot[OF room, THEN conjunct1] foldl_put_slot[OF room, THEN conjunct2, rule_format]
  show "length (put_head h d) = BSIZE" using F(1) len by (simp add: put_head_def)
  have "get_slot unle32 4 0 (put_head h d) = of_nat (lh_n h)"
    using F(2)[of 0] assms u32.get_put_same[where i = 0 and blk = d and x = "of_nat (lh_n h)"]
    by (simp add: put_head_def BSIZE_def)
  then show "head_n (put_head h d) = lh_n h"
    using assms by (simp add: head_n_def sint_of_nat LOGSIZE_def MAXOPBLOCKS_def)
  show "head_block (put_head h d) i = lh_block h ! i" if "i < lh_n h" "lh_block h ! i < 2 ^ 32"
    using F(2)[of "Suc i"] that
    by (simp add: put_head_def head_block_def unat_of_nat32)
qed

section \<open>Operations leave the log record alone\<close>

lemma more_log: "bstate.more s' = bstate.more s \<Longrightarrow> log s' = log s"
  by (cases s; cases s') simp

lemma upd_buf_more [simp]: "bstate.more (upd_buf i f s) = bstate.more s"
  by (simp add: upd_buf_def)

lemma bread_more: "bread d n s = Ret i s' \<Longrightarrow> bstate.more s' = bstate.more s"
  by (auto simp: bread_def bget_def iderw_def Let_def obind_Ret_iff split: option.splits if_splits)

lemma obind_cong:
  "m = m' \<Longrightarrow> (\<And>a s. m' = Ret a s \<Longrightarrow> f a s = g a s) \<Longrightarrow> obind m f = obind m' g"
  by (cases m') auto

lemma write_log_one_eq:
  assumes "ldev (log s) = 1"
  shows "write_log_one tail s =
     obind (bread 1 (lstart (log s) + tail + 1) s) (\<lambda>to s'.
     obind (bread 1 (lh_block (lh (log s)) ! tail) s') (\<lambda>from s.
     obind (bwrite to (set_data to (data (bufs s ! from)) s)) (\<lambda>_ s.
     obind (brelse from s) (\<lambda>_ s. brelse to s))))"
  unfolding write_log_one_def assms
  by (intro obind_cong refl) (use assms in \<open>auto dest!: bread_more more_log\<close>)

lemma install_one_eq:
  assumes "ldev (log s) = 1"
  shows "install_one tail s =
     obind (bread 1 (lstart (log s) + tail + 1) s) (\<lambda>lbuf s'.
     obind (bread 1 (lh_block (lh (log s)) ! tail) s') (\<lambda>dbuf s.
     obind (bwrite dbuf (set_data dbuf (data (bufs s ! lbuf)) s)) (\<lambda>_ s.
     obind (brelse lbuf s) (\<lambda>_ s. brelse dbuf s))))"
  unfolding install_one_def assms
  by (intro obind_cong refl) (use assms in \<open>auto dest!: bread_more more_log\<close>)

lemma write_head_eq:
  assumes "ldev (log s) = 1"
  shows "write_head s =
     obind (bread 1 (lstart (log s)) s) (\<lambda>i t.
     obind (bwrite i (set_data i (put_head (lh (log s)) (data (bufs t ! i))) t)) (\<lambda>_ s.
     brelse i s))"
  unfolding write_head_def assms
  by (intro obind_cong refl) (use assms in \<open>auto dest!: bread_more more_log\<close>)

section \<open>What the loops write\<close>

abbreviation logged_block :: "'a lstate_scheme \<Rightarrow> nat \<Rightarrow> nat" where
  "logged_block s i \<equiv> lh_block (lh (log s)) ! i"

definition log_copies :: "'a lstate_scheme \<Rightarrow> nat \<Rightarrow> (nat \<times> block) list" where
  "log_copies s n = map (\<lambda>i. (lstart (log s) + i + 1, view s (logged_block s i))) [0..<n]"

definition installs :: "'a lstate_scheme \<Rightarrow> nat \<Rightarrow> (nat \<times> block) list" where
  "installs s n = map (\<lambda>i. (logged_block s i, view s (lstart (log s) + i + 1))) [0..<n]"

text \<open>
  The header names blocks that exist and lie outside the log, and the cache can
  hold what the copying loops need.
\<close>

definition header_ok :: "'a lstate_scheme \<Rightarrow> bool" where
  "header_ok s \<longleftrightarrow>
     binv s \<and> ldev (log s) = 1 \<and> held s = {} \<and> card (dirty s) < NBUF \<and>
     lstart (log s) + lh_n (lh (log s)) < length (memdisk s) \<and>
     (\<forall>i < lh_n (lh (log s)). logged_block s i < length (memdisk s) \<and>
        (logged_block s i < lstart (log s) \<or>
         lstart (log s) + lh_n (lh (log s)) < logged_block s i))"

lemma fst_log_copies: "fst ` set (log_copies s n) = {lstart (log s) + 1 ..< lstart (log s) + 1 + n}"
proof -
  have "fst ` set (log_copies s n) = (\<lambda>i. i + (lstart (log s) + 1)) ` {0..<n}"
    by (simp add: log_copies_def image_image add.commute)
  then show ?thesis by (simp only: image_add_atLeastLessThan') (simp add: add.commute)
qed

lemma fst_installs: "fst ` set (installs s n) = logged_block s ` {..<n}"
  by (simp add: installs_def image_image atLeast0LessThan)

lemma babs_simps [simp]:
  "cdisk (babs s) = memdisk s" "cview (babs s) = view s" "cheld (babs s) = held s"
  "cdirty (babs s) = dirty s" "ctrace (babs s) = dwrites s" "crest (babs s) = bstate.more s"
  by (simp_all add: babs_def)

lemma babs_log: "babs s' = c_store W (babs s) \<Longrightarrow> log s' = log s"
  by (rule more_log) (metis babs_simps(6) c_store_fields(5))

lemma header_out:
  "header_ok s \<Longrightarrow> i < lh_n (lh (log s)) \<Longrightarrow> j \<le> lh_n (lh (log s)) \<Longrightarrow>
   lstart (log s) + j \<noteq> logged_block s i"
  unfolding header_ok_def by fastforce

lemma card_Diff_less: "finite A \<Longrightarrow> card A < n \<Longrightarrow> card (A - B) < n"
  using card_mono[of A "A - B"] by auto

lemma card_insert_less: "finite A \<Longrightarrow> card A + 1 < n \<Longrightarrow> card (insert x (A - B)) < n"
  using card_mono[of A "A - B"] card_insert_if[of "A - B" x] by auto

lemma write_log_runs:
  assumes ok: "header_ok s" and pinned: "\<forall>i < lh_n (lh (log s)). logged_block s i \<in> dirty s"
  shows "runs (write_log s) (\<lambda>_ s'. binv s' \<and>
    babs s' = c_store (log_copies s (lh_n (lh (log s)))) (babs s))"
  unfolding write_log_def
proof (rule runs_ofor)
  let ?n = "lh_n (lh (log s))" and ?st = "lstart (log s)"
  show "binv s \<and> babs s = c_store (log_copies s 0) (babs s)"
    using ok by (simp add: header_ok_def log_copies_def)
  fix k s1 assume k: "k < ?n" and I: "binv s1 \<and> babs s1 = c_store (log_copies s k) (babs s)"
  have l: "log s1 = log s" using I babs_log by blast
  have out: "logged_block s k \<notin> fst ` set (log_copies s k)" "logged_block s k \<noteq> ?st + k + 1"
    using ok k unfolding header_ok_def fst_log_copies by (auto dest!: spec[of _ k])
  have g1: "can_get NBUF (?st + k + 1) (babs s1)"
    using ok k I card_Diff_less[of "dirty s" NBUF] by (simp add: can_get_def header_ok_def)
  have g2: "can_get NBUF (logged_block s k) (c_get (?st + k + 1) (babs s1))"
    using ok k I out pinned by (simp add: can_get_def header_ok_def c_get_def)
  have "cview (babs s1) (logged_block s k) = view s (logged_block s k)"
    using I out by (simp add: cview_store_other)
  then show "runs (write_log_one k s1) (\<lambda>_ s'. binv s' \<and>
      babs s' = c_store (log_copies s (Suc k)) (babs s))"
    using bc.copy_block[OF _ g1 g2] I ok l
    by (simp add: write_log_one_eq header_ok_def log_copies_def c_store_snoc)
qed

lemma install_trans_runs:
  assumes ok: "header_ok s"
    and pinned: "\<And>k. k < lh_n (lh (log s)) \<Longrightarrow>
      logged_block s k \<in> dirty s - logged_block s ` {..<k} \<or> card (dirty s) + 1 < NBUF"
  shows "runs (install_trans s) (\<lambda>_ s'. binv s' \<and>
    babs s' = c_store (installs s (lh_n (lh (log s)))) (babs s))"
  unfolding install_trans_def
proof (rule runs_ofor)
  let ?n = "lh_n (lh (log s))" and ?st = "lstart (log s)"
  show "binv s \<and> babs s = c_store (installs s 0) (babs s)"
    using ok by (simp add: header_ok_def installs_def)
  fix k s1 assume k: "k < ?n" and I: "binv s1 \<and> babs s1 = c_store (installs s k) (babs s)"
  have l: "log s1 = log s" using I babs_log by blast
  have ne: "?st + k + 1 \<noteq> logged_block s i" if "i < ?n" for i
    using header_out[OF ok that, of "Suc k"] k by simp
  then have out: "?st + k + 1 \<notin> fst ` set (installs s k)" "logged_block s k \<noteq> ?st + k + 1"
    using k by (auto simp: fst_installs simp del: add_Suc_right) (metis less_trans)+
  have g1: "can_get NBUF (?st + k + 1) (babs s1)"
    using ok k I card_Diff_less[of "dirty s" NBUF] by (simp add: can_get_def header_ok_def)
  have "card (insert (?st + k + 1) (dirty s - logged_block s ` {..<k})) < NBUF"
    if "card (dirty s) + 1 < NBUF"
    using that by (rule card_insert_less[OF finite_flagged])
  then have g2: "can_get NBUF (logged_block s k) (c_get (?st + k + 1) (babs s1))"
    using ok k I out pinned[OF k] by (auto simp: can_get_def header_ok_def c_get_def fst_installs)
  have "cview (babs s1) (?st + k + 1) = view s (?st + k + 1)"
    using I out by (simp add: cview_store_other)
  then show "runs (install_one k s1) (\<lambda>_ s'. binv s' \<and>
      babs s' = c_store (installs s (Suc k)) (babs s))"
    using bc.copy_block'[OF _ g1 g2] I ok l
    by (simp add: install_one_eq header_ok_def installs_def c_store_snoc)
qed

lemma write_head_runs:
  assumes "binv s" "ldev (log s) = 1" "held s = {}" "card (dirty s) < NBUF"
    "lstart (log s) < length (memdisk s)" "lh_n (lh (log s)) \<le> LOGSIZE"
  shows "runs (write_head s) (\<lambda>_ s'. binv s' \<and>
    babs s' = c_store [(lstart (log s), put_head (lh (log s)) (view s (lstart (log s))))] (babs s))"
proof -
  have g: "can_get NBUF (lstart (log s)) (babs s)"
    using assms by (simp add: can_get_def)
  have "length (put_head (lh (log s)) (cview (babs s) (lstart (log s)))) = BSIZE"
    using put_head_laws(1)[OF assms(6)] bc.size_law[OF assms(1)] assms(5) by simp
  from bc.rewrite_block[where f = "put_head (lh (log s))", OF assms(1) g this] show ?thesis
    using assms(2) by (simp add: write_head_eq c_store_def)
qed

text \<open>
  The disk writes of a commit, in order: the log copies, the header that commits them,
  the installs, the header that empties the log.
\<close>

definition commit_writes :: "'a lstate_scheme \<Rightarrow> (nat \<times> block) list" where
  "commit_writes s =
     (let h = lh (log s); st = lstart (log s); d1 = put_head h (view s st) in
      if lh_n h = 0 then []
      else log_copies s (lh_n h) @ [(st, d1)] @
        map (\<lambda>i. (logged_block s i, view s (logged_block s i))) [0..<lh_n h] @
        [(st, put_head (h\<lparr>lh_n := 0\<rparr>) d1)])"

text \<open>
  Well-formedness of the log between operations: the logged blocks are exactly the
  pinned ones, each once, outside the log area; the header on disk is empty.
\<close>

definition linv :: "'a lstate_scheme \<Rightarrow> bool" where
  "linv s \<longleftrightarrow>
     (let h = lh (log s) in
      binv s \<and> ldev (log s) = 1 \<and> length (lh_block h) = LOGSIZE \<and>
      lh_n h \<le> LOGSIZE \<and> lh_n h < lsize (log s) \<and> lsize (log s) \<le> NBUF \<and>
      lstart (log s) + lsize (log s) \<le> length (memdisk s) \<and> length (memdisk s) \<le> 2 ^ 32 \<and>
      distinct (take (lh_n h) (lh_block h)) \<and> set (take (lh_n h) (lh_block h)) = dirty s \<and>
      (\<forall>b \<in> dirty s. b < lstart (log s) \<or> lstart (log s) + lsize (log s) \<le> b) \<and>
      head_n (memdisk s ! lstart (log s)) = 0)"

lemma dirty_on_disk: "binv s \<Longrightarrow> n \<in> dirty s \<Longrightarrow> n < length (memdisk s)"
  using flagged_iff[OF binvD(1), of s n B_DIRTY] binvD(4)[of s] binv_flag_valid[of s]
  by (fastforce simp: buf_ok_def)

lemma linv_logged:
  assumes "linv s" "i < lh_n (lh (log s))"
  shows "logged_block s i \<in> dirty s"
proof -
  have "logged_block s i = take (lh_n (lh (log s))) (lh_block (lh (log s))) ! i"
    using assms by simp
  also have "\<dots> \<in> set (take (lh_n (lh (log s))) (lh_block (lh (log s))))"
    using assms by (intro nth_mem) (simp add: linv_def Let_def)
  finally show ?thesis using assms by (simp add: linv_def Let_def)
qed

lemma linv_card: "linv s \<Longrightarrow> card (dirty s) = lh_n (lh (log s))"
  unfolding linv_def Let_def by (metis distinct_card length_take min.absorb2)

lemma linv_header_ok:
  assumes "linv s" "held s = {}"
  shows "header_ok s"
  unfolding header_ok_def
  using assms linv_logged[OF assms(1)] linv_card[OF assms(1)] dirty_on_disk[of s]
  by (fastforce simp: linv_def Let_def)

lemma linv_inj:
  "linv s \<Longrightarrow> i < lh_n (lh (log s)) \<Longrightarrow> j < lh_n (lh (log s)) \<Longrightarrow> logged_block s i = logged_block s j \<Longrightarrow> i = j"
  using nth_eq_iff_index_eq[of "take (lh_n (lh (log s))) (lh_block (lh (log s)))" i j]
  by (simp add: linv_def Let_def)

section \<open>Commit\<close>

lemma babs_set_lh: "babs (s\<lparr>log := l\<rparr>) = (babs s)\<lparr>crest := bstate.more (s\<lparr>log := l\<rparr>)\<rparr>"
  by (auto simp: babs_def view_def flagged_def fun_eq_iff split: option.splits)

lemma binv_set_log [simp]: "binv (s\<lparr>log := l\<rparr>) = binv s"
  by (simp add: binv_def)

lemma holds_set_log [simp]: "holds (s\<lparr>log := l\<rparr>) i n = holds s i n"
  by (simp add: holds_def)

lemma flagged_set_log [simp]: "flagged F (s\<lparr>log := l\<rparr>) = flagged F s"
  by (simp add: flagged_def)

lemma view_set_log [simp]: "view (s\<lparr>log := l\<rparr>) = view s"
  by (auto simp: view_def fun_eq_iff split: option.splits)

lemma fields_of_babs:
  assumes "babs s' = c"
  shows "memdisk s' = cdisk c" "view s' = cview c" "held s' = cheld c" "dirty s' = cdirty c"
    "dwrites s' = ctrace c" "bstate.more s' = crest c"
  using assms by (auto simp: babs_def)

lemma distinct_log_copies: "distinct (map fst (log_copies s n))"
  by (simp add: log_copies_def comp_def distinct_map inj_on_def)

text \<open>The log copies and the committing header, then the state the installs start from.\<close>

lemma commit_point_runs:
  assumes inv: "linv s" and idle: "held s = {}"
  shows "runs (obind (write_log s) (\<lambda>_ s. write_head s)) (\<lambda>_ s'. binv s' \<and>
    babs s' = c_store (log_copies s (lh_n (lh (log s))) @
      [(lstart (log s), put_head (lh (log s)) (view s (lstart (log s))))]) (babs s))"
  unfolding runs_obind
proof (rule runs_mono[OF write_log_runs[OF linv_header_ok[OF inv idle]]])
  let ?n = "lh_n (lh (log s))" and ?st = "lstart (log s)"
  show "\<forall>i < ?n. logged_block s i \<in> dirty s" using linv_logged[OF inv] by blast
  fix u s1 assume I: "binv s1 \<and> babs s1 = c_store (log_copies s ?n) (babs s)"
  note f = fields_of_babs[OF I[THEN conjunct2]]
  have l: "log s1 = log s" using I babs_log by blast
  have "?st \<notin> fst ` set (log_copies s ?n)" by (simp add: fst_log_copies)
  then have v: "view s1 ?st = view s ?st"
    using f(2) by (simp add: cview_store_other)
  show "runs (write_head s1) (\<lambda>_ s'. binv s' \<and>
      babs s' = c_store (log_copies s ?n @ [(?st, put_head (lh (log s)) (view s ?st))]) (babs s))"
    using write_head_runs[of s1] I[THEN conjunct1] inv idle l v f linv_card[OF inv]
      card_Diff_less[of "dirty s" NBUF]
    by (simp add: c_store_append linv_def Let_def I[THEN conjunct2])
qed

lemma commit_point_state:
  assumes inv: "linv s" and idle: "held s = {}" and "binv s2"
    and ab: "babs s2 = c_store (log_copies s (lh_n (lh (log s))) @
      [(lstart (log s), put_head (lh (log s)) (view s (lstart (log s))))]) (babs s)"
  shows "log s2 = log s" "header_ok s2" "dirty s2 = dirty s"
    "installs s2 (lh_n (lh (log s))) =
      map (\<lambda>i. (logged_block s i, view s (logged_block s i))) [0..<lh_n (lh (log s))]"
proof -
  let ?n = "lh_n (lh (log s))" and ?st = "lstart (log s)"
  let ?d = "put_head (lh (log s)) (view s ?st)"
  note f = fields_of_babs[OF ab]
  show l: "log s2 = log s" using ab by (rule babs_log)
  show d: "dirty s2 = dirty s"
  proof -
    have "b \<notin> {?st ..< ?st + 1 + ?n}" if "b \<in> dirty s" for b
      using that inv unfolding linv_def Let_def by fastforce
    then have "dirty s \<inter> fst ` set (log_copies s ?n @ [(?st, ?d)]) = {}"
      unfolding set_append image_Un fst_log_copies by fastforce
    then show ?thesis unfolding f(4) c_store_fields babs_simps by (rule Diff_triv)
  qed
  show "header_ok s2"
    using linv_header_ok[OF inv idle] l d f(1,3) assms(3) by (simp add: header_ok_def)
  have "view s2 (?st + i + 1) = view s (logged_block s i)" if "i < ?n" for i
  proof -
    have "(?st + i + 1, view s (logged_block s i)) \<in> set (log_copies s ?n)"
      using that by (auto simp: log_copies_def)
    then have "cview (c_store (log_copies s ?n) (babs s)) (?st + i + 1) = view s (logged_block s i)"
      by (rule cview_store_mem[OF distinct_log_copies])
    then show ?thesis using f(2) by (simp add: c_store_snoc c_write_def c_put_def)
  qed
  then show "installs s2 ?n = map (\<lambda>i. (logged_block s i, view s (logged_block s i))) [0..<?n]"
    by (auto simp: installs_def l)
qed

lemma installs_pinned:
  assumes inv: "linv s" and k: "k < lh_n (lh (log s))"
  shows "logged_block s k \<in> dirty s - logged_block s ` {..<k}"
  using linv_logged[OF inv k] linv_inj[OF inv k] k by (auto dest: less_trans)

lemma set_lh_n_simps [simp]:
  "log (set_lh_n n s) = (log s)\<lparr>lh := (lh (log s))\<lparr>lh_n := n\<rparr>\<rparr>" "binv (set_lh_n n s) = binv s"
  "flagged F (set_lh_n n s) = flagged F s" "view (set_lh_n n s) = view s"
  "memdisk (set_lh_n n s) = memdisk s" "dwrites (set_lh_n n s) = dwrites s"
  "lstate.more (set_lh_n n s) = lstate.more s"
  by (simp_all add: set_lh_n_def)

lemma more_lmore: "bstate.more s' = bstate.more s \<Longrightarrow> lstate.more s' = lstate.more s"
  by (cases s; cases s') simp

lemma linv_dirty: "linv s \<Longrightarrow> dirty s = logged_block s ` {..<lh_n (lh (log s))}"
  using nth_image[of "lh_n (lh (log s))" "lh_block (lh (log s))"]
  by (simp add: linv_def Let_def atLeast0LessThan)

lemma cview_store_one: "cview (c_store [(n, d)] c) = (cview c)(n := d)"
  by (simp add: c_store_def c_write_def c_put_def)

text \<open>The state a commit leaves behind.\<close>

definition committed :: "'a lstate_scheme \<Rightarrow> 'a lstate_scheme \<Rightarrow> bool" where
  "committed s s' \<longleftrightarrow>
     binv s' \<and> log s' = (log s)\<lparr>lh := (lh (log s))\<lparr>lh_n := 0\<rparr>\<rparr> \<and>
     lstate.more s' = lstate.more s \<and> held s' = {} \<and> dirty s' = {} \<and>
     memdisk s' = apply_writes (memdisk s) (commit_writes s) \<and>
     view s' = cview (c_store (commit_writes s) (babs s)) \<and>
     dwrites s' = dwrites s @ commit_writes s"

lemma commit_clear_runs:
  assumes inv: "linv s" and idle: "held s = {}" and pos: "lh_n (lh (log s)) \<noteq> 0"
    and 3: "binv s3" "babs s3 = c_store ((log_copies s (lh_n (lh (log s))) @
        [(lstart (log s), put_head (lh (log s)) (view s (lstart (log s))))]) @
      map (\<lambda>i. (logged_block s i, view s (logged_block s i))) [0..<lh_n (lh (log s))]) (babs s)"
  shows "runs (write_head (set_lh_n 0 s3)) (\<lambda>_ s'. committed s s')"
proof -
  let ?h = "lh (log s)" and ?st = "lstart (log s)"
  let ?n = "lh_n ?h" and ?d1 = "put_head ?h (view s ?st)"
  let ?W2 = "log_copies s ?n @ [(?st, ?d1)]"
  let ?W3 = "map (\<lambda>i. (logged_block s i, view s (logged_block s i))) [0..<?n]"
  let ?W4 = "[(?st, put_head (?h\<lparr>lh_n := 0\<rparr>) ?d1)]"
  have W: "commit_writes s = (?W2 @ ?W3) @ ?W4"
    using pos by (simp add: commit_writes_def Let_def)
  have W3_keys: "fst ` set ?W3 = dirty s"
    using linv_dirty[OF inv] by (simp add: image_image atLeast0LessThan)
  have st: "?st \<notin> dirty s" using inv unfolding linv_def Let_def by fastforce
  note f = fields_of_babs[OF 3(2)]
  have l3: "log s3 = log s" by (rule babs_log[OF 3(2)])
  have v3: "view s3 ?st = ?d1"
    using f(2) cview_store_last[of ?st ?W3 "log_copies s ?n" ?d1 "babs s"] W3_keys st by simp
  have H: "runs (write_head (set_lh_n 0 s3)) (\<lambda>_ s'. binv s' \<and>
      babs s' = c_store ?W4 (babs (set_lh_n 0 s3)))"
    using write_head_runs[of "set_lh_n 0 s3"] 3(1) l3 v3 f inv idle linv_card[OF inv]
      card_Diff_less[of "dirty s" NBUF] by (simp add: linv_def Let_def)
  show ?thesis
  proof (rule runs_mono[OF H], elim conjE)
    fix u s4 assume 4: "binv s4" "babs s4 = c_store ?W4 (babs (set_lh_n 0 s3))"
    note g = fields_of_babs[OF 4(2)]
    have m: "bstate.more s4 = bstate.more (set_lh_n 0 s3)" using g(6) by simp
    have m3: "bstate.more s3 = bstate.more s" using f(6) by simp
    have "dirty s3 \<subseteq> dirty s - fst ` set ?W3"
      using f(4) by (simp add: image_Un) blast
    then have "dirty s4 = {}" using g(4) W3_keys by simp
    moreover have "view s4 = cview (c_store (commit_writes s) (babs s))"
      using g(2) f(2) unfolding W c_store_append[of "?W2 @ ?W3"] cview_store_one by simp
    moreover have "memdisk s4 = apply_writes (memdisk s) (commit_writes s)"
      using g(1) f(1) unfolding W apply_writes_append[of _ "?W2 @ ?W3"] by simp
    ultimately show "committed s s4"
      using 4(1) g(3,5) f(3,5) W idle more_log[OF m] more_lmore[OF m] more_lmore[OF m3] l3
      by (simp add: committed_def)
  qed
qed

lemma commit_runs:
  assumes inv: "linv s" and idle: "held s = {}"
  shows "runs (commit s) (\<lambda>_ s'. committed s s')"
proof (cases "lh_n (lh (log s)) = 0")
  case True
  then have "dirty s = {}" using linv_card[OF inv] by simp
  moreover have "log s = (log s)\<lparr>lh := (lh (log s))\<lparr>lh_n := 0\<rparr>\<rparr>" using True by simp
  ultimately show ?thesis
    using True inv idle by (simp add: commit_def commit_writes_def linv_def Let_def committed_def)
next
  case pos: False
  let ?W2 = "log_copies s (lh_n (lh (log s))) @
    [(lstart (log s), put_head (lh (log s)) (view s (lstart (log s))))]"
  have eq: "commit s = obind (obind (write_log s) (\<lambda>_ s. write_head s)) (\<lambda>_ s.
      obind (install_trans s) (\<lambda>_ s. write_head (set_lh_n 0 s)))"
    using pos by (simp add: commit_def obind_assoc)
  show ?thesis unfolding eq runs_obind[of "obind (write_log s) (\<lambda>_ s. write_head s)"]
  proof (rule runs_mono[OF commit_point_runs[OF inv idle]], elim conjE)
    fix u s2 assume 2: "binv s2" "babs s2 = c_store ?W2 (babs s)"
    note st2 = commit_point_state[OF inv idle 2]
    have "runs (install_trans s2) (\<lambda>_ s'. binv s' \<and>
        babs s' = c_store (installs s2 (lh_n (lh (log s)))) (babs s2))"
      using install_trans_runs[OF st2(2)] installs_pinned[OF inv] st2(1,3) by simp
    then show "runs (obind (install_trans s2) (\<lambda>_ s. write_head (set_lh_n 0 s)))
        (\<lambda>_ s'. committed s s')"
      unfolding runs_obind
      by (rule runs_mono, elim conjE, intro commit_clear_runs[OF inv idle pos])
        (simp_all only: 2(2) st2(4) c_store_append[of ?W2])
  qed
qed

lemma head_zero:
  assumes "length d = BSIZE"
  shows "head_n (put_head (h\<lparr>lh_n := 0\<rparr>) d) = 0" "length (put_head (h\<lparr>lh_n := 0\<rparr>) d) = BSIZE"
  using put_head_laws[of "h\<lparr>lh_n := 0\<rparr>" d] assms by simp_all

section \<open>Adding a block to the transaction\<close>

text \<open>The blocks of the open transaction, as a set: what is pinned in the cache.\<close>

lemma log_slot_cases:
  assumes "length (lh_block h) = LOGSIZE" "lh_n h < LOGSIZE"
  shows "(bn \<in> set (take (lh_n h) (lh_block h)) \<and> log_slot h bn < lh_n h \<and>
           lh_block h ! log_slot h bn = bn) \<or>
         (bn \<notin> set (take (lh_n h) (lh_block h)) \<and> log_slot h bn = lh_n h)"
proof (cases "find_idx (\<lambda>b. b = bn) (take (lh_n h) (lh_block h))")
  case None
  then have "bn \<notin> set (take (lh_n h) (lh_block h))"
    by (auto simp: find_idx_None in_set_conv_nth)
  with None show ?thesis by (simp add: log_slot_def)
next
  case (Some i)
  from find_idx_SomeD[OF Some] have "i < lh_n h" "lh_block h ! i = bn" by auto
  moreover have "bn \<in> set (take (lh_n h) (lh_block h))"
    using find_idx_SomeD(1,2)[OF Some] by (metis nth_mem)
  ultimately show ?thesis using Some by (simp add: log_slot_def)
qed

lemma take_Suc_update:
  "n < length xs \<Longrightarrow> take (Suc n) (xs[n := x]) = take n xs @ [x]"
  by (simp add: take_Suc_conv_app_nth)

lemma log_write_runs:
  assumes inv: "linv s" and h: "holds s i n" and tx: "outstanding (log s) \<ge> 1"
    and room: "lh_n (lh (log s)) < LOGSIZE" "lh_n (lh (log s)) + 1 < lsize (log s)"
    and home: "n < lstart (log s) \<or> lstart (log s) + lsize (log s) \<le> n"
  shows "runs (log_write i s) (\<lambda>_ s'. linv s' \<and>
    babs s' = (c_mark n (babs s))\<lparr>crest := bstate.more s'\<rparr> \<and>
    (\<exists>h'. log s' = (log s)\<lparr>lh := h'\<rparr>) \<and> lstate.more s' = lstate.more s \<and>
    (\<forall>j m. holds s j m \<longrightarrow> holds s' j m))"
proof -
  let ?h = "lh (log s)"
  let ?k = "log_slot ?h n"
  let ?h' = "\<lparr>lh_n = (if ?k = lh_n ?h then lh_n ?h + 1 else lh_n ?h), lh_block = (lh_block ?h)[?k := n]\<rparr>"
  let ?s = "s\<lparr>log := (log s)\<lparr>lh := ?h'\<rparr>\<rparr>"
  let ?t = "upd_buf i (flags_update (insert B_DIRTY)) ?s"
  have l: "binv s" "length (lh_block ?h) = LOGSIZE" "distinct (take (lh_n ?h) (lh_block ?h))"
    "set (take (lh_n ?h) (lh_block ?h)) = dirty s"
    using inv by (auto simp: linv_def Let_def)
  have run: "log_write i s = Ret () ?t"
    using tx room h by (simp add: log_write_def Let_def holds_def)
  have M: "binv ?t \<and> babs ?t = c_mark n (babs ?s) \<and> (\<forall>j m. holds ?s j m \<longrightarrow> holds ?t j m)"
    using l(1) h by (intro bc.mark_law) simp_all
  then have ab: "babs ?t = c_mark n (babs ?s)" and tb: "binv ?t" by auto
  note f = fields_of_babs[OF ab]
  have lt: "log ?t = (log s)\<lparr>lh := ?h'\<rparr>" "lstate.more ?t = lstate.more s"
    by (simp_all add: upd_buf_def)
  have dist: "distinct (take (lh_n ?h') (lh_block ?h')) \<and>
      set (take (lh_n ?h') (lh_block ?h')) = insert n (dirty s)"
  proof (cases "n \<in> dirty s")
    case True
    then have k: "?k < lh_n ?h" "lh_block ?h ! ?k = n"
      using log_slot_cases[OF l(2) room(1), of n] l(4) by auto
    then have "(lh_block ?h)[?k := n] = lh_block ?h" by (metis list_update_id)
    then show ?thesis using k(1) l(3,4) True by auto
  next
    case False
    then have k: "?k = lh_n ?h" using log_slot_cases[OF l(2) room(1), of n] l(4) by auto
    then show ?thesis using l False room(1) by (simp add: take_Suc_update)
  qed
  have d: "dirty ?t = insert n (dirty s)" "memdisk ?t = memdisk s"
    using f(4,1) by (simp_all add: c_mark_def)
  have "linv ?t"
    using inv tb d lt dist room home unfolding linv_def Let_def by auto
  moreover have "babs ?t = (c_mark n (babs s))\<lparr>crest := bstate.more ?t\<rparr>"
    using f(6) by (simp add: ab babs_set_lh c_mark_def)
  ultimately show ?thesis using run M lt by auto
qed

end
