(* ===== verification/Tx.thy ===== *)
theory Tx
  imports Log
begin

text \<open>
  Reasoning about a file-system operation inside a transaction (between \<open>begin_op\<close> and
  \<open>end_op\<close> of \<^verbatim>\<open>kernel/log.c\<close>). \<open>txr s V B H t\<close>: from \<open>s\<close> the operation reached \<open>t\<close>, in which the
  logical disk is \<open>V\<close>, the blocks \<open>B\<close> were added to the transaction and the blocks \<open>H\<close>
  are held; the disk itself and everything outside the cache and the log header
  are untouched. The rules give \<open>txr\<close> for the idioms of \<^verbatim>\<open>kernel/fs.c\<close>.
\<close>

definition home :: "'a lstate_scheme \<Rightarrow> nat \<Rightarrow> bool" where
  "home s b \<longleftrightarrow> b < length (memdisk s) \<and>
     (b < lstart (log s) \<or> lstart (log s) + lsize (log s) \<le> b)"

text \<open>\<open>k\<close> more blocks fit into the transaction.\<close>

definition room :: "'a lstate_scheme \<Rightarrow> nat \<Rightarrow> bool" where
  "room s k \<longleftrightarrow> card (dirty s) + k \<le> LOGSIZE \<and> card (dirty s) + k < lsize (log s)"

definition txr :: "'a lstate_scheme \<Rightarrow> (nat \<Rightarrow> block) \<Rightarrow> nat set \<Rightarrow> nat set \<Rightarrow> 'a lstate_scheme \<Rightarrow> bool" where
  "txr s V B H t \<longleftrightarrow>
     linv s \<and> linv t \<and> view t = V \<and> dirty t = dirty s \<union> B \<and> held t = H \<and> memdisk t = memdisk s \<and>
     dwrites t = dwrites s \<and> (\<exists>h. log t = (log s)\<lparr>lh := h\<rparr>) \<and> lstate.more t = lstate.more s \<and>
     (\<forall>j m. holds s j m \<and> m \<in> H \<longrightarrow> holds t j m)"

lemma txrD:
  assumes "txr s V B H t"
  shows "linv s" "linv t" "view t = V" "dirty t = dirty s \<union> B" "held t = H" "memdisk t = memdisk s"
    "dwrites t = dwrites s" "lstart (log t) = lstart (log s)" "lsize (log t) = lsize (log s)"
    "outstanding (log t) = outstanding (log s)" "committing (log t) = committing (log s)"
    "ldev (log t) = ldev (log s)" "lstate.more t = lstate.more s"
    "holds s j m \<Longrightarrow> m \<in> H \<Longrightarrow> holds t j m"
  using assms by (auto simp: txr_def)

lemma txr_refl: "linv s \<Longrightarrow> txr s (view s) {} (held s) s"
  by (auto simp: txr_def intro!: exI[of _ "lh (log s)"])

lemma linv_binv: "linv s \<Longrightarrow> binv s"
  by (simp add: linv_def Let_def)

lemma holds_held: "linv s \<Longrightarrow> holds s j m \<Longrightarrow> m \<in> held s \<and> m < length (memdisk s)"
  using bc.held_law[OF linv_binv] by simp

lemma txr_trans:
  assumes "txr s V B H t" "txr t V' B' H' u" "H' \<inter> held s \<subseteq> H"
  shows "txr s V' (B \<union> B') H' u"
proof -
  have "holds u j m" if "holds s j m" "m \<in> H'" for j m
    using that assms holds_held[OF txrD(1)[OF assms(1)] that(1)] txrD(14)[OF assms(1) that(1)]
      txrD(14)[OF assms(2)] by auto
  then show ?thesis using assms(1,2) by (auto simp: txr_def)
qed

lemma room_mono: "room s k \<Longrightarrow> j \<le> k \<Longrightarrow> room s j"
  by (simp add: room_def)

lemma txr_room:
  assumes "txr s V B H t" "room s (k + j)" "finite B" "card B \<le> k"
  shows "room t j"
proof -
  have "card (dirty s \<union> B) \<le> card (dirty s) + card B" by (rule card_Un_le)
  then show ?thesis using assms txrD(4,9)[OF assms(1)] by (simp add: room_def)
qed

lemma txr_room_same: "txr s V {} H t \<Longrightarrow> room t j = room s j"
  by (simp add: room_def txrD(4,9)[of s V "{}" H t])

lemma txr_home: "txr s V B H t \<Longrightarrow> home t b = home s b"
  by (simp add: home_def txrD(6,8,9)[of s V B H t])

text \<open>A block can be read when it is not held and the cache has room for one more.\<close>

lemma can_read:
  assumes "linv s" "n < length (memdisk s)" "n \<notin> held s" "card (held s) + card (dirty s) < NBUF"
  shows "can_get NBUF n (babs s)"
  using assms card_Un_le[of "held s" "dirty s"] by (simp add: can_get_def)

lemma linv_dirty_small: "linv s \<Longrightarrow> card (dirty s) < NBUF"
  using linv_card[of s] by (simp add: linv_def Let_def)

lemma room_read: "linv s \<Longrightarrow> room s k \<Longrightarrow> card (held s) \<le> k \<Longrightarrow> card (held s) + card (dirty s) < NBUF"
  by (simp add: room_def linv_def Let_def)

lemma linv_same:
  assumes "linv s" "binv t" "log t = log s" "memdisk t = memdisk s" "dirty t = dirty s"
  shows "linv t"
  using assms by (simp add: linv_def Let_def)

lemma some_header [simp]: "\<exists>h. (l :: logst) = l\<lparr>lh := h\<rparr>"
  by (rule exI[of _ "lh l"]) simp

lemma tx_bread:
  assumes inv: "linv s" and g: "can_get NBUF n (babs s)"
    and Q: "\<And>i t. \<lbrakk>txr s (view s) {} (insert n (held s)) t; holds t i n;
              data (bufs t ! i) = view s n; can_rel n (babs t)\<rbrakk> \<Longrightarrow> Q i t"
  shows "runs (bread 1 n s) Q"
proof (rule bc.rd_wp[OF linv_binv[OF inv] g])
  fix i t assume 1: "binv t" "holds t i n" "babs t = c_get n (babs s)"
    "data (bufs t ! i) = cview (babs s) n" "\<forall>j m. holds s j m \<longrightarrow> holds t j m"
  note f = fields_of_babs[OF 1(3)]
  have m: "bstate.more t = bstate.more s" using f(6) by (simp add: c_get_def)
  have l: "log t = (log s)\<lparr>lh := lh (log s)\<rparr>" using more_log[OF m] by simp
  have "linv t" using linv_same[OF inv 1(1)] more_log[OF m] f by (simp add: c_get_def)
  then have "txr s (view s) {} (insert n (held s)) t"
    unfolding txr_def using inv f 1(5) l more_lmore[OF m] by (auto simp: c_get_def)
  moreover have "can_rel n (babs t)"
    using bc.clean_law[OF linv_binv[OF inv], of n] g 1(3) by (simp add: can_get_def can_rel_def c_get_def)
  ultimately show "Q i t" using 1 by (intro Q) simp_all
qed

lemma tx_brelse:
  assumes inv: "linv s" and h: "holds s i n" and c: "can_rel n (babs s)"
    and Q: "\<And>t. txr s (view s) {} (held s - {n}) t \<Longrightarrow> Q () t"
  shows "runs (brelse i s) Q"
proof (rule bc.rel_wp[OF linv_binv[OF inv] h c])
  fix t assume 1: "binv t" "babs t = c_rel n (babs s)" "\<forall>j m. holds s j m \<and> m \<noteq> n \<longrightarrow> holds t j m"
  note f = fields_of_babs[OF 1(2)]
  have m: "bstate.more t = bstate.more s" using f(6) by (simp add: c_rel_def)
  have l: "log t = (log s)\<lparr>lh := lh (log s)\<rparr>" using more_log[OF m] by simp
  have "linv t" using linv_same[OF inv 1(1)] more_log[OF m] f by (simp add: c_rel_def)
  then have "txr s (view s) {} (held s - {n}) t"
    unfolding txr_def using inv f 1(3) l more_lmore[OF m] by (auto simp: c_rel_def)
  then show "Q () t" by (rule Q)
qed

lemma tx_put:
  assumes inv: "linv s" and h: "holds s i n" and len: "length d = BSIZE"
  shows "txr s ((view s)(n := d)) {} (held s) (set_data i d s)" "holds (set_data i d s) i n"
proof -
  note p = bc.put_law[OF linv_binv[OF inv] h len]
  note f = fields_of_babs[OF p[THEN conjunct2, THEN conjunct1]]
  have m: "bstate.more (set_data i d s) = bstate.more s" using f(6) by (simp add: c_put_def)
  have l: "log (set_data i d s) = (log s)\<lparr>lh := lh (log s)\<rparr>" using more_log[OF m] by simp
  have "linv (set_data i d s)" using linv_same[OF inv, of "set_data i d s"] p more_log[OF m] f
    by (simp add: c_put_def)
  then show "txr s ((view s)(n := d)) {} (held s) (set_data i d s)"
    unfolding txr_def using inv f p l more_lmore[OF m] by (auto simp: c_put_def)
  show "holds (set_data i d s) i n" using p h by blast
qed

lemma tx_log_write:
  assumes inv: "linv s" and h: "holds s i n" and tx: "outstanding (log s) \<ge> 1"
    and room: "room s 1" and home: "home s n"
    and Q: "\<And>t. txr s (view s) {n} (held s) t \<Longrightarrow> can_rel n (babs t) \<Longrightarrow> Q () t"
  shows "runs (log_write i s) Q"
proof (rule runs_mono[OF log_write_runs[OF inv h tx]], goal_cases)
  case 1 then show ?case using room linv_card[OF inv] by (simp add: room_def)
next
  case 2 then show ?case using room linv_card[OF inv] by (simp add: room_def)
next
  case 3 then show ?case using home by (simp add: home_def)
next
  case (4 u t)
  note f = fields_of_babs[OF 4[THEN conjunct2, THEN conjunct1]]
  have "txr s (view s) {n} (held s) t"
    unfolding txr_def using inv 4 f by (auto simp: c_mark_def)
  moreover have "can_rel n (babs t)" using 4 by (simp add: can_rel_def c_mark_def del: babs_simps)
  ultimately show ?case by (cases u) (simp add: Q)
qed

text \<open>Change a held buffer, log it and release it.\<close>

lemma tx_modify:
  assumes inv: "linv s" and h: "holds s i n" and tx: "outstanding (log s) \<ge> 1"
    and room: "room s 1" and home: "home s n" and len: "length d = BSIZE"
    and Q: "\<And>t. txr s ((view s)(n := d)) {n} (held s - {n}) t \<Longrightarrow> Q () t"
  shows "runs (obind (log_write i (set_data i d s)) (\<lambda>_ s. brelse i s)) Q"
  unfolding runs_obind
proof -
  note p = tx_put[OF inv h len]
  let ?s = "set_data i d s"
  have r: "room ?s 1" using txr_room[OF p(1), of 0 1] room by simp
  show "runs (log_write i ?s) (\<lambda>_ s. runs (brelse i s) Q)"
  proof (rule tx_log_write[OF txrD(2)[OF p(1)] p(2) _ r])
    show "1 \<le> outstanding (log ?s)" using tx txrD(10)[OF p(1)] by simp
    show "home ?s n" using home txr_home[OF p(1)] by simp
    fix t assume 1: "txr ?s (view ?s) {n} (held ?s) t" "can_rel n (babs t)"
    have h': "holds t i n" using txrD(14)[OF 1(1) p(2)] holds_held[OF txrD(2)[OF p(1)] p(2)] by simp
    show "runs (brelse i t) Q"
    proof (rule tx_brelse[OF txrD(2)[OF 1(1)] h' 1(2)])
      fix u assume 2: "txr t (view t) {} (held t - {n}) u"
      have "txr s (view ?s) ({} \<union> {n}) (held ?s) t"
        by (rule txr_trans[OF p(1) 1(1)]) (simp add: txrD(5)[OF p(1)])
      from txr_trans[OF this 2] show "Q () u"
        using Q txrD(3,5)[OF p(1)] txrD(3,5)[OF 1(1)] by auto
    qed
  qed
qed

lemma tx_update:
  assumes inv: "linv s" and tx: "outstanding (log s) \<ge> 1" and room: "room s 1"
    and home: "home s n" and free: "n \<notin> held s" "card (held s) \<le> 1"
    and len: "length (f (view s n)) = BSIZE"
    and Q: "\<And>t. txr s ((view s)(n := f (view s n))) {n} (held s) t \<Longrightarrow> Q () t"
  shows "runs (obind (bread 1 n s) (\<lambda>i s.
    obind (log_write i (set_data i (f (data (bufs s ! i))) s)) (\<lambda>_ s. brelse i s))) Q"
  unfolding runs_obind[of "bread 1 n s"]
proof (rule tx_bread[OF inv])
  show "can_get NBUF n (babs s)"
    using can_read[OF inv _ free(1) room_read[OF inv room free(2)]] home by (simp add: home_def)
  fix i t assume 1: "txr s (view s) {} (insert n (held s)) t" "holds t i n"
    "data (bufs t ! i) = view s n"
  show "runs (obind (log_write i (set_data i (f (data (bufs t ! i))) t)) (\<lambda>_ s. brelse i s)) Q"
  proof (rule tx_modify[OF txrD(2)[OF 1(1)] 1(2)])
    show "room t 1" using txr_room[OF 1(1), of 0 1] room by simp
    show "1 \<le> outstanding (log t)" using tx txrD(10)[OF 1(1)] by simp
    show "home t n" using home txr_home[OF 1(1)] by simp
    show "length (f (data (bufs t ! i))) = BSIZE" using len 1(3) by simp
    fix u assume 2: "txr t ((view t)(n := f (data (bufs t ! i)))) {n} (held t - {n}) u"
    from txr_trans[OF 1(1) 2] show "Q () u"
      using Q txrD(3,5)[OF 1(1)] 1(3) free(1) by auto
  qed
qed

text \<open>Look at a block.\<close>

lemma tx_peek:
  assumes inv: "linv s" and n: "n < length (memdisk s)" "n \<notin> held s"
    and cap: "card (held s) + card (dirty s) < NBUF"
    and Q: "\<And>t. txr s (view s) {} (held s) t \<Longrightarrow> runs (k (view s n) t) Q"
  shows "runs (obind (bread 1 n s) (\<lambda>i s. obind (brelse i s) (\<lambda>_ s'. k (data (bufs s ! i)) s'))) Q"
  unfolding runs_obind
proof (rule tx_bread[OF inv can_read[OF inv n cap]])
  fix i t assume 1: "txr s (view s) {} (insert n (held s)) t" "holds t i n"
    "data (bufs t ! i) = view s n" "can_rel n (babs t)"
  show "runs (brelse i t) (\<lambda>_ s'. runs (k (data (bufs t ! i)) s') Q)"
  proof (rule tx_brelse[OF txrD(2)[OF 1(1)] 1(2,4)])
    fix u assume 2: "txr t (view t) {} (held t - {n}) u"
    have "txr s (view t) ({} \<union> {}) (held t - {n}) u"
      by (rule txr_trans[OF 1(1) 2]) (auto simp: txrD(5)[OF 1(1)])
    then show "runs (k (data (bufs t ! i)) u) Q"
      using Q[of u] n(2) txrD(3,5)[OF 1(1)] 1(3) by simp
  qed
qed

end
