(* ===== verification/Fs_Block.thy ===== *)
theory Fs_Block
  imports Tx
begin

text \<open>
  The block layer of \<^verbatim>\<open>kernel/fs.c\<close>: \<open>bzero\<close>, \<open>balloc\<close> and \<open>bfree\<close> over the free map. A bit
  of the free map is tested and changed with the source's masks; \<open>used\<close> reads the map
  of a logical disk. \<open>balloc\<close> visits the starts of the groups of \<open>BPB\<close> blocks in turn;
  its inner loop is the search for the first clear bit.
\<close>

section \<open>Operations\<close>

definition bit_used :: "block \<Rightarrow> nat \<Rightarrow> bool" where
  "bit_used d bi \<longleftrightarrow> (d ! (bi div 8)) AND push_bit (bi mod 8) 1 \<noteq> 0"

definition mark_bit :: "nat \<Rightarrow> block \<Rightarrow> block" where
  "mark_bit bi d = d[bi div 8 := (d ! (bi div 8)) OR push_bit (bi mod 8) 1]"

definition clear_bit :: "nat \<Rightarrow> block \<Rightarrow> block" where
  "clear_bit bi d = d[bi div 8 := (d ! (bi div 8)) AND NOT (push_bit (bi mod 8) 1)]"

definition bzero :: "uint \<Rightarrow> nat \<Rightarrow> 'a lstate_scheme \<Rightarrow> (unit, 'a lstate_scheme) outcome" where
  "bzero d bno s =
     obind (bread d bno s) (\<lambda>bp s.
     obind (log_write bp (set_data bp (replicate BSIZE 0) s)) (\<lambda>_ s. brelse bp s))"

primrec balloc_loop :: "uint \<Rightarrow> superblock \<Rightarrow> nat list \<Rightarrow> 'a lstate_scheme \<Rightarrow> (nat, 'a lstate_scheme) outcome" where
  "balloc_loop d sb [] s = Panic ''balloc: out of blocks''"
| "balloc_loop d sb (b # bs) s =
     obind (bread d (BBLOCK b (unat (sb_ninodes sb))) s) (\<lambda>bp s.
       case find (\<lambda>bi. \<not> bit_used (data (bufs s ! bp)) bi) [0..<min BPB (unat (sb_size sb) - b)] of
         Some bi \<Rightarrow>
           obind (obind (log_write bp (set_data bp (mark_bit bi (data (bufs s ! bp))) s))
             (\<lambda>_ s. brelse bp s)) (\<lambda>_ s.
           obind (bzero d (b + bi) s) (\<lambda>_ s. Ret (b + bi) s))
       | None \<Rightarrow> obind (brelse bp s) (\<lambda>_ s. balloc_loop d sb bs s))"

definition balloc :: "uint \<Rightarrow> 'a lstate_scheme \<Rightarrow> (nat, 'a lstate_scheme) outcome" where
  "balloc d s =
     obind (readsb d s) (\<lambda>sb s.
       balloc_loop d sb (map ((*) BPB) [0..<(unat (sb_size sb) + BPB - 1) div BPB]) s)"

definition bfree :: "uint \<Rightarrow> nat \<Rightarrow> 'a lstate_scheme \<Rightarrow> (unit, 'a lstate_scheme) outcome" where
  "bfree d b s =
     obind (readsb d s) (\<lambda>sb s.
     obind (bread d (BBLOCK b (unat (sb_ninodes sb))) s) (\<lambda>bp s.
       let bi = b mod BPB in
       if \<not> bit_used (data (bufs s ! bp)) bi then Panic ''freeing free block''
       else obind (log_write bp (set_data bp (clear_bit bi (data (bufs s ! bp))) s))
         (\<lambda>_ s. brelse bp s)))"

section \<open>The free map\<close>

lemma bit_used_iff: "bit_used d bi \<longleftrightarrow> bit (d ! (bi div 8)) (bi mod 8)"
  by (simp add: bit_used_def bit_iff_and_push_bit_not_eq_0)

lemma same_bit: "bi div 8 = bj div 8 \<Longrightarrow> bi mod 8 = bj mod 8 \<Longrightarrow> bi = bj" for bi bj :: nat
  by (metis div_mult_mod_eq)

lemma bit_uchar_mask: "bit (2 ^ (m mod 8) :: uchar) n \<longleftrightarrow> m mod 8 = n"
  by (auto simp: bit_exp_iff)

lemma bit_used_mark:
  assumes "bi < BPB" "bj < BPB" "length d = BSIZE"
  shows "bit_used (mark_bit bi d) bj \<longleftrightarrow> bi = bj \<or> bit_used d bj"
proof -
  have "bi div 8 < length d" using assms by (simp add: BPB_def BSIZE_def)
  then show ?thesis
    using assms same_bit[of bi bj]
    by (cases "bi div 8 = bj div 8") (auto simp: bit_used_iff mark_bit_def bit_or_iff bit_uchar_mask)
qed

lemma bit_used_clear:
  assumes "bi < BPB" "bj < BPB" "length d = BSIZE"
  shows "bit_used (clear_bit bi d) bj \<longleftrightarrow> bi \<noteq> bj \<and> bit_used d bj"
proof -
  have "bi div 8 < length d" using assms by (simp add: BPB_def BSIZE_def)
  then show ?thesis
    using assms same_bit[of bi bj]
    by (cases "bi div 8 = bj div 8")
      (auto simp: bit_used_iff clear_bit_def bit_and_iff bit_not_iff bit_uchar_mask)
qed

lemma length_bit_updates [simp]: "length (mark_bit bi d) = length d" "length (clear_bit bi d) = length d"
  by (simp_all add: mark_bit_def clear_bit_def)

lemma clear_mark:
  assumes "bi < BPB" "length d = BSIZE" "\<not> bit_used d bi"
  shows "clear_bit bi (mark_bit bi d) = d"
proof -
  have l: "bi div 8 < length d" using assms by (simp add: BPB_def BSIZE_def)
  have "(d ! (bi div 8) OR push_bit (bi mod 8) 1) AND NOT (push_bit (bi mod 8) 1) = d ! (bi div 8)"
    using assms(3) by (intro bit_word_eqI) (auto simp: bit_simps bit_used_iff)
  then show ?thesis using l by (simp add: clear_bit_def mark_bit_def)
qed

definition used :: "nat \<Rightarrow> (nat \<Rightarrow> block) \<Rightarrow> nat \<Rightarrow> bool" where
  "used ninodes V b \<longleftrightarrow> bit_used (V (BBLOCK b ninodes)) (b mod BPB)"

text \<open>
  The geometry the block layer relies on: the superblock says \<open>sz\<close> blocks and \<open>nin\<close> inodes,
  and the superblock and the free map lie outside the log area.
\<close>

definition fs_geo :: "'a lstate_scheme \<Rightarrow> nat \<Rightarrow> nat \<Rightarrow> bool" where
  "fs_geo s sz nin \<longleftrightarrow>
     (let sb = dec_superblock (chunk 0 16 (view s 1)) in
      unat (sb_size sb) = sz \<and> unat (sb_ninodes sb) = nin \<and> home s 1 \<and>
      sz \<le> length (memdisk s) \<and> (\<forall>b < sz. home s (BBLOCK b nin)))"

lemma BBLOCK_ne_1 [simp]: "BBLOCK b nin \<noteq> 1" "BBLOCK b nin \<noteq> Suc 0" "Suc 0 \<noteq> BBLOCK b nin"
  by (simp_all add: BBLOCK_def)

lemma BBLOCK_group: "bi < BPB \<Longrightarrow> BBLOCK (BPB * j + bi) nin = BBLOCK (BPB * j) nin"
  by (simp add: BBLOCK_def)

lemma BPB_pos [simp]: "0 < BPB" by (simp add: BPB_def BSIZE_def)

section \<open>Allocation\<close>

text \<open>What a successful allocation of block \<open>b\<close> does to a logical disk.\<close>

definition alloc_view :: "nat \<Rightarrow> nat \<Rightarrow> (nat \<Rightarrow> block) \<Rightarrow> nat \<Rightarrow> block" where
  "alloc_view nin b V = (V(BBLOCK b nin := mark_bit (b mod BPB) (V (BBLOCK b nin))))(b := replicate BSIZE 0)"

definition free_view :: "nat \<Rightarrow> nat \<Rightarrow> (nat \<Rightarrow> block) \<Rightarrow> nat \<Rightarrow> block" where
  "free_view nin b V = V(BBLOCK b nin := clear_bit (b mod BPB) (V (BBLOCK b nin)))"

text \<open>The state in which an operation may allocate: one other block may be held.\<close>

definition alloc_ok :: "'a lstate_scheme \<Rightarrow> nat \<Rightarrow> nat \<Rightarrow> bool" where
  "alloc_ok s sz nin \<longleftrightarrow>
     linv s \<and> 1 \<le> outstanding (log s) \<and> fs_geo s sz nin \<and> card (held s) \<le> 1 \<and>
     1 \<notin> held s \<and> (\<forall>b < sz. BBLOCK b nin \<notin> held s)"

lemma fs_geo_txr:
  assumes "txr s V B H t" "V 1 = view s 1"
  shows "fs_geo t sz nin = fs_geo s sz nin"
  using txrD(3,6)[OF assms(1)] txr_home[OF assms(1)] assms(2)
  by (simp add: fs_geo_def Let_def)

lemma alloc_ok_txr:
  assumes "txr s V B (held s) t" "V 1 = view s 1" "alloc_ok s sz nin"
  shows "alloc_ok t sz nin"
  using assms(3) fs_geo_txr[OF assms(1,2)] txrD(2,5,10)[OF assms(1)] by (simp add: alloc_ok_def)

lemma readsb_tx:
  assumes inv: "linv s" and h: "1 < length (memdisk s)" "1 \<notin> held s"
    and cap: "card (held s) + card (dirty s) < NBUF"
    and Q: "\<And>t. txr s (view s) {} (held s) t \<Longrightarrow> Q (dec_superblock (chunk 0 16 (view s 1))) t"
  shows "runs (readsb 1 s) Q"
  unfolding readsb_def
  by (rule tx_peek[where k = "\<lambda>d. Ret (dec_superblock (chunk 0 16 d))", OF inv h cap]) (simp only: runs_Ret, rule Q)

lemma bzero_tx:
  assumes "linv s" "1 \<le> outstanding (log s)" "room s 1" "home s b" "b \<notin> held s" "card (held s) \<le> 1"
    and "\<And>t. txr s ((view s)(b := replicate BSIZE 0)) {b} (held s) t \<Longrightarrow> Q () t"
  shows "runs (bzero 1 b s) Q"
  unfolding bzero_def
  using assms by (intro tx_update[where f = "\<lambda>_. replicate BSIZE 0"]) auto

lemma find_first:
  assumes "find P [0..<n] = Some i"
  shows "i < n" "P i" "\<And>j. j < i \<Longrightarrow> \<not> P j"
proof -
  from assms obtain k where "k < n" "i = k" "P k" "\<forall>j < k. \<not> P j"
    by (auto simp: find_Some_iff)
  then show "i < n" "P i" "\<And>j. j < i \<Longrightarrow> \<not> P j" by auto
qed

lemma find_upt_Some: "i < n \<Longrightarrow> P i \<Longrightarrow> (\<And>j. j < i \<Longrightarrow> \<not> P j) \<Longrightarrow> find P [0..<n] = Some i"
  by (auto simp: find_Some_iff intro!: exI[of _ i])

lemma view_size: "linv s \<Longrightarrow> n < length (memdisk s) \<Longrightarrow> length (view s n) = BSIZE"
  using bc.size_law[OF linv_binv] by simp

text \<open>One group: its free map block is held, and the first clear bit in it is known.\<close>

lemma balloc_hit_runs:
  assumes ok: "alloc_ok s sz nin" and room: "room s 2" and j: "b div BPB = j"
    and b: "b < sz" "home s b" "b \<notin> held s" "b \<noteq> BBLOCK b nin"
    and free: "\<not> used nin (view s) b" "\<And>c. c < b \<Longrightarrow> c div BPB = j \<Longrightarrow> used nin (view s) c"
    and sb: "unat (sb_size sb) = sz" "unat (sb_ninodes sb) = nin"
    and Q: "\<And>t. txr s (alloc_view nin b (view s)) {BBLOCK b nin, b} (held s) t \<Longrightarrow> Q b t"
  shows "runs (balloc_loop 1 sb (BPB * j # bs) s) Q"
proof -
  let ?m = "BBLOCK b nin" and ?bi = "b mod BPB"
  have bb: "BBLOCK (BPB * j) nin = ?m" using j by (simp add: BBLOCK_def)
  have bsum: "BPB * j + ?bi = b" using j by (metis mult_div_mod_eq)
  have bi: "?bi < min BPB (sz - BPB * j)" using b(1) bsum mod_less_divisor[OF BPB_pos, of b] by auto
  have o: "linv s" "1 \<le> outstanding (log s)" "card (held s) \<le> 1" "?m \<notin> held s" "home s ?m"
    using ok b(1) by (auto simp: alloc_ok_def fs_geo_def Let_def)
  have lower: "bit_used (view s ?m) i" if "i < ?bi" for i
  proof -
    have i: "i < BPB" using that mod_less_divisor[OF BPB_pos, of b] by linarith
    then have "(BPB * j + i) div BPB = j" "(BPB * j + i) mod BPB = i" by simp_all
    moreover have "BPB * j + i < b" using that bsum by linarith
    ultimately show ?thesis using free(2)[of "BPB * j + i"] bb BBLOCK_group[OF i, of j nin]
      by (simp add: used_def)
  qed
  have hit: "find (\<lambda>bi. \<not> bit_used (view s ?m) bi) [0..<min BPB (sz - BPB * j)] = Some ?bi"
    using bi free(1) lower by (intro find_upt_Some) (auto simp: used_def)
  have g: "can_get NBUF ?m (babs s)"
    using can_read[OF o(1) _ o(4) room_read[OF o(1) room_mono[OF room, of 1] o(3)]] o(5)
    by (simp add: home_def)
  show ?thesis
    unfolding balloc_loop.simps runs_obind[of "bread _ _ _"] sb bb
  proof (rule tx_bread[OF o(1) g])
    fix bp t assume 1: "txr s (view s) {} (insert ?m (held s)) t" "holds t bp ?m"
      "data (bufs t ! bp) = view s ?m"
    have len: "length (mark_bit ?bi (view s ?m)) = BSIZE"
      using view_size[OF o(1)] o(5) by (simp add: home_def)
    have "runs (obind (log_write bp (set_data bp (mark_bit ?bi (view s ?m)) t)) (\<lambda>_ s. brelse bp s))
      (\<lambda>_ s. runs (bzero 1 b s) (\<lambda>_ s. Q b s))"
    proof (rule tx_modify[OF txrD(2)[OF 1(1)] 1(2) _ _ _ len])
      show "1 \<le> outstanding (log t)" using o(2) txrD(10)[OF 1(1)] by simp
      show "room t 1" using txr_room[OF 1(1), of 0 1] room_mono[OF room, of 1] by simp
      show "home t ?m" using o(5) txr_home[OF 1(1)] by simp
      fix u assume "txr t ((view t)(?m := mark_bit ?bi (view s ?m))) {?m} (held t - {?m}) u"
      then have 2: "txr s ((view s)(?m := mark_bit ?bi (view s ?m))) {?m} (held s) u"
        using txr_trans[OF 1(1)] txrD(3,5)[OF 1(1)] o(4) by fastforce
      show "runs (bzero 1 b u) (\<lambda>_ s. Q b s)"
      proof (rule bzero_tx[OF txrD(2)[OF 2]])
        show "1 \<le> outstanding (log u)" "home u b" "b \<notin> held u" "card (held u) \<le> 1"
          using o(2,3) b(2,3) txrD(5,10)[OF 2] txr_home[OF 2] by simp_all
        show "room u 1" using txr_room[OF 2, of 1 1] room by (simp add: numeral_2_eq_2)
        fix v assume 3: "txr u ((view u)(b := replicate BSIZE 0)) {b} (held u) v"
        from txr_trans[OF 2 3] show "Q b v"
          using Q txrD(3,5)[OF 2] by (auto simp: alloc_view_def insert_commute)
      qed
    qed
    then show "runs (case find (\<lambda>bi. \<not> bit_used (data (bufs t ! bp)) bi) [0..<min BPB (sz - BPB * j)] of
        None \<Rightarrow> obind (brelse bp t) (\<lambda>_ s. balloc_loop 1 sb bs s)
      | Some bi \<Rightarrow> obind (obind (log_write bp (set_data bp (mark_bit bi (data (bufs t ! bp))) t))
          (\<lambda>_ s. brelse bp s)) (\<lambda>_ s. obind (bzero 1 (BPB * j + bi) s) (\<lambda>_ s. Ret (BPB * j + bi) s))) Q"
      by (simp add: 1(3) hit bsum)
  qed
qed

text \<open>A group without a clear bit is passed over.\<close>

lemma group_full:
  assumes "\<And>c. c div BPB = j \<Longrightarrow> c < sz \<Longrightarrow> used nin V c"
  shows "find (\<lambda>bi. \<not> bit_used (V (BBLOCK (BPB * j) nin)) bi) [0..<min BPB (sz - BPB * j)] = None"
proof -
  have "bit_used (V (BBLOCK (BPB * j) nin)) bi" if "bi < min BPB (sz - BPB * j)" for bi
  proof -
    have "BPB * j + bi < sz" "bi < BPB" using that by linarith+
    then show ?thesis using assms[of "BPB * j + bi"] by (simp add: used_def BBLOCK_group)
  qed
  then show ?thesis by (auto simp: find_None_iff)
qed

lemma balloc_miss_runs:
  assumes ok: "alloc_ok s sz nin" and cap: "card (held s) + card (dirty s) < NBUF"
    and j: "BPB * j < sz" and full: "\<And>c. c div BPB = j \<Longrightarrow> c < sz \<Longrightarrow> used nin (view s) c"
    and sb: "unat (sb_size sb) = sz" "unat (sb_ninodes sb) = nin"
  shows "\<exists>t. txr s (view s) {} (held s) t \<and>
    balloc_loop 1 sb (BPB * j # bs) s = balloc_loop 1 sb bs t"
proof -
  let ?m = "BBLOCK (BPB * j) nin"
  let ?k = "\<lambda>bp s. case find (\<lambda>bi. \<not> bit_used (data (bufs s ! bp)) bi) [0..<min BPB (sz - BPB * j)] of
         Some bi \<Rightarrow>
           obind (obind (log_write bp (set_data bp (mark_bit bi (data (bufs s ! bp))) s))
             (\<lambda>_ s. brelse bp s)) (\<lambda>_ s.
           obind (bzero 1 (BPB * j + bi) s) (\<lambda>_ s. Ret (BPB * j + bi) s))
       | None \<Rightarrow> obind (brelse bp s) (\<lambda>_ s. balloc_loop 1 sb bs s)"
  have o: "linv s" "?m \<notin> held s" "?m < length (memdisk s)"
    using ok j by (auto simp: alloc_ok_def fs_geo_def Let_def home_def)
  have "runs (bread 1 ?m s) (\<lambda>bp t. \<exists>u. txr s (view s) {} (held s) u \<and> ?k bp t = balloc_loop 1 sb bs u)"
  proof (rule tx_bread[OF o(1) can_read[OF o(1,3,2) cap]])
    fix bp t assume 1: "txr s (view s) {} (insert ?m (held s)) t" "holds t bp ?m"
      "data (bufs t ! bp) = view s ?m" "can_rel ?m (babs t)"
    have k: "?k bp t = obind (brelse bp t) (\<lambda>_ s. balloc_loop 1 sb bs s)"
      using group_full[OF full] by (simp add: 1(3))
    have "runs (brelse bp t) (\<lambda>_ u. txr s (view s) {} (held s) u)"
    proof (rule tx_brelse[OF txrD(2)[OF 1(1)] 1(2,4)])
      fix u assume 2: "txr t (view t) {} (held t - {?m}) u"
      show "txr s (view s) {} (held s) u"
        using txr_trans[OF 1(1) 2] txrD(3,5)[OF 1(1)] o(2) by auto
    qed
    then show "\<exists>u. txr s (view s) {} (held s) u \<and> ?k bp t = balloc_loop 1 sb bs u"
      unfolding k runs_iff by auto
  qed
  then obtain bp t u where "bread 1 ?m s = Ret bp t" "txr s (view s) {} (held s) u"
      "?k bp t = balloc_loop 1 sb bs u"
    unfolding runs_iff by blast
  then show ?thesis using sb by (intro exI[of _ u]) simp
qed

lemma groups_below:
  assumes "b < sz"
  shows "BPB * (b div BPB) < sz" "b div BPB < (sz + BPB - 1) div BPB"
proof -
  show "BPB * (b div BPB) < sz" using assms by (metis le_less_trans times_div_less_eq_dividend)
  have "b div BPB \<le> (sz - 1) div BPB" using assms by (intro div_le_mono) simp
  also have "\<dots> < (sz + BPB - 1) div BPB"
  proof -
    have "sz + BPB - 1 = (sz - 1) + BPB" using assms by simp
    moreover have "((sz - 1) + BPB) div BPB = (sz - 1) div BPB + 1"
      by (rule div_add_self2) (use BPB_pos in linarith)
    ultimately show ?thesis by (simp only: less_add_one)
  qed
  finally show "b div BPB < (sz + BPB - 1) div BPB" .
qed

lemma group_start_less: "j < (sz + BPB - 1) div BPB \<Longrightarrow> BPB * j < sz"
proof -
  assume "j < (sz + BPB - 1) div BPB"
  then have "Suc j * BPB \<le> sz + BPB - 1"
    by (metis BPB_pos Suc_leI less_eq_div_iff_mult_less_eq)
  moreover have "BPB \<ge> 1" using BPB_pos by linarith
  ultimately show ?thesis by (simp add: mult.commute)
qed

lemma balloc_loop_runs:
  assumes "alloc_ok s sz nin" "room s 2" "b < sz" "home s b" "b \<notin> held s" "b \<noteq> BBLOCK b nin"
    and "\<not> used nin (view s) b" "\<And>c. c < b \<Longrightarrow> used nin (view s) c"
    and "unat (sb_size sb) = sz" "unat (sb_ninodes sb) = nin"
    and "j \<le> b div BPB"
    and "\<And>t. txr s (alloc_view nin b (view s)) {BBLOCK b nin, b} (held s) t \<Longrightarrow> Q b t"
  shows "runs (balloc_loop 1 sb (map ((*) BPB) [j..<(sz + BPB - 1) div BPB]) s) Q"
  using assms
proof (induction "b div BPB - j" arbitrary: j s)
  case 0
  then have j: "b div BPB = j" by simp
  then have L: "map ((*) BPB) [j..<(sz + BPB - 1) div BPB] =
      BPB * j # map ((*) BPB) [Suc j..<(sz + BPB - 1) div BPB]"
    using groups_below(2)[OF \<open>b < sz\<close>] by (simp add: upt_conv_Cons)
  show ?case unfolding L
    by (rule balloc_hit_runs[OF 0(2,3) j 0(4-8) _ 0(10,11)]) (use 0(9,13) in blast)+
next
  case (Suc n)
  let ?G = "(sz + BPB - 1) div BPB"
  have j: "j < b div BPB" using Suc.hyps(2) by simp
  then have jG: "j < ?G" using groups_below(2)[OF \<open>b < sz\<close>] by simp
  have full: "used nin (view s) c" if "c div BPB = j" "c < sz" for c
  proof -
    have "c < b" using that(1) j by (metis div_le_mono leD le_less_linear)
    then show ?thesis using Suc.prems by blast
  qed
  have inv: "linv s" "card (held s) \<le> 1" using Suc.prems(1) by (auto simp: alloc_ok_def)
  have cap: "card (held s) + card (dirty s) < NBUF"
    using room_read[OF inv(1) room_mono[OF Suc.prems(2), of 1] inv(2)] by simp
  obtain t where t: "txr s (view s) {} (held s) t" "balloc_loop 1 sb (BPB * j # map ((*) BPB) [Suc j..<?G]) s =
      balloc_loop 1 sb (map ((*) BPB) [Suc j..<?G]) t"
    using balloc_miss_runs[OF Suc.prems(1) cap group_start_less[OF jG] full Suc.prems(9,10)] by blast
  have D: "view t = view s" "held t = held s" using txrD(3,5)[OF t(1)] by auto
  have "runs (balloc_loop 1 sb (map ((*) BPB) [Suc j..<?G]) t) Q"
  proof (rule Suc.hyps(1))
    show "n = b div BPB - Suc j" using Suc.hyps(2) by simp
    show "alloc_ok t sz nin" using alloc_ok_txr[OF t(1) _ Suc.prems(1)] by simp
    show "room t 2" using txr_room_same[OF t(1)] Suc.prems(2) by simp
    show "home t b" using Suc.prems(4) txr_home[OF t(1)] by simp
    fix u assume "txr t (alloc_view nin b (view t)) {BBLOCK b nin, b} (held t) u"
    from txr_trans[OF t(1) this] show "Q b u" using Suc.prems(12) D by simp
  qed (use Suc.prems D j in auto)
  then show ?case using t(2) jG by (simp add: upt_conv_Cons del: balloc_loop.simps)
qed

lemma balloc_runs:
  assumes ok: "alloc_ok s sz nin" and room: "room s 2"
    and b: "b < sz" "home s b" "b \<notin> held s" "b \<noteq> BBLOCK b nin"
      "\<not> used nin (view s) b" "\<And>c. c < b \<Longrightarrow> used nin (view s) c"
    and Q: "\<And>t. txr s (alloc_view nin b (view s)) {BBLOCK b nin, b} (held s) t \<Longrightarrow> Q b t"
  shows "runs (balloc 1 s) Q"
  unfolding balloc_def runs_obind
proof -
  have o: "linv s" "card (held s) \<le> 1" "1 \<notin> held s" "1 < length (memdisk s)"
      "unat (sb_size (dec_superblock (chunk 0 16 (view s 1)))) = sz"
      "unat (sb_ninodes (dec_superblock (chunk 0 16 (view s 1)))) = nin"
    using ok by (auto simp: alloc_ok_def fs_geo_def Let_def home_def)
  have cap: "card (held s) + card (dirty s) < NBUF"
    using room_read[OF o(1) room_mono[OF room, of 1] o(2)] by simp
  show "runs (readsb 1 s) (\<lambda>sb s. runs (balloc_loop 1 sb
      (map ((*) BPB) [0..<(unat (sb_size sb) + BPB - 1) div BPB]) s) Q)"
  proof (rule readsb_tx[OF o(1,4,3) cap], unfold o(5))
    fix t assume t: "txr s (view s) {} (held s) t"
    have D: "view t = view s" "held t = held s" using txrD(3,5)[OF t] by auto
    show "runs (balloc_loop 1 (dec_superblock (chunk 0 16 (view s 1)))
        (map ((*) BPB) [0..<(sz + BPB - 1) div BPB]) t) Q"
    proof (rule balloc_loop_runs[OF alloc_ok_txr[OF t refl ok]])
      show "room t 2" using txr_room_same[OF t] room by simp
      show "home t b" using b(2) txr_home[OF t] by simp
      fix u assume "txr t (alloc_view nin b (view t)) {BBLOCK b nin, b} (held t) u"
      from txr_trans[OF t this] show "Q b u" using Q D by simp
    qed (use b o D in auto)
  qed
qed

lemma same_map_bit: "BBLOCK b nin = BBLOCK c nin \<Longrightarrow> b mod BPB = c mod BPB \<Longrightarrow> b = c"
  unfolding BBLOCK_def by (metis add_right_cancel mult_div_mod_eq)

lemma used_alloc_view:
  assumes "length (V (BBLOCK b nin)) = BSIZE" "b \<noteq> BBLOCK c nin"
  shows "used nin (alloc_view nin b V) c \<longleftrightarrow> c = b \<or> used nin V c"
  using assms same_map_bit[of b nin c] bit_used_mark[of "b mod BPB" "c mod BPB" "V (BBLOCK b nin)"]
  by (cases "BBLOCK c nin = BBLOCK b nin") (auto simp: used_def alloc_view_def)

lemma used_free_view:
  assumes "length (V (BBLOCK b nin)) = BSIZE"
  shows "used nin (free_view nin b V) c \<longleftrightarrow> c \<noteq> b \<and> used nin V c"
  using assms same_map_bit[of b nin c] bit_used_clear[of "b mod BPB" "c mod BPB" "V (BBLOCK b nin)"]
  by (cases "BBLOCK c nin = BBLOCK b nin") (auto simp: used_def free_view_def)

lemma free_alloc_view:
  assumes "length (V (BBLOCK b nin)) = BSIZE" "b \<noteq> BBLOCK b nin" "\<not> used nin V b"
  shows "free_view nin b (alloc_view nin b V) = V(b := replicate BSIZE 0)"
  using assms clear_mark[of "b mod BPB" "V (BBLOCK b nin)"]
  by (auto simp: free_view_def alloc_view_def used_def fun_eq_iff)

lemma balloc_loop_full:
  assumes "alloc_ok s sz nin" "card (held s) + card (dirty s) < NBUF" "\<And>c. c < sz \<Longrightarrow> used nin (view s) c"
    and "unat (sb_size sb) = sz" "unat (sb_ninodes sb) = nin" "\<forall>j \<in> set js. BPB * j < sz"
  shows "balloc_loop 1 sb (map ((*) BPB) js) s = Panic ''balloc: out of blocks''"
  using assms
proof (induction js arbitrary: s)
  case (Cons j js)
  obtain t where t: "txr s (view s) {} (held s) t" "balloc_loop 1 sb (BPB * j # map ((*) BPB) js) s =
      balloc_loop 1 sb (map ((*) BPB) js) t"
    using balloc_miss_runs[OF Cons.prems(1,2), of j sb "map ((*) BPB) js"] Cons.prems by auto
  have D: "view t = view s" "held t = held s" "dirty t = dirty s" using txrD(3-5)[OF t(1)] by auto
  have "balloc_loop 1 sb (map ((*) BPB) js) t = Panic ''balloc: out of blocks''"
  proof (rule Cons.IH)
    show "alloc_ok t sz nin" using alloc_ok_txr[OF t(1) refl Cons.prems(1)] .
    show "\<And>c. c < sz \<Longrightarrow> used nin (view t) c" using Cons.prems(3) D by simp
  qed (use Cons.prems D in auto)
  then show ?case using t(2) by (simp del: balloc_loop.simps)
qed simp

lemma bfree_runs:
  assumes ok: "alloc_ok s sz nin" and room: "room s 1" and b: "b < sz" "used nin (view s) b"
    and Q: "\<And>t. txr s (free_view nin b (view s)) {BBLOCK b nin} (held s) t \<Longrightarrow> Q () t"
  shows "runs (bfree 1 b s) Q"
  unfolding bfree_def runs_obind[of "readsb _ _"]
proof -
  let ?m = "BBLOCK b nin"
  have o: "linv s" "card (held s) \<le> 1" "1 \<notin> held s" "1 < length (memdisk s)" "?m \<notin> held s"
      "home s ?m" "1 \<le> outstanding (log s)"
      "unat (sb_ninodes (dec_superblock (chunk 0 16 (view s 1)))) = nin"
    using ok b by (auto simp: alloc_ok_def fs_geo_def Let_def home_def)
  have cap: "card (held s) + card (dirty s) < NBUF" using room_read[OF o(1) room o(2)] .
  show "runs (readsb 1 s) (\<lambda>sb s. runs (obind (bread 1 (BBLOCK b (unat (sb_ninodes sb))) s) (\<lambda>bp s.
      let bi = b mod BPB in if \<not> bit_used (data (bufs s ! bp)) bi then Panic ''freeing free block''
       else obind (log_write bp (set_data bp (clear_bit bi (data (bufs s ! bp))) s))
         (\<lambda>_ s. brelse bp s))) Q)"
  proof (rule readsb_tx[OF o(1,4,3) cap], unfold o(8) runs_obind[of "bread _ _ _"])
    fix t assume t: "txr s (view s) {} (held s) t"
    have D: "view t = view s" "held t = held s" "dirty t = dirty s" "memdisk t = memdisk s"
      using txrD(3-6)[OF t] by auto
    have g: "can_get NBUF ?m (babs t)"
      using can_read[OF txrD(2)[OF t], of ?m] D o(5,6) cap by (simp add: home_def)
    show "runs (bread 1 ?m t) (\<lambda>bp s. runs (let bi = b mod BPB in
       if \<not> bit_used (data (bufs s ! bp)) bi then Panic ''freeing free block''
       else obind (log_write bp (set_data bp (clear_bit bi (data (bufs s ! bp))) s))
         (\<lambda>_ s. brelse bp s)) Q)"
    proof (rule tx_bread[OF txrD(2)[OF t] g])
      fix bp u assume 1: "txr t (view t) {} (insert ?m (held t)) u" "holds u bp ?m"
        "data (bufs u ! bp) = view t ?m"
      have len: "length (clear_bit (b mod BPB) (view s ?m)) = BSIZE"
        using view_size[OF o(1)] o(6) by (simp add: home_def)
      have "runs (obind (log_write bp (set_data bp (clear_bit (b mod BPB) (view s ?m)) u))
          (\<lambda>_ s. brelse bp s)) Q"
      proof (rule tx_modify[OF txrD(2)[OF 1(1)] 1(2) _ _ _ len])
        show "1 \<le> outstanding (log u)" using o(7) txrD(10)[OF 1(1)] txrD(10)[OF t] by simp
        show "room u 1" using txr_room_same[OF 1(1)] txr_room_same[OF t] room by simp
        show "home u ?m" using o(6) txr_home[OF 1(1)] txr_home[OF t] by simp
        fix v assume 2: "txr u ((view u)(?m := clear_bit (b mod BPB) (view s ?m))) {?m} (held u - {?m}) v"
        have "txr s (view t) ({} \<union> {}) (insert ?m (held t)) u"
          by (rule txr_trans[OF t 1(1)]) (use o(5) D in auto)
        from txr_trans[OF this 2] show "Q () v"
          using Q txrD(3,5)[OF 1(1)] D o(5) by (auto simp: free_view_def)
      qed
      then show "runs (let bi = b mod BPB in
         if \<not> bit_used (data (bufs u ! bp)) bi then Panic ''freeing free block''
         else obind (log_write bp (set_data bp (clear_bit bi (data (bufs u ! bp))) u))
           (\<lambda>_ s. brelse bp s)) Q"
        using b(2) D by (simp add: 1(3) used_def)
    qed
  qed
qed

end
