(* ===== verification/Fs_Inode.thy ===== *)
theory Fs_Inode
  imports Fs_Block
begin

text \<open>
  The inode layer of \<^verbatim>\<open>kernel/fs.c\<close>: the inode cache, allocation and update of inodes on
  disk, locking, the block map and file contents. An inode pointer is an index into
  \<open>icache.inode\<close>. A block that \<open>readi\<close> delivers is appended to the list of bytes it
  returns instead of being copied to \<open>dst\<close>; \<open>writei\<close> takes the bytes at \<open>src\<close>. The result
  \<open>None\<close> of both stands for \<open>-1\<close>. The device switch \<open>devsw\<close> is an argument: the read and
  write functions registered for a major number, where there are any.
\<close>

section \<open>State\<close>

definition NINODE :: nat where "NINODE = 50"
definition NDEV :: nat where "NDEV = 10"

datatype iflag = I_BUSY | I_VALID

record inode =
  ip_dev :: uint
  ip_inum :: nat
  ip_ref :: int
  ip_flags :: "iflag set"
  ip_type :: ushort
  ip_major :: ushort
  ip_minor :: ushort
  ip_nlink :: ushort
  ip_ownerid :: ushort
  ip_groupid :: ushort
  ip_mode :: uint
  ip_size :: uint
  ip_addrs :: "uint list"

record fsstate = lstate +
  icache :: "inode list"

record stat =
  st_type :: ushort
  st_dev :: uint
  st_ino :: nat
  st_nlink :: ushort
  st_ownerid :: ushort
  st_groupid :: ushort
  st_mode :: uint
  st_size :: uint

type_synonym 's devread = "nat \<Rightarrow> uint \<Rightarrow> 's \<Rightarrow> (uchar list option, 's) outcome"
type_synonym 's devwrite = "nat \<Rightarrow> uchar list \<Rightarrow> 's \<Rightarrow> (nat option, 's) outcome"

record 's devsw =
  dev_read :: "nat \<Rightarrow> 's devread option"
  dev_write :: "nat \<Rightarrow> 's devwrite option"

abbreviation inode_at :: "'a fsstate_scheme \<Rightarrow> nat \<Rightarrow> inode" where
  "inode_at s i \<equiv> icache s ! i"

definition upd_inode :: "nat \<Rightarrow> (inode \<Rightarrow> inode) \<Rightarrow> 'a fsstate_scheme \<Rightarrow> 'a fsstate_scheme" where
  "upd_inode i f s = s\<lparr>icache := (icache s)[i := f (icache s ! i)]\<rparr>"

section \<open>The inode cache\<close>

definition iget :: "uint \<Rightarrow> nat \<Rightarrow> 'a fsstate_scheme \<Rightarrow> (nat, 'a fsstate_scheme) outcome" where
  "iget d inum s =
     (case find_idx (\<lambda>ip. ip_ref ip > 0 \<and> ip_dev ip = d \<and> ip_inum ip = inum) (icache s) of
        Some i \<Rightarrow> Ret i (upd_inode i (ip_ref_update (\<lambda>r. r + 1)) s)
      | None \<Rightarrow>
          (case find_idx (\<lambda>ip. ip_ref ip = 0) (icache s) of
             None \<Rightarrow> Panic ''iget: no inodes''
           | Some i \<Rightarrow>
               Ret i (upd_inode i (\<lambda>ip. ip\<lparr>ip_dev := d, ip_inum := inum, ip_ref := 1,
                                          ip_flags := {}\<rparr>) s)))"

definition idup :: "nat \<Rightarrow> 'a fsstate_scheme \<Rightarrow> (nat, 'a fsstate_scheme) outcome" where
  "idup i s = Ret i (upd_inode i (ip_ref_update (\<lambda>r. r + 1)) s)"

text \<open>The fields that \<open>ilock\<close> copies from the disk inode, and those \<open>iupdate\<close> copies back.\<close>

definition load_inode :: "dinode \<Rightarrow> inode \<Rightarrow> inode" where
  "load_inode di ip =
     ip\<lparr>ip_type := di_type di, ip_major := di_major di, ip_minor := di_minor di,
        ip_nlink := di_nlink di, ip_size := di_size di, ip_ownerid := di_ownerid di,
        ip_groupid := di_groupid di, ip_mode := di_mode di, ip_addrs := di_addrs di\<rparr>"

definition store_inode :: "inode \<Rightarrow> dinode \<Rightarrow> dinode" where
  "store_inode ip di =
     di\<lparr>di_type := ip_type ip, di_major := ip_major ip, di_minor := ip_minor ip,
        di_nlink := ip_nlink ip, di_size := ip_size ip, di_mode := ip_mode ip,
        di_addrs := ip_addrs ip\<rparr>"

definition ilock :: "nat \<Rightarrow> 'a fsstate_scheme \<Rightarrow> (unit, 'a fsstate_scheme) outcome" where
  "ilock i s =
     (if ip_ref (inode_at s i) < 1 then Panic ''ilock''
      else if I_BUSY \<in> ip_flags (inode_at s i) then Sleep (ChInode i) s
      else
        let s = upd_inode i (ip_flags_update (insert I_BUSY)) s; ip = inode_at s i in
        if I_VALID \<in> ip_flags ip then Ret () s
        else
          obind (bread (ip_dev ip) (IBLOCK (ip_inum ip)) s) (\<lambda>bp s.
          let di = get_slot dec_dinode 64 (ip_inum ip mod IPB) (data (bufs s ! bp));
              s = upd_inode i (load_inode di) s in
          obind (brelse bp s) (\<lambda>_ s.
          let s = upd_inode i (ip_flags_update (insert I_VALID)) s in
          if ip_type (inode_at s i) = 0 then Panic ''ilock: no type'' else Ret () s)))"

definition iunlock :: "nat \<Rightarrow> 'a fsstate_scheme \<Rightarrow> (unit, 'a fsstate_scheme) outcome" where
  "iunlock i s =
     (if I_BUSY \<notin> ip_flags (inode_at s i) \<or> ip_ref (inode_at s i) < 1 then Panic ''iunlock''
      else Ret () (wakeup (ChInode i) (upd_inode i (ip_flags_update (\<lambda>f. f - {I_BUSY})) s)))"

section \<open>Inodes on disk\<close>

definition zero_dinode :: dinode where
  "zero_dinode = \<lparr>di_type = 0, di_major = 0, di_minor = 0, di_nlink = 0, di_ownerid = 0,
     di_groupid = 0, di_mode = 0, di_size = 0, di_addrs = replicate (NDIRECT + 1) 0\<rparr>"

primrec ialloc_loop :: "uint \<Rightarrow> ushort \<Rightarrow> nat list \<Rightarrow> 'a fsstate_scheme \<Rightarrow> (nat, 'a fsstate_scheme) outcome" where
  "ialloc_loop d ty [] s = Panic ''ialloc: no inodes''"
| "ialloc_loop d ty (inum # is) s =
     obind (bread d (IBLOCK inum) s) (\<lambda>bp s.
       if di_type (get_slot dec_dinode 64 (inum mod IPB) (data (bufs s ! bp))) = 0 then
         obind (obind (log_write bp (set_data bp (put_slot enc_dinode 64 (inum mod IPB)
             (zero_dinode\<lparr>di_type := ty\<rparr>) (data (bufs s ! bp))) s)) (\<lambda>_ s. brelse bp s)) (\<lambda>_ s.
         iget d inum s)
       else obind (brelse bp s) (\<lambda>_ s. ialloc_loop d ty is s))"

definition ialloc :: "uint \<Rightarrow> ushort \<Rightarrow> 'a fsstate_scheme \<Rightarrow> (nat, 'a fsstate_scheme) outcome" where
  "ialloc d ty s = obind (readsb d s) (\<lambda>sb s. ialloc_loop d ty [1..<unat (sb_ninodes sb)] s)"

definition iupdate :: "nat \<Rightarrow> 'a fsstate_scheme \<Rightarrow> (unit, 'a fsstate_scheme) outcome" where
  "iupdate i s =
     (let ip = inode_at s i in
      obind (bread (ip_dev ip) (IBLOCK (ip_inum ip)) s) (\<lambda>bp s.
      obind (log_write bp (set_data bp (let d = data (bufs s ! bp); k = ip_inum ip mod IPB in
          put_slot enc_dinode 64 k (store_inode ip (get_slot dec_dinode 64 k d)) d) s)) (\<lambda>_ s.
      brelse bp s)))"

section \<open>The block map\<close>

definition set_addr :: "nat \<Rightarrow> nat \<Rightarrow> nat \<Rightarrow> 'a fsstate_scheme \<Rightarrow> 'a fsstate_scheme" where
  "set_addr i k b = upd_inode i (ip_addrs_update (\<lambda>a. a[k := of_nat b]))"

text \<open>\<open>if((addr = ip->addrs[k]) == 0) ip->addrs[k] = addr = balloc(ip->dev)\<close>\<close>

definition addr_or_alloc :: "nat \<Rightarrow> nat \<Rightarrow> 'a fsstate_scheme \<Rightarrow> (nat, 'a fsstate_scheme) outcome" where
  "addr_or_alloc i k s =
     (let a = ip_addrs (inode_at s i) ! k in
      if a = 0 then obind (balloc (ip_dev (inode_at s i)) s) (\<lambda>b s. Ret b (set_addr i k b s))
      else Ret (unat a) s)"

definition bmap :: "nat \<Rightarrow> nat \<Rightarrow> 'a fsstate_scheme \<Rightarrow> (nat, 'a fsstate_scheme) outcome" where
  "bmap i bn s =
     (if bn < NDIRECT then addr_or_alloc i bn s
      else let bn = bn - NDIRECT in
      if bn < NINDIRECT then
        obind (addr_or_alloc i NDIRECT s) (\<lambda>addr s.
        obind (bread (ip_dev (inode_at s i)) addr s) (\<lambda>bp s.
        let a = get_slot unle32 4 bn (data (bufs s ! bp)) in
        if a = 0 then
          obind (balloc (ip_dev (inode_at s i)) s) (\<lambda>b s.
          obind (log_write bp (set_data bp (put_slot le32 4 bn (of_nat b) (data (bufs s ! bp))) s)) (\<lambda>_ s.
          obind (brelse bp s) (\<lambda>_ s. Ret b s)))
        else obind (brelse bp s) (\<lambda>_ s. Ret (unat a) s)))
      else Panic ''bmap: out of range'')"

definition itrunc_direct :: "nat \<Rightarrow> nat \<Rightarrow> 'a fsstate_scheme \<Rightarrow> (unit, 'a fsstate_scheme) outcome" where
  "itrunc_direct i k s =
     (let a = ip_addrs (inode_at s i) ! k in
      if a \<noteq> 0 then obind (bfree (ip_dev (inode_at s i)) (unat a) s) (\<lambda>_ s. Ret () (set_addr i k 0 s))
      else Ret () s)"

definition itrunc_indirect :: "nat \<Rightarrow> nat \<Rightarrow> nat \<Rightarrow> 'a fsstate_scheme \<Rightarrow> (unit, 'a fsstate_scheme) outcome" where
  "itrunc_indirect i bp j s =
     (let a = get_slot unle32 4 j (data (bufs s ! bp)) in
      if a \<noteq> 0 then bfree (ip_dev (inode_at s i)) (unat a) s else Ret () s)"

definition itrunc :: "nat \<Rightarrow> 'a fsstate_scheme \<Rightarrow> (unit, 'a fsstate_scheme) outcome" where
  "itrunc i s =
     obind (ofor [0..<NDIRECT] (itrunc_direct i) s) (\<lambda>_ s.
     obind (let a = ip_addrs (inode_at s i) ! NDIRECT in
       if a \<noteq> 0 then
         obind (bread (ip_dev (inode_at s i)) (unat a) s) (\<lambda>bp s.
         obind (ofor [0..<NINDIRECT] (itrunc_indirect i bp) s) (\<lambda>_ s.
         obind (brelse bp s) (\<lambda>_ s.
         obind (bfree (ip_dev (inode_at s i)) (unat a) s) (\<lambda>_ s.
         Ret () (set_addr i NDIRECT 0 s)))))
       else Ret () s) (\<lambda>_ s.
     iupdate i (upd_inode i (ip_size_update (\<lambda>_. 0)) s)))"

definition iput :: "nat \<Rightarrow> 'a fsstate_scheme \<Rightarrow> (unit, 'a fsstate_scheme) outcome" where
  "iput i s =
     (let ip = inode_at s i in
      obind (if ip_ref ip = 1 \<and> I_VALID \<in> ip_flags ip \<and> ip_nlink ip = 0 then
          if I_BUSY \<in> ip_flags ip then Panic ''iput busy''
          else
            obind (itrunc i (upd_inode i (ip_flags_update (insert I_BUSY)) s)) (\<lambda>_ s.
            obind (iupdate i (upd_inode i (ip_type_update (\<lambda>_. 0)) s)) (\<lambda>_ s.
            Ret () (wakeup (ChInode i) (upd_inode i (ip_flags_update (\<lambda>_. {})) s))))
        else Ret () s) (\<lambda>_ s.
      Ret () (upd_inode i (ip_ref_update (\<lambda>r. r - 1)) s)))"

definition iunlockput :: "nat \<Rightarrow> 'a fsstate_scheme \<Rightarrow> (unit, 'a fsstate_scheme) outcome" where
  "iunlockput i s = obind (iunlock i s) (\<lambda>_ s. iput i s)"

section \<open>File contents\<close>

definition stati :: "nat \<Rightarrow> 'a fsstate_scheme \<Rightarrow> stat" where
  "stati i s = (let ip = inode_at s i in
     \<lparr>st_type = ip_type ip, st_dev = ip_dev ip, st_ino = ip_inum ip, st_nlink = ip_nlink ip,
      st_ownerid = ip_ownerid ip, st_groupid = ip_groupid ip, st_mode = ip_mode ip,
      st_size = ip_size ip\<rparr>)"

lemma block_step_pos: "0 < n \<Longrightarrow> 0 < min n (BSIZE - off mod BSIZE)"
  by (simp add: BSIZE_def)

function readi_loop :: "nat \<Rightarrow> nat \<Rightarrow> nat \<Rightarrow> 'a fsstate_scheme \<Rightarrow> (uchar list, 'a fsstate_scheme) outcome" where
  "readi_loop i off n s =
     (if n = 0 then Ret [] s
      else
        let m = min n (BSIZE - off mod BSIZE) in
        obind (bmap i (off div BSIZE) s) (\<lambda>addr s.
        obind (bread (ip_dev (inode_at s i)) addr s) (\<lambda>bp s.
        let bs = chunk (off mod BSIZE) m (data (bufs s ! bp)) in
        obind (brelse bp s) (\<lambda>_ s.
        obind (readi_loop i (off + m) (n - m) s) (\<lambda>rest s. Ret (bs @ rest) s)))))"
  by pat_completeness auto
termination
  by (relation "measure (\<lambda>(i, off, n, s). n)") (use block_step_pos in auto)

declare readi_loop.simps [simp del]

definition readi :: "'a fsstate_scheme devsw \<Rightarrow> nat \<Rightarrow> uint \<Rightarrow> uint \<Rightarrow> 'a fsstate_scheme \<Rightarrow>
    (uchar list option, 'a fsstate_scheme) outcome" where
  "readi dv i off n s =
     (let ip = inode_at s i in
      if ip_type ip = T_DEV then
        if sint (ip_major ip) < 0 \<or> int NDEV \<le> sint (ip_major ip) then Ret None s
        else (case dev_read dv (unat (ip_major ip)) of
                None \<Rightarrow> Ret None s
              | Some f \<Rightarrow> f i n s)
      else if ip_size ip < off \<or> off + n < off then Ret None s
      else
        let n = (if ip_size ip < off + n then ip_size ip - off else n) in
        obind (readi_loop i (unat off) (unat n) s) (\<lambda>bs s. Ret (Some bs) s))"

function writei_loop :: "nat \<Rightarrow> nat \<Rightarrow> uchar list \<Rightarrow> 'a fsstate_scheme \<Rightarrow> (unit, 'a fsstate_scheme) outcome" where
  "writei_loop i off src s =
     (if src = [] then Ret () s
      else
        let m = min (length src) (BSIZE - off mod BSIZE) in
        obind (bmap i (off div BSIZE) s) (\<lambda>addr s.
        obind (bread (ip_dev (inode_at s i)) addr s) (\<lambda>bp s.
        obind (obind (log_write bp (set_data bp (patch (off mod BSIZE) (take m src) (data (bufs s ! bp))) s))
          (\<lambda>_ s. brelse bp s)) (\<lambda>_ s.
        writei_loop i (off + m) (drop m src) s))))"
  by pat_completeness auto
termination
proof (relation "measure (\<lambda>(i, off, src, s). length src)")
  fix i off m and src :: "uchar list" and s :: "'a fsstate_scheme" and x xa xb xc xd xe
  assume "src \<noteq> []" "m = min (length src) (BSIZE - off mod BSIZE)"
  then show "((i, off + m, drop m src, xe), i, off, src, s) \<in> measure (\<lambda>(i, off, src, s). length src)"
    using block_step_pos[of "length src" off] by simp
qed simp

declare writei_loop.simps [simp del]

definition writei :: "'a fsstate_scheme devsw \<Rightarrow> nat \<Rightarrow> uint \<Rightarrow> uchar list \<Rightarrow> 'a fsstate_scheme \<Rightarrow>
    (nat option, 'a fsstate_scheme) outcome" where
  "writei dv i off src s =
     (let ip = inode_at s i; n = of_nat (length src) :: uint in
      if ip_type ip = T_DEV then
        if sint (ip_major ip) < 0 \<or> int NDEV \<le> sint (ip_major ip) then Ret None s
        else (case dev_write dv (unat (ip_major ip)) of
                None \<Rightarrow> Ret None s
              | Some f \<Rightarrow> f i src s)
      else if ip_size ip < off \<or> off + n < off then Ret None s
      else if of_nat (MAXFILE * BSIZE) < off + n then Ret None s
      else
        obind (writei_loop i (unat off) src s) (\<lambda>_ s.
        obind (if 0 < n \<and> ip_size (inode_at s i) < off + n
               then iupdate i (upd_inode i (ip_size_update (\<lambda>_. off + n)) s)
               else Ret () s) (\<lambda>_ s.
        Ret (Some (length src)) s)))"

end
