(* ===== verification/KString.thy ===== *)
theory KString
  imports Prelude
begin

text \<open>
  The kernel's byte and string routines, \<^verbatim>\<open>kernel/string.c\<close>, and the string instructions of
  \<^verbatim>\<open>include/x86.h\<close> they use. The routines that may overlap with their source act on a
  memory, a function from addresses to bytes. The others read through a pointer, given
  as the function from an offset to the byte there, and return the bytes that they write
  from the start of their destination.
\<close>

type_synonym mem = "nat \<Rightarrow> uchar"
type_synonym cptr = "nat \<Rightarrow> uchar"

section \<open>Routines on memory\<close>

definition store_bytes :: "nat \<Rightarrow> uchar list \<Rightarrow> mem \<Rightarrow> mem" where
  "store_bytes a bs m = (\<lambda>x. if a \<le> x \<and> x < a + length bs then bs ! (x - a) else m x)"

definition load_bytes :: "nat \<Rightarrow> nat \<Rightarrow> mem \<Rightarrow> uchar list" where
  "load_bytes a n m = map (\<lambda>i. m (a + i)) [0..<n]"

primrec stosb :: "nat \<Rightarrow> uint \<Rightarrow> nat \<Rightarrow> mem \<Rightarrow> mem" where
  "stosb a d 0 m = m"
| "stosb a d (Suc cnt) m = stosb (Suc a) d cnt (m(a := ucast d))"

primrec stosl :: "nat \<Rightarrow> uint \<Rightarrow> nat \<Rightarrow> mem \<Rightarrow> mem" where
  "stosl a d 0 m = m"
| "stosl a d (Suc cnt) m = stosl (a + 4) d cnt (store_bytes a (le32 d) m)"

definition memset :: "nat \<Rightarrow> uint \<Rightarrow> nat \<Rightarrow> mem \<Rightarrow> mem" where
  "memset dst c n m =
     (if dst mod 4 = 0 \<and> n mod 4 = 0 then
        let c = c AND 0xFF in
        stosl dst (push_bit 24 c OR push_bit 16 c OR push_bit 8 c OR c) (n div 4) m
      else stosb dst c n m)"

text \<open>The two loops of \<open>memmove\<close>, with \<open>s\<close> and \<open>d\<close> the moving pointers.\<close>

primrec copy_up :: "nat \<Rightarrow> nat \<Rightarrow> nat \<Rightarrow> mem \<Rightarrow> mem" where
  "copy_up d s 0 m = m"
| "copy_up d s (Suc n) m = copy_up (Suc d) (Suc s) n (m(d := m s))"

primrec copy_down :: "nat \<Rightarrow> nat \<Rightarrow> nat \<Rightarrow> mem \<Rightarrow> mem" where
  "copy_down d s 0 m = m"
| "copy_down d s (Suc n) m = copy_down (d - 1) (s - 1) n (m(d - 1 := m (s - 1)))"

definition memmove :: "nat \<Rightarrow> nat \<Rightarrow> nat \<Rightarrow> mem \<Rightarrow> mem" where
  "memmove dst src n m =
     (if src < dst \<and> dst < src + n then copy_down (dst + n) (src + n) n m
      else copy_up dst src n m)"

definition memcpy :: "nat \<Rightarrow> nat \<Rightarrow> nat \<Rightarrow> mem \<Rightarrow> mem" where
  "memcpy dst src n m = memmove dst src n m"

section \<open>Routines on pointers\<close>

primrec memcmp_from :: "cptr \<Rightarrow> cptr \<Rightarrow> nat \<Rightarrow> nat \<Rightarrow> int" where
  "memcmp_from s1 s2 i 0 = 0"
| "memcmp_from s1 s2 i (Suc n) =
     (if s1 i \<noteq> s2 i then uint (s1 i) - uint (s2 i) else memcmp_from s1 s2 (Suc i) n)"

definition memcmp :: "cptr \<Rightarrow> cptr \<Rightarrow> nat \<Rightarrow> int" where
  "memcmp v1 v2 n = memcmp_from v1 v2 0 n"

primrec strncmp_from :: "cptr \<Rightarrow> cptr \<Rightarrow> nat \<Rightarrow> nat \<Rightarrow> int" where
  "strncmp_from p q i 0 = 0"
| "strncmp_from p q i (Suc n) =
     (if p i \<noteq> 0 \<and> p i = q i then strncmp_from p q (Suc i) n
      else uint (p i) - uint (q i))"

definition strncmp :: "cptr \<Rightarrow> cptr \<Rightarrow> nat \<Rightarrow> int" where
  "strncmp p q n = strncmp_from p q 0 n"

primrec strncpy_from :: "cptr \<Rightarrow> nat \<Rightarrow> nat \<Rightarrow> uchar list" where
  "strncpy_from t i 0 = []"
| "strncpy_from t i (Suc n) =
     (if t i \<noteq> 0 then t i # strncpy_from t (Suc i) n else 0 # replicate n 0)"

definition strncpy :: "cptr \<Rightarrow> int \<Rightarrow> uchar list" where
  "strncpy t n = strncpy_from t 0 (nat n)"

primrec safestrcpy_from :: "cptr \<Rightarrow> nat \<Rightarrow> nat \<Rightarrow> uchar list" where
  "safestrcpy_from t i 0 = [0]"
| "safestrcpy_from t i (Suc n) =
     (if t i \<noteq> 0 then t i # safestrcpy_from t (Suc i) n else [0, 0])"

definition safestrcpy :: "cptr \<Rightarrow> int \<Rightarrow> uchar list" where
  "safestrcpy t n = (if n \<le> 0 then [] else safestrcpy_from t 0 (nat (n - 1)))"

partial_function (option) strlen_from :: "cptr \<Rightarrow> nat \<Rightarrow> nat option" where
  [code]: "strlen_from s n = (if s n \<noteq> 0 then strlen_from s (Suc n) else Some n)"

definition strlen :: "cptr \<Rightarrow> nat option" where
  "strlen s = strlen_from s 0"

section \<open>C strings\<close>

text \<open>
  The C string at a pointer, cut at \<open>n\<close> bytes if no terminator comes before; and the
  pointer to an array of bytes, with zero bytes past its end.
\<close>

primrec cstr_from :: "cptr \<Rightarrow> nat \<Rightarrow> nat \<Rightarrow> uchar list" where
  "cstr_from p i 0 = []"
| "cstr_from p i (Suc n) = (if p i = 0 then [] else p i # cstr_from p (Suc i) n)"

definition cstr :: "nat \<Rightarrow> cptr \<Rightarrow> uchar list" where
  "cstr n p = cstr_from p 0 n"

definition ptr :: "uchar list \<Rightarrow> cptr" where
  "ptr xs = (\<lambda>i. if i < length xs then xs ! i else 0)"

lemma cstr_from_length: "length (cstr_from p i n) \<le> n"
  by (induction n arbitrary: i) (auto simp: le_SucI)

lemma cstr_from_no_nul: "0 \<notin> set (cstr_from p i n)"
  by (induction n arbitrary: i) auto

lemma cstr_from_ptr:
  "cstr_from (ptr xs) i n = takeWhile (\<lambda>c. c \<noteq> 0) (take n (drop i xs))"
proof (induction n arbitrary: i)
  case (Suc n)
  show ?case
  proof (cases "i < length xs")
    case True
    then show ?thesis using Suc by (simp add: ptr_def Cons_nth_drop_Suc[symmetric])
  qed (simp add: ptr_def)
qed simp

lemma cstr_ptr: "cstr n (ptr xs) = takeWhile (\<lambda>c. c \<noteq> 0) (take n xs)"
  by (simp add: cstr_def cstr_from_ptr)

section \<open>What the routines do\<close>

lemma stosb_fill:
  "stosb a d n m = (\<lambda>x. if a \<le> x \<and> x < a + n then ucast d else m x)"
  by (induction n arbitrary: a m) (auto intro!: ext)

lemma bit_0xFF: "bit (0xFF :: int) k \<longleftrightarrow> k < 8"
proof -
  have "(0xFF :: int) = mask 8" by (simp add: mask_eq_exp_minus_1)
  then show ?thesis by (simp only: bit_mask_iff) auto
qed

lemma le32_fill:
  assumes "i < 4"
  shows "le32 (push_bit 24 (c AND 0xFF) OR push_bit 16 (c AND 0xFF) OR push_bit 8 (c AND 0xFF)
    OR (c AND 0xFF)) ! i = ucast (c :: uint)"
proof (rule bit_word_eqI)
  fix k assume "k < LENGTH(8)"
  moreover have "i = 0 \<or> i = 1 \<or> i = 2 \<or> i = 3" using assms by linarith
  ultimately show "bit (le32 (push_bit 24 (c AND 0xFF) OR push_bit 16 (c AND 0xFF)
      OR push_bit 8 (c AND 0xFF) OR (c AND 0xFF)) ! i) k = bit (ucast c :: uchar) k"
    by (elim disjE) (auto simp: le32_def bit_simps bit_0xFF)
qed

lemma stosl_fill:
  assumes "\<And>i. i < 4 \<Longrightarrow> le32 d ! i = c"
  shows "stosl a d n m = (\<lambda>x. if a \<le> x \<and> x < a + 4 * n then c else m x)"
proof (induction n arbitrary: a m)
  case (Suc n)
  have "store_bytes a (le32 d) m = (\<lambda>x. if a \<le> x \<and> x < a + 4 then c else m x)"
    unfolding store_bytes_def by (rule ext) (auto intro: assms)
  with Suc show ?case by (auto intro!: ext)
qed (auto intro!: ext)

lemma memset_fill:
  "memset dst c n m = (\<lambda>x. if dst \<le> x \<and> x < dst + n then ucast c else m x)"
proof (cases "dst mod 4 = 0 \<and> n mod 4 = 0")
  case True
  then have "4 * (n div 4) = n" by auto
  with True show ?thesis
    unfolding memset_def Let_def by (simp only: if_True stosl_fill[OF le32_fill] simp_thms)
next
  case False
  then show ?thesis unfolding memset_def by (simp only: if_False stosb_fill)
qed

lemma copy_up_eq:
  "d \<le> s \<or> s + n \<le> d \<Longrightarrow>
   copy_up d s n m = (\<lambda>x. if d \<le> x \<and> x < d + n then m (s + (x - d)) else m x)"
proof (induction n arbitrary: d s m)
  case (Suc n)
  have "copy_up (Suc d) (Suc s) n (m(d := m s)) =
      (\<lambda>x. if Suc d \<le> x \<and> x < Suc d + n then (m(d := m s)) (Suc s + (x - Suc d)) else (m(d := m s)) x)"
    using Suc.prems by (intro Suc.IH) auto
  moreover have "Suc d \<le> x \<Longrightarrow> Suc s + (x - Suc d) = s + (x - d)" for x by simp
  ultimately show ?case using Suc.prems by (fastforce simp: not_less_eq_eq)
qed (auto intro!: ext)

lemma copy_down_eq:
  "s \<le> d \<Longrightarrow>
   copy_down (d + n) (s + n) n m = (\<lambda>x. if d \<le> x \<and> x < d + n then m (s + (x - d)) else m x)"
  by (induction n arbitrary: m) (auto intro!: ext simp: less_Suc_eq)

lemma memmove_copies:
  "memmove dst src n m = (\<lambda>x. if dst \<le> x \<and> x < dst + n then m (src + (x - dst)) else m x)"
  by (auto simp: memmove_def copy_down_eq copy_up_eq)

lemma memcmp_from_0: "memcmp_from s1 s2 i n = 0 \<longleftrightarrow> (\<forall>k < n. s1 (i + k) = s2 (i + k))"
proof (induction n arbitrary: i)
  case (Suc n)
  then show ?case by (auto simp: less_Suc_eq_0_disj word_uint_eq_iff)
qed simp

text \<open>
  The comparison of two C strings: the difference at the first position where they differ,
  a string that ends counting as having a zero byte there.
\<close>

fun cmp_bytes :: "uchar list \<Rightarrow> uchar list \<Rightarrow> int" where
  "cmp_bytes [] [] = 0"
| "cmp_bytes [] (y # ys) = - uint y"
| "cmp_bytes (x # xs) [] = uint x"
| "cmp_bytes (x # xs) (y # ys) = (if x = y then cmp_bytes xs ys else uint x - uint y)"

lemma strncmp_from_cmp: "strncmp_from p q i n = cmp_bytes (cstr_from p i n) (cstr_from q i n)"
  by (induction n arbitrary: i) auto

lemma cmp_bytes_0: "0 \<notin> set xs \<Longrightarrow> 0 \<notin> set ys \<Longrightarrow> cmp_bytes xs ys = 0 \<longleftrightarrow> xs = ys"
  by (induction xs ys rule: cmp_bytes.induct) (auto simp: word_uint_eq_iff)

lemma strncmp_eq_0: "strncmp p q n = 0 \<longleftrightarrow> cstr n p = cstr n q"
  by (simp add: strncmp_def strncmp_from_cmp cmp_bytes_0 cstr_from_no_nul cstr_def)

lemma strncpy_from_eq:
  "strncpy_from t i n = cstr_from t i n @ replicate (n - length (cstr_from t i n)) 0"
  by (induction n arbitrary: i) auto

lemma length_strncpy [simp]: "length (strncpy t n) = nat n"
  using cstr_from_length[of t 0 "nat n"] by (simp add: strncpy_def strncpy_from_eq)

lemma takeWhile_no_nul: "0 \<notin> set xs \<Longrightarrow> takeWhile (\<lambda>c. c \<noteq> 0) (xs @ replicate k 0) = (xs :: uchar list)"
  by (induction xs) (auto simp: takeWhile_replicate)

lemma cstr_strncpy: "cstr n (ptr (strncpy t (int n))) = cstr n t"
  using cstr_from_length[of t 0 n]
  by (simp add: cstr_ptr strncpy_def strncpy_from_eq takeWhile_no_nul cstr_from_no_nul)
    (simp add: cstr_def)

lemma strncmp_strncpy: "strncmp p (ptr (strncpy t (int n))) n = strncmp p t n"
  by (simp add: strncmp_def strncmp_from_cmp flip: cstr_def)
    (simp add: cstr_strncpy)

lemma safestrcpy_from_cstr:
  "\<exists>k \<le> 1. safestrcpy_from t i n = cstr_from t i n @ 0 # replicate k 0 \<and>
    length (safestrcpy_from t i n) \<le> Suc n"
proof (induction n arbitrary: i)
  case (Suc n)
  obtain k where "k \<le> 1" "safestrcpy_from t (Suc i) n = cstr_from t (Suc i) n @ 0 # replicate k 0"
    "length (safestrcpy_from t (Suc i) n) \<le> Suc n" using Suc by blast
  then show ?case
    by (cases "t i = 0") (auto intro: exI[of _ 1] exI[of _ k])
qed (auto intro: exI[of _ 0])

lemma strlen_from_eq:
  "(\<And>j. i \<le> j \<Longrightarrow> j < i + k \<Longrightarrow> s j \<noteq> 0) \<Longrightarrow> s (i + k) = 0 \<Longrightarrow> strlen_from s i = Some (i + k)"
proof (induction k arbitrary: i)
  case 0
  then show ?case by (simp add: strlen_from.simps[of s i])
next
  case (Suc k)
  have "strlen_from s (Suc i) = Some (Suc i + k)" using Suc.prems by (intro Suc.IH) auto
  then show ?case using Suc.prems(1)[of i] by (simp add: strlen_from.simps[of s i])
qed

lemma strlen_ptr: "0 \<notin> set xs \<Longrightarrow> strlen (ptr xs) = Some (length xs)"
  unfolding strlen_def using strlen_from_eq[of 0 "length xs" "ptr xs"]
  by (auto simp: ptr_def) (metis nth_mem)

section \<open>Properties\<close>

text \<open>
  C14: \<open>memmove\<close> is correct for overlapping regions: whatever the relation of source and
  destination, every destination byte gets the byte that the source held before the call
  and no other byte of memory changes.
\<close>

theorem memmove_correct:
  "memmove dst src n m x =
     (if dst \<le> x \<and> x < dst + n then m (src + (x - dst)) else m x)"
  by (simp add: memmove_copies)

text \<open>
  C15: \<open>memset\<close> gives the same memory on its word-at-a-time path and on its byte path: the low
  byte of \<open>c\<close> in each of the \<open>n\<close> bytes and nothing else changed.
\<close>

theorem memset_correct:
  "memset dst c n m = (\<lambda>x. if dst \<le> x \<and> x < dst + n then ucast c else m x)"
  by (rule memset_fill)

text \<open>
  C16: \<open>strncmp\<close> is zero exactly for equal strings (up to \<open>n\<close> bytes), and copying with
  \<open>strncpy\<close> keeps the result of every comparison; \<open>safestrcpy\<close> writes at most \<open>n\<close> bytes that
  hold the string, cut to \<open>n - 1\<close> bytes, and a terminator.
\<close>

theorem string_copies_compare:
  "(strncmp p q n = 0 \<longleftrightarrow> cstr n p = cstr n q)
   \<and> strncmp p (ptr (strncpy t (int n))) n = strncmp p t n
   \<and> length (strncpy t (int n)) = n
   \<and> length (safestrcpy t (int (Suc n))) \<le> Suc n
   \<and> cstr (Suc n) (ptr (safestrcpy t (int (Suc n)))) = cstr n t"
proof -
  obtain k where k: "safestrcpy_from t 0 n = cstr_from t 0 n @ 0 # replicate k 0"
    "length (safestrcpy_from t 0 n) \<le> Suc n"
    using safestrcpy_from_cstr[of t 0 n] by blast
  have "safestrcpy t (int (Suc n)) = cstr_from t 0 n @ replicate (Suc k) 0"
    using k(1) by (simp add: safestrcpy_def)
  moreover have "take (Suc n) (safestrcpy t (int (Suc n))) = safestrcpy t (int (Suc n))"
    using k by (simp add: safestrcpy_def)
  ultimately have "cstr (Suc n) (ptr (safestrcpy t (int (Suc n)))) = cstr n t"
    unfolding cstr_ptr by (simp only: takeWhile_no_nul cstr_from_no_nul cstr_def not_False_eq_True)
  then show ?thesis
    using k(2) by (simp add: strncmp_eq_0 strncmp_strncpy safestrcpy_def)
qed

end
