(* ===== verification/Fs_Dir.thy ===== *)
theory Fs_Dir
  imports Fs_Inode KString
begin

text \<open>
  Directories and path names, the last part of \<^verbatim>\<open>kernel/fs.c\<close>. A directory entry's name is
  the array of \<open>DIRSIZ\<close> bytes it has on disk. A path is the list of its bytes before the
  terminator; the buffer \<open>name\<close> that \<open>skipelem\<close> fills is \<open>DIRSIZ\<close> bytes that keep their old
  contents after a short element's terminator. The current directory of the process is an
  argument.
\<close>

section \<open>Directories\<close>

definition ROOTDEV :: uint where "ROOTDEV = 1"

definition namecmp :: "uchar list \<Rightarrow> uchar list \<Rightarrow> int" where
  "namecmp s t = strncmp (ptr s) (ptr t) DIRSIZ"

text \<open>Reading the entry at \<open>off\<close>, or the panic of both loops over a directory.\<close>

definition read_dirent :: "'a fsstate_scheme devsw \<Rightarrow> nat \<Rightarrow> nat \<Rightarrow> 'a fsstate_scheme \<Rightarrow> (dirent, 'a fsstate_scheme) outcome" where
  "read_dirent dv dp off s =
     obind (readi dv dp (of_nat off) 16 s) (\<lambda>r s.
     case r of
       Some bs \<Rightarrow> if length bs = 16 then Ret (dec_dirent bs) s else Panic ''dirlink read''
     | None \<Rightarrow> Panic ''dirlink read'')"

function dirlookup_from :: "'a fsstate_scheme devsw \<Rightarrow> nat \<Rightarrow> uchar list \<Rightarrow> nat \<Rightarrow> nat \<Rightarrow> 'a fsstate_scheme \<Rightarrow>
    ((nat \<times> nat) option, 'a fsstate_scheme) outcome" where
  "dirlookup_from dv dp name sz off s =
     (if off < sz then
        obind (read_dirent dv dp off s) (\<lambda>de s.
        if de_inum de \<noteq> 0 \<and> namecmp name (de_name de) = 0 then
          obind (iget (ip_dev (inode_at s dp)) (unat (de_inum de)) s) (\<lambda>ip s. Ret (Some (ip, off)) s)
        else dirlookup_from dv dp name sz (off + 16) s)
      else Ret None s)"
  by pat_completeness auto
termination
  by (relation "measure (\<lambda>(dv, dp, name, sz, off, s). sz - off)") auto

declare dirlookup_from.simps [simp del]

definition dirlookup :: "'a fsstate_scheme devsw \<Rightarrow> nat \<Rightarrow> uchar list \<Rightarrow> 'a fsstate_scheme \<Rightarrow>
    ((nat \<times> nat) option, 'a fsstate_scheme) outcome" where
  "dirlookup dv dp name s =
     (if ip_type (inode_at s dp) \<noteq> T_DIR then Panic ''dirlookup not DIR''
      else dirlookup_from dv dp name (unat (ip_size (inode_at s dp))) 0 s)"

function dirlink_slot :: "'a fsstate_scheme devsw \<Rightarrow> nat \<Rightarrow> nat \<Rightarrow> nat \<Rightarrow> 'a fsstate_scheme \<Rightarrow>
    (nat, 'a fsstate_scheme) outcome" where
  "dirlink_slot dv dp sz off s =
     (if off < sz then
        obind (read_dirent dv dp off s) (\<lambda>de s.
        if de_inum de = 0 then Ret off s else dirlink_slot dv dp sz (off + 16) s)
      else Ret off s)"
  by pat_completeness auto
termination
  by (relation "measure (\<lambda>(dv, dp, sz, off, s). sz - off)") auto

declare dirlink_slot.simps [simp del]

definition dirlink :: "'a fsstate_scheme devsw \<Rightarrow> nat \<Rightarrow> uchar list \<Rightarrow> nat \<Rightarrow> 'a fsstate_scheme \<Rightarrow>
    (bool, 'a fsstate_scheme) outcome" where
  "dirlink dv dp name inum s =
     obind (dirlookup dv dp name s) (\<lambda>r s.
     case r of
       Some (ip, _) \<Rightarrow> obind (iput ip s) (\<lambda>_ s. Ret False s)
     | None \<Rightarrow>
         obind (dirlink_slot dv dp (unat (ip_size (inode_at s dp))) 0 s) (\<lambda>off s.
         let de = \<lparr>de_inum = of_nat inum, de_name = strncpy (ptr name) (int DIRSIZ)\<rparr> in
         obind (writei dv dp (of_nat off) (enc_dirent de) s) (\<lambda>w s.
         if w = Some 16 then Ret True s else Panic ''dirlink'')))"

section \<open>Paths\<close>

abbreviation slash :: uchar where "slash \<equiv> 47"

definition skipelem :: "uchar list \<Rightarrow> uchar list \<Rightarrow> (uchar list \<times> uchar list) option" where
  "skipelem path name =
     (let path = dropWhile (\<lambda>c. c = slash) path in
      if path = [] then None
      else
        let elem = takeWhile (\<lambda>c. c \<noteq> slash) path;
            path = dropWhile (\<lambda>c. c \<noteq> slash) path;
            name = (if DIRSIZ \<le> length elem then patch 0 (take DIRSIZ elem) name
                    else patch 0 (elem @ [0]) name) in
        Some (dropWhile (\<lambda>c. c = slash) path, name))"

lemma skipelem_shorter:
  assumes "skipelem path name = Some (path', name')"
  shows "length path' < length path"
proof -
  let ?p = "dropWhile (\<lambda>c. c = slash) path"
  have ne: "?p \<noteq> []" and p': "path' = dropWhile (\<lambda>c. c = slash) (dropWhile (\<lambda>c. c \<noteq> slash) ?p)"
    using assms by (simp_all add: skipelem_def Let_def split: if_splits)
  have "hd ?p \<noteq> slash" using hd_dropWhile[OF ne] by simp
  with ne obtain c cs where c: "?p = c # cs" "c \<noteq> slash" by (cases ?p) simp_all
  from p' have "length path' \<le> length (dropWhile (\<lambda>c. c \<noteq> slash) cs)"
    using c by (simp add: length_dropWhile_le)
  also have "\<dots> \<le> length cs" by (rule length_dropWhile_le)
  also have "length cs < length path" using c(1) length_dropWhile_le[of "\<lambda>c. c = slash" path] by simp
  finally show ?thesis .
qed

function namex_loop :: "'a fsstate_scheme devsw \<Rightarrow> bool \<Rightarrow> uchar list \<Rightarrow> uchar list \<Rightarrow> nat \<Rightarrow> 'a fsstate_scheme \<Rightarrow>
    ((nat \<times> uchar list) option, 'a fsstate_scheme) outcome" where
  "namex_loop dv parent path name ip s =
     (case skipelem path name of
        None \<Rightarrow>
          if parent then obind (iput ip s) (\<lambda>_ s. Ret None s) else Ret (Some (ip, name)) s
      | Some (path', name') \<Rightarrow>
          obind (ilock ip s) (\<lambda>_ s.
          if ip_type (inode_at s ip) \<noteq> T_DIR then obind (iunlockput ip s) (\<lambda>_ s. Ret None s)
          else if parent \<and> path' = [] then obind (iunlock ip s) (\<lambda>_ s. Ret (Some (ip, name')) s)
          else
            obind (dirlookup dv ip name' s) (\<lambda>r s.
            case r of
              None \<Rightarrow> obind (iunlockput ip s) (\<lambda>_ s. Ret None s)
            | Some (nip, _) \<Rightarrow>
                obind (iunlockput ip s) (\<lambda>_ s. namex_loop dv parent path' name' nip s))))"
  by pat_completeness auto
termination
  by (relation "measure (\<lambda>(dv, parent, path, name, ip, s). length path)") (auto dest: skipelem_shorter)

declare namex_loop.simps [simp del]

definition namex :: "'a fsstate_scheme devsw \<Rightarrow> nat \<Rightarrow> uchar list \<Rightarrow> bool \<Rightarrow> uchar list \<Rightarrow> 'a fsstate_scheme \<Rightarrow>
    ((nat \<times> uchar list) option, 'a fsstate_scheme) outcome" where
  "namex dv cwd path parent name s =
     obind (if path \<noteq> [] \<and> hd path = slash then iget ROOTDEV ROOTINO s else idup cwd s) (\<lambda>ip s.
     namex_loop dv parent path name ip s)"

definition namei :: "'a fsstate_scheme devsw \<Rightarrow> nat \<Rightarrow> uchar list \<Rightarrow> 'a fsstate_scheme \<Rightarrow>
    (nat option, 'a fsstate_scheme) outcome" where
  "namei dv cwd path s =
     obind (namex dv cwd path False (replicate DIRSIZ 0) s) (\<lambda>r s. Ret (map_option fst r) s)"

definition nameiparent :: "'a fsstate_scheme devsw \<Rightarrow> nat \<Rightarrow> uchar list \<Rightarrow> uchar list \<Rightarrow> 'a fsstate_scheme \<Rightarrow>
    ((nat \<times> uchar list) option, 'a fsstate_scheme) outcome" where
  "nameiparent dv cwd path name s = namex dv cwd path True name s"

section \<open>Path elements\<close>

text \<open>The elements of a path, as a specification: the maximal runs of bytes other than \<open>/\<close>.\<close>

fun path_elems :: "uchar list \<Rightarrow> uchar list list" where
  "path_elems [] = []"
| "path_elems (c # cs) =
     (if c = slash then path_elems cs
      else case cs of
        [] \<Rightarrow> [[c]]
      | d # ds \<Rightarrow>
          if d = slash then [c] # path_elems cs
          else (case path_elems cs of [] \<Rightarrow> [[c]] | e # es \<Rightarrow> (c # e) # es))"

lemma path_elems_slashes: "path_elems (dropWhile (\<lambda>c. c = slash) p) = path_elems p"
  by (induction p) auto

lemma path_elems_run:
  "p \<noteq> [] \<Longrightarrow> hd p \<noteq> slash \<Longrightarrow>
   path_elems p = takeWhile (\<lambda>c. c \<noteq> slash) p # path_elems (dropWhile (\<lambda>c. c \<noteq> slash) p)"
proof (induction p)
  case (Cons c cs)
  then show ?case by (cases cs) auto
qed simp

definition elem_name :: "uchar list \<Rightarrow> uchar list \<Rightarrow> uchar list" where
  "elem_name e name = (if DIRSIZ \<le> length e then patch 0 (take DIRSIZ e) name else patch 0 (e @ [0]) name)"

lemma skipelem_elems:
  "skipelem path name =
     (case path_elems path of
        [] \<Rightarrow> None
      | e # es \<Rightarrow> Some (dropWhile (\<lambda>c. c = slash) (dropWhile (\<lambda>c. c \<noteq> slash) (dropWhile (\<lambda>c. c = slash) path)),
          elem_name e name))"
proof -
  let ?p = "dropWhile (\<lambda>c. c = slash) path"
  show ?thesis
  proof (cases "?p = []")
    case True
    then have "path_elems path = []" by (metis path_elems_slashes path_elems.simps(1))
    then show ?thesis using True by (simp add: skipelem_def)
  next
    case False
    have "hd ?p \<noteq> slash" using hd_dropWhile[OF False] by simp
    from path_elems_run[OF False this] show ?thesis
      using False by (simp add: skipelem_def Let_def elem_name_def path_elems_slashes)
  qed
qed

lemma skipelem_rest:
  "skipelem path name = Some (path', name') \<Longrightarrow> path_elems path = hd (path_elems path) # path_elems path'"
proof -
  let ?p = "dropWhile (\<lambda>c. c = slash) path"
  assume s: "skipelem path name = Some (path', name')"
  then have p: "?p \<noteq> []" "path' = dropWhile (\<lambda>c. c = slash) (dropWhile (\<lambda>c. c \<noteq> slash) ?p)"
    by (simp_all add: skipelem_def Let_def split: if_splits)
  have "hd ?p \<noteq> slash" using hd_dropWhile[OF p(1)] by simp
  from path_elems_run[OF p(1) this] show ?thesis by (simp add: p(2) path_elems_slashes)
qed

text \<open>What a name buffer holds after an element was copied to it: the element, cut to \<open>DIRSIZ\<close>.\<close>

lemma cstr_elem_name:
  assumes "length name = DIRSIZ" "0 \<notin> set e"
  shows "cstr DIRSIZ (ptr (elem_name e name)) = take DIRSIZ e" "length (elem_name e name) = DIRSIZ"
proof -
  have z: "takeWhile (\<lambda>c. c \<noteq> 0) xs = xs" if "0 \<notin> set xs" for xs :: "uchar list"
    using that by (metis (mono_tags, lifting) takeWhile_eq_all_conv)
  have t: "takeWhile (\<lambda>c. c \<noteq> 0) (xs @ 0 # ys) = xs" if "0 \<notin> set xs" for xs ys :: "uchar list"
    using that by (induction xs) auto
  show "length (elem_name e name) = DIRSIZ" using assms(1) by (simp add: elem_name_def)
  show "cstr DIRSIZ (ptr (elem_name e name)) = take DIRSIZ e"
  proof (cases "DIRSIZ \<le> length e")
    case True
    moreover have "0 \<notin> set (take DIRSIZ e)" using assms(2) by (meson in_set_takeD)
    ultimately show ?thesis using assms(1)
      by (simp add: elem_name_def patch_def cstr_ptr z)
  next
    case False
    then show ?thesis using assms
      by (simp add: elem_name_def patch_def cstr_ptr t)
  qed
qed

lemma path_elems_set: "\<forall>e \<in> set (path_elems p). set e \<subseteq> set p"
proof (induction p)
  case (Cons c cs)
  then have up: "\<forall>e \<in> set (path_elems cs). set e \<subseteq> insert c (set cs)" by blast
  show ?case
  proof (cases "c = slash \<or> cs = [] \<or> hd cs = slash")
    case True
    then show ?thesis using up by (cases cs) auto
  next
    case False
    then show ?thesis using up by (cases cs; cases "path_elems cs") auto
  qed
qed simp

section \<open>Properties\<close>

text \<open>
  C13: \<open>skipelem\<close> takes paths apart into their elements: it returns 0 exactly when the path has
  no element left; otherwise the name buffer holds the first element cut to \<open>DIRSIZ\<close> bytes,
  the rest has the remaining elements, is shorter, and has no leading slash.
\<close>

theorem skipelem_first_element:
  assumes "length name = DIRSIZ" "0 \<notin> set path"
  shows "case skipelem path name of
      None \<Rightarrow> path_elems path = []
    | Some (path', name') \<Rightarrow> (\<exists>e. path_elems path = e # path_elems path' \<and>
        cstr DIRSIZ (ptr name') = take DIRSIZ e \<and> length name' = DIRSIZ) \<and>
        length path' < length path \<and> (path' = [] \<or> hd path' \<noteq> slash)"
proof (cases "skipelem path name")
  case None
  then show ?thesis by (simp add: skipelem_elems split: list.splits)
next
  case (Some r)
  obtain path' name' where r: "r = (path', name')" by fastforce
  note s = Some[unfolded r]
  obtain e es where e: "path_elems path = e # es" using s by (auto simp: skipelem_elems split: list.splits)
  have n: "name' = elem_name e name"
    "path' = dropWhile (\<lambda>c. c = slash) (dropWhile (\<lambda>c. c \<noteq> slash) (dropWhile (\<lambda>c. c = slash) path))"
    using s by (simp_all add: skipelem_elems e)
  have "0 \<notin> set e" using path_elems_set[of path] e assms(2) by auto
  note c = cstr_elem_name[OF assms(1) this]
  have "path' = [] \<or> hd path' \<noteq> slash"
    using hd_dropWhile[of "\<lambda>c. c = slash"] unfolding n(2) by blast
  moreover have "es = path_elems path'" using skipelem_rest[OF s] e by simp
  ultimately show ?thesis using s e c skipelem_shorter[OF s] by (simp add: n(1))
qed

theorem skipelem_first_element_witness:
  "skipelem [47, 97, 47, 47, 98] (replicate 14 0) = Some ([98], 97 # replicate 13 0) \<and>
   path_elems [47, 97, 47, 47, 98] = [97] # path_elems [98]"
proof -
  have s: "skipelem [47, 97, 47, 47, 98] (replicate 14 0) = Some ([98], 97 # replicate 13 0)"
    by (simp add: skipelem_def patch_def DIRSIZ_def)
      (simp only: replicate_Suc[symmetric] numeral_eq_Suc pred_numeral_simps arith_simps)
  moreover have "\<exists>e. path_elems [47, 97, 47, 47, 98] = e # path_elems [98]"
    using skipelem_first_element[of "replicate 14 0" "[47, 97, 47, 47, 98]"] s
    by (auto simp: DIRSIZ_def)
  ultimately show ?thesis by simp
qed

end
