(* ===== verification/Log_Crash.thy ===== *)
theory Log_Crash
  imports Log
begin

text \<open>
  Recovery (\<open>initlog\<close>, \<open>recover_from_log\<close> of \<^verbatim>\<open>kernel/log.c\<close>) and crash safety. A
  crash keeps the disk as the writes made so far left it and loses everything else;
  the machine then boots with an empty cache and runs \<open>initlog\<close>. The writes of a
  commit are \<open>commit_writes\<close>, so a crash during it leaves the disk
  \<open>apply_writes D (take k (commit_writes s))\<close> for some \<open>k\<close>.
\<close>

section \<open>Booting\<close>

definition zero_buf :: buf where
  "zero_buf = \<lparr>flags = {}, dev = 0, blockno = 0, data = replicate BSIZE 0\<rparr>"

definition boot_state :: "block list \<Rightarrow> lstate" where
  "boot_state D = binit
     \<lparr>wakeq = [], memdisk = D, dwrites = [], bufs = replicate NBUF zero_buf, lru = [],
      log = \<lparr>lstart = 0, lsize = 0, outstanding = 0, committing = False, ldev = 0,
             lh = \<lparr>lh_n = 0, lh_block = replicate LOGSIZE 0\<rparr>\<rparr>\<rparr>"

lemma binit_eq:
  assumes "length (bufs s) = NBUF"
  shows "binit s = s\<lparr>bufs := map (dev_update (\<lambda>_. -1)) (bufs s), lru := rev [0..<NBUF]\<rparr>"
proof -
  let ?f = "\<lambda>s i. upd_buf i (dev_update (\<lambda>_. -1)) (s\<lparr>lru := i # lru s\<rparr>)"
  have "k \<le> NBUF \<Longrightarrow> foldl ?f (s\<lparr>lru := []\<rparr>) [0..<k] =
      s\<lparr>bufs := map (dev_update (\<lambda>_. -1)) (take k (bufs s)) @ drop k (bufs s), lru := rev [0..<k]\<rparr>" for k
  proof (induction k)
    case (Suc k)
    have "(map (dev_update (\<lambda>_. -1)) (take k (bufs s)) @ drop k (bufs s))
        [k := dev_update (\<lambda>_. -1) (bufs s ! k)] =
      map (dev_update (\<lambda>_. -1)) (take (Suc k) (bufs s)) @ drop (Suc k) (bufs s)"
      using Suc.prems assms
      by (simp add: list_update_append take_Suc_conv_app_nth Cons_nth_drop_Suc[symmetric])
    then show ?case
      using Suc assms by (simp add: upd_buf_def nth_append)
  qed simp
  from this[of NBUF] show ?thesis using assms by (simp add: binit_def)
qed

lemma binit_binv:
  assumes "length (bufs s) = NBUF" "\<forall>b \<in> set (bufs s). flags b = {} \<and> length (data b) = BSIZE"
    "\<forall>d \<in> set (memdisk s). length d = BSIZE"
  shows "binv (binit s)" "flagged F (binit s) = {}" "memdisk (binit s) = memdisk s"
    "view (binit s) n = memdisk s ! n" "bstate.more (binit s) = bstate.more s"
proof -
  have b: "flags (bufs (binit s) ! i) = {}" "dev (bufs (binit s) ! i) = -1"
    "length (data (bufs (binit s) ! i)) = BSIZE" if "i < NBUF" for i
    using that assms(1,2) by (auto simp: binit_eq)
  have len: "length (bufs (binit s)) = NBUF" using assms(1) by (simp add: binit_eq)
  show m: "memdisk (binit s) = memdisk s" "bstate.more (binit s) = bstate.more s"
    using assms(1) by (simp_all add: binit_eq)
  show "binv (binit s)"
    using b len m assms by (simp add: binv_def buf_ok_def bufs_unique_def) (auto simp: binit_eq)
  have "view (binit s) n = memdisk (binit s) ! n"
    by (rule view_uncached[OF len]) (use b in simp)
  then show "view (binit s) n = memdisk s ! n" using m by simp
  show "flagged F (binit s) = {}"
    using b flagged_iff[OF len] by auto
qed

lemma boot_state_laws:
  assumes "\<forall>d \<in> set D. length d = BSIZE"
  shows "binv (boot_state D)" "held (boot_state D) = {}" "dirty (boot_state D) = {}"
    "memdisk (boot_state D) = D" "view (boot_state D) n = D ! n"
    "lh_block (lh (log (boot_state D))) = replicate LOGSIZE 0" "dwrites (boot_state D) = []"
  unfolding boot_state_def using assms
  by (simp_all add: binit_binv zero_buf_def) (simp_all add: binit_eq)

section \<open>Recovery\<close>

definition clear_head :: "block \<Rightarrow> block" where
  "clear_head d = put_slot le32 4 0 0 d"

lemma put_head_zero: "lh_n h = 0 \<Longrightarrow> put_head h d = clear_head d"
  by (simp add: put_head_def clear_head_def)

lemma clear_head_laws:
  assumes "length d = BSIZE"
  shows "length (clear_head d) = BSIZE" "head_n (clear_head d) = 0"
  using put_head_laws(1,2)[of "\<lparr>lh_n = 0, lh_block = []\<rparr>" d] assms by (simp_all add: put_head_zero)

definition recovery_writes :: "block list \<Rightarrow> nat \<Rightarrow> (nat \<times> block) list" where
  "recovery_writes D st =
     map (\<lambda>i. (head_block (D ! st) i, D ! (st + i + 1))) [0..<head_n (D ! st)] @
     [(st, clear_head (D ! st))]"

text \<open>A disk whose log header at \<open>st\<close> can be replayed.\<close>

definition log_disk_ok :: "block list \<Rightarrow> nat \<Rightarrow> bool" where
  "log_disk_ok D st \<longleftrightarrow>
     (let n = head_n (D ! st) in
      (\<forall>d \<in> set D. length d = BSIZE) \<and> n \<le> LOGSIZE \<and> st + n < length D \<and>
      (\<forall>i < n. head_block (D ! st) i < length D \<and>
         (head_block (D ! st) i < st \<or> st + n < head_block (D ! st) i)))"

lemma readsb_runs:
  assumes "binv s" "can_get NBUF 1 (babs s)"
  shows "runs (readsb 1 s) (\<lambda>sb s'. sb = dec_superblock (chunk 0 16 (view s 1)) \<and> binv s' \<and>
    babs s' = babs s \<and> (\<forall>j m. holds s j m \<longrightarrow> holds s' j m))"
  unfolding readsb_def
  by (rule bc.peek[where k = "\<lambda>d. Ret (dec_superblock (chunk 0 16 d))", OF assms]) simp

lemma read_head_runs:
  assumes "binv s" "ldev (log s) = 1" "held s = {}" "dirty s = {}"
    "lstart (log s) < length (memdisk s)" "head_n (view s (lstart (log s))) \<le> LOGSIZE"
  shows "runs (read_head s) (\<lambda>_ s'. binv s' \<and> babs s' = (babs s)\<lparr>crest := bstate.more s'\<rparr> \<and>
    lstate.more s' = lstate.more s \<and>
    log s' = (let d = view s (lstart (log s)); n = head_n d in
      (log s)\<lparr>lh := \<lparr>lh_n = n,
        lh_block = map (head_block d) [0..<n] @ drop n (lh_block (lh (log s)))\<rparr>\<rparr>))"
  unfolding read_head_def runs_obind assms(2)
proof (rule bc.rd_wp[OF assms(1)])
  let ?st = "lstart (log s)"
  show "can_get NBUF ?st (babs s)" using assms by (simp add: can_get_def NBUF_def)
  fix i s1 assume 1: "binv s1" "holds s1 i ?st" "babs s1 = c_get ?st (babs s)"
    "data (bufs s1 ! i) = cview (babs s) ?st"
  have m: "bstate.more s1 = bstate.more s"
    using fields_of_babs(6)[OF 1(3)] by (simp add: c_get_def)
  have l: "log s1 = log s" and lm: "lstate.more s1 = lstate.more s"
    using more_log[OF m] more_lmore[OF m] by auto
  let ?l = "(log s)\<lparr>lh := \<lparr>lh_n = head_n (view s ?st), lh_block = map (head_block (view s ?st))
    [0..<head_n (view s ?st)] @ drop (head_n (view s ?st)) (lh_block (lh (log s)))\<rparr>\<rparr>"
  let ?s = "s1\<lparr>log := ?l\<rparr>"
  have "can_rel ?st (babs s)" using bc.clean_law[OF assms(1)] assms(3,5) by simp
  then have r: "can_rel ?st (babs ?s)"
    by (simp add: can_rel_def babs_set_lh 1(3) c_get_def del: babs_simps)
  have "runs (brelse i ?s) (\<lambda>_ s'. binv s' \<and> babs s' = (babs s)\<lparr>crest := bstate.more s'\<rparr> \<and>
      lstate.more s' = lstate.more s \<and> log s' = ?l)"
  proof (rule bc.rel_wp[OF _ _ r])
    fix s2 assume 2: "binv s2" "babs s2 = c_rel ?st (babs ?s)"
    have m2: "bstate.more s2 = bstate.more ?s"
      using fields_of_babs(6)[OF 2(2)] by (simp add: c_rel_def)
    have "babs s2 = (babs s)\<lparr>crest := bstate.more s2\<rparr>"
      using assms(3) by (simp add: 2(2) m2 babs_set_lh 1(3) c_get_def c_rel_def cache.equality)
    then show "binv s2 \<and> babs s2 = (babs s)\<lparr>crest := bstate.more s2\<rparr> \<and>
        lstate.more s2 = lstate.more s \<and> log s2 = ?l"
      using 2(1) more_log[OF m2] more_lmore[OF m2] lm by simp
  qed (use 1 in simp_all)
  then show "runs (let d = data (bufs s1 ! i); n = head_n d in
      if LOGSIZE < n then Fault
      else brelse i (s1\<lparr>log := (log s1)\<lparr>lh := \<lparr>lh_n = n, lh_block = map (head_block d) [0..<n] @
        drop n (lh_block (lh (log s1)))\<rparr>\<rparr>\<rparr>))
    (\<lambda>_ s'. binv s' \<and> babs s' = (babs s)\<lparr>crest := bstate.more s'\<rparr> \<and>
      lstate.more s' = lstate.more s \<and>
      log s' = (let d = view s ?st; n = head_n d in (log s)\<lparr>lh := \<lparr>lh_n = n,
        lh_block = map (head_block d) [0..<n] @ drop n (lh_block (lh (log s)))\<rparr>\<rparr>))"
    using 1(4) assms(6) l by (simp add: Let_def)
qed

text \<open>Recovery replays the header it finds and empties the log.\<close>

definition recovered :: "'a lstate_scheme \<Rightarrow> 'a lstate_scheme \<Rightarrow> bool" where
  "recovered s s' \<longleftrightarrow>
     binv s' \<and> held s' = {} \<and> dirty s' = {} \<and>
     memdisk s' = apply_writes (memdisk s) (recovery_writes (memdisk s) (lstart (log s))) \<and>
     dwrites s' = dwrites s @ recovery_writes (memdisk s) (lstart (log s)) \<and>
     (\<exists>bl. log s' = (log s)\<lparr>lh := \<lparr>lh_n = 0, lh_block = bl\<rparr>\<rparr> \<and>
        (length (lh_block (lh (log s))) = LOGSIZE \<longrightarrow> length bl = LOGSIZE)) \<and>
     lstate.more s' = lstate.more s"

lemma replay_runs:
  assumes s1: "binv s1" "ldev (log s1) = 1" "held s1 = {}" "dirty s1 = {}"
      "lstart (log s1) = st" "memdisk s1 = D" "\<And>n. n < length D \<Longrightarrow> view s1 n = D ! n"
    and h: "lh_n (lh (log s1)) = head_n (D ! st)"
      "\<And>i. i < head_n (D ! st) \<Longrightarrow> logged_block s1 i = head_block (D ! st) i"
    and ok: "log_disk_ok D st"
  shows "runs (obind (install_trans s1) (\<lambda>_ s. write_head (set_lh_n 0 s))) (\<lambda>_ s'. binv s' \<and>
    held s' = {} \<and> dirty s' = {} \<and> memdisk s' = apply_writes D (recovery_writes D st) \<and>
    dwrites s' = dwrites s1 @ recovery_writes D st \<and>
    log s' = (log s1)\<lparr>lh := (lh (log s1))\<lparr>lh_n := 0\<rparr>\<rparr> \<and> lstate.more s' = lstate.more s1)"
  unfolding runs_obind
proof -
  let ?n = "head_n (D ! st)"
  let ?W = "map (\<lambda>i. (head_block (D ! st) i, D ! (st + i + 1))) [0..<?n]"
  have ok': "st + ?n < length D" "?n \<le> LOGSIZE"
      "\<And>i. i < ?n \<Longrightarrow> head_block (D ! st) i < length D"
      "\<And>i. i < ?n \<Longrightarrow> head_block (D ! st) i < st \<or> st + ?n < head_block (D ! st) i"
    using ok by (auto simp: log_disk_ok_def Let_def)
  have hok: "header_ok s1" using s1 h ok' by (simp add: header_ok_def NBUF_def)
  have W: "installs s1 ?n = ?W" using h ok' s1 by (auto simp: installs_def)
  have I: "runs (install_trans s1) (\<lambda>_ s'. binv s' \<and> babs s' = c_store ?W (babs s1))"
    using install_trans_runs[OF hok] s1 h W by (simp add: NBUF_def)
  show "runs (install_trans s1) (\<lambda>_ s. runs (write_head (set_lh_n 0 s)) (\<lambda>_ s'. binv s' \<and>
      held s' = {} \<and> dirty s' = {} \<and> memdisk s' = apply_writes D (recovery_writes D st) \<and>
      dwrites s' = dwrites s1 @ recovery_writes D st \<and>
      log s' = (log s1)\<lparr>lh := (lh (log s1))\<lparr>lh_n := 0\<rparr>\<rparr> \<and> lstate.more s' = lstate.more s1))"
  proof (rule runs_mono[OF I], elim conjE)
    fix u s2 assume 2: "binv s2" "babs s2 = c_store ?W (babs s1)"
    note f = fields_of_babs[OF 2(2)]
    have m2: "bstate.more s2 = bstate.more s1" using f(6) by simp
    have l: "log s2 = log s1" by (rule more_log[OF m2])
    have "st \<notin> fst ` set ?W" using ok'(4) by fastforce
    then have v: "view s2 st = D ! st" using f(2) s1(7) ok'(1) by (simp add: cview_store_other)
    have "runs (write_head (set_lh_n 0 s2)) (\<lambda>_ s'. binv s' \<and>
        babs s' = c_store [(st, clear_head (D ! st))] (babs (set_lh_n 0 s2)))"
      using write_head_runs[of "set_lh_n 0 s2"] 2(1) l s1 f ok'(1) v by (simp add: NBUF_def put_head_zero)
    then show "runs (write_head (set_lh_n 0 s2)) (\<lambda>_ s'. binv s' \<and>
        held s' = {} \<and> dirty s' = {} \<and> memdisk s' = apply_writes D (recovery_writes D st) \<and>
        dwrites s' = dwrites s1 @ recovery_writes D st \<and>
        log s' = (log s1)\<lparr>lh := (lh (log s1))\<lparr>lh_n := 0\<rparr>\<rparr> \<and> lstate.more s' = lstate.more s1)"
    proof (rule runs_mono, elim conjE)
      fix u s3 assume 3: "binv s3" "babs s3 = c_store [(st, clear_head (D ! st))] (babs (set_lh_n 0 s2))"
      note g = fields_of_babs[OF 3(2)]
      have m3: "bstate.more s3 = bstate.more (set_lh_n 0 s2)" using g(6) by simp
      have "memdisk s3 = apply_writes D (recovery_writes D st)"
        using g(1) f(1) s1(6) unfolding recovery_writes_def apply_writes_append[of _ ?W] by simp
      then show "binv s3 \<and> held s3 = {} \<and> dirty s3 = {} \<and>
          memdisk s3 = apply_writes D (recovery_writes D st) \<and>
          dwrites s3 = dwrites s1 @ recovery_writes D st \<and>
          log s3 = (log s1)\<lparr>lh := (lh (log s1))\<lparr>lh_n := 0\<rparr>\<rparr> \<and> lstate.more s3 = lstate.more s1"
        using 3(1) g(3-5) f(3-5) s1(3,4) more_log[OF m3] more_lmore[OF m3] more_lmore[OF m2] l
        by (simp add: recovery_writes_def)
    qed
  qed
qed

lemma recover_runs:
  assumes inv: "binv s" "ldev (log s) = 1" "held s = {}" "dirty s = {}"
    and ok: "log_disk_ok (memdisk s) (lstart (log s))"
  shows "runs (recover_from_log s) (\<lambda>_ s'. recovered s s')"
proof -
  let ?st = "lstart (log s)" and ?D = "memdisk s"
  let ?n = "head_n (?D ! ?st)"
  have clean: "view s n = ?D ! n" if "n < length ?D" for n
    using bc.clean_law[OF inv(1)] that inv by (simp add: can_rel_def)
  have st: "?st < length ?D" "?n \<le> LOGSIZE" using ok by (auto simp: log_disk_ok_def Let_def)
  have RH: "runs (read_head s) (\<lambda>_ s'. binv s' \<and> babs s' = (babs s)\<lparr>crest := bstate.more s'\<rparr> \<and>
      lstate.more s' = lstate.more s \<and> log s' = (log s)\<lparr>lh := \<lparr>lh_n = ?n,
        lh_block = map (head_block (?D ! ?st)) [0..<?n] @ drop ?n (lh_block (lh (log s)))\<rparr>\<rparr>)"
    using read_head_runs[OF inv st(1)] st(2) clean[OF st(1)] by (simp add: Let_def)
  show ?thesis unfolding recover_from_log_def runs_obind[of "read_head s"]
  proof (rule runs_mono[OF RH], elim conjE)
    fix u s1 assume 1: "binv s1" "babs s1 = (babs s)\<lparr>crest := bstate.more s1\<rparr>"
      "lstate.more s1 = lstate.more s" "log s1 = (log s)\<lparr>lh := \<lparr>lh_n = ?n,
        lh_block = map (head_block (?D ! ?st)) [0..<?n] @ drop ?n (lh_block (lh (log s)))\<rparr>\<rparr>"
    note f = fields_of_babs[OF 1(2)]
    have "runs (obind (install_trans s1) (\<lambda>_ s. write_head (set_lh_n 0 s))) (\<lambda>_ s'. binv s' \<and>
        held s' = {} \<and> dirty s' = {} \<and> memdisk s' = apply_writes ?D (recovery_writes ?D ?st) \<and>
        dwrites s' = dwrites s1 @ recovery_writes ?D ?st \<and>
        log s' = (log s1)\<lparr>lh := (lh (log s1))\<lparr>lh_n := 0\<rparr>\<rparr> \<and> lstate.more s' = lstate.more s1)"
      using 1 f inv clean ok by (intro replay_runs) (simp_all add: nth_append)
    then show "runs (obind (install_trans s1) (\<lambda>_ s. write_head (set_lh_n 0 s)))
        (\<lambda>_ s'. recovered s s')"
      by (rule runs_mono) (use st(2) f(5) in \<open>auto simp: recovered_def 1\<close>)
  qed
qed

text \<open>The superblock at block 1 places the log.\<close>

definition sb_places_log :: "block list \<Rightarrow> nat \<Rightarrow> nat \<Rightarrow> bool" where
  "sb_places_log D st sz \<longleftrightarrow>
     (let sb = dec_superblock (chunk 0 16 (D ! 1)) in
      1 < length D \<and> unat (sb_size sb - sb_nlog sb) = st \<and> unat (sb_nlog sb) = sz)"

lemma boot_log:
  "log (boot_state D) = \<lparr>lstart = 0, lsize = 0, outstanding = 0, committing = False, ldev = 0,
     lh = \<lparr>lh_n = 0, lh_block = replicate LOGSIZE 0\<rparr>\<rparr>"
  by (simp add: boot_state_def binit_eq)

text \<open>The state right after \<open>initlog\<close> on a disk \<open>D\<close>.\<close>

definition booted :: "block list \<Rightarrow> nat \<Rightarrow> nat \<Rightarrow> lstate \<Rightarrow> bool" where
  "booted D st sz t \<longleftrightarrow>
     binv t \<and> held t = {} \<and> dirty t = {} \<and>
     memdisk t = apply_writes D (recovery_writes D st) \<and> dwrites t = recovery_writes D st \<and>
     (\<exists>bl. length bl = LOGSIZE \<and>
        log t = \<lparr>lstart = st, lsize = sz, outstanding = 0, committing = False, ldev = 1,
          lh = \<lparr>lh_n = 0, lh_block = bl\<rparr>\<rparr>)"

lemma initlog_runs:
  assumes sb: "sb_places_log D st sz" and ok: "log_disk_ok D st"
  shows "runs (initlog (boot_state D)) (\<lambda>_ t. booted D st sz t)"
proof -
  have bsz: "\<forall>d \<in> set D. length d = BSIZE" using ok by (simp add: log_disk_ok_def Let_def)
  note B = boot_state_laws[OF bsz]
  have "1 < length D" using sb by (simp add: sb_places_log_def Let_def)
  then have "can_get NBUF 1 (babs (boot_state D))" using B by (simp add: can_get_def NBUF_def)
  note R = readsb_runs[OF B(1) this]
  have small: "\<not> BSIZE \<le> 4 + 4 * LOGSIZE" by (simp add: BSIZE_def LOGSIZE_def MAXOPBLOCKS_def)
  show ?thesis unfolding initlog_def if_not_P[OF small] runs_obind
  proof (rule runs_mono[OF R], elim conjE)
    fix b s1 assume 1: "b = dec_superblock (chunk 0 16 (view (boot_state D) 1))" "binv s1"
      "babs s1 = babs (boot_state D)"
    note f = fields_of_babs[OF 1(3)]
    have m: "log s1 = log (boot_state D)" using more_log[of s1 "boot_state D"] f(6) by simp
    let ?s = "s1\<lparr>log := (log s1)\<lparr>lstart := unat (sb_size b - sb_nlog b),
      lsize := unat (sb_nlog b), ldev := 1\<rparr>\<rparr>"
    have st: "unat (sb_size b - sb_nlog b) = st" "unat (sb_nlog b) = sz"
      using sb 1(1) B(5) by (auto simp: sb_places_log_def Let_def)
    have "runs (recover_from_log ?s) (\<lambda>_ s'. recovered ?s s')"
      using 1(2) f B ok st by (intro recover_runs) simp_all
    then show "runs (recover_from_log ?s) (\<lambda>_ t. booted D st sz t)"
      by (rule runs_mono) (use f B st m in \<open>auto simp: recovered_def booted_def boot_log\<close>)
  qed
qed

section \<open>Crash safety\<close>

lemma commit_writes_keys:
  assumes "linv s"
  shows "fst ` set (commit_writes s) \<subseteq> dirty s \<union> {lstart (log s) .. lstart (log s) + lh_n (lh (log s))}"
  using linv_logged[OF assms] fst_log_copies[of s "lh_n (lh (log s))"]
  by (auto simp: commit_writes_def Let_def image_Un split: if_splits)

lemma apply_writes_sizes:
  assumes "\<forall>d \<in> set D. length d = BSIZE" "\<forall>(n, d) \<in> set W. length d = BSIZE"
  shows "\<forall>d \<in> set (apply_writes D W). length d = BSIZE"
  using assms
proof (induction W rule: rev_induct)
  case (snoc x W)
  obtain n d where x: "x = (n, d)" by force
  then show ?case using snoc set_update_subset_insert[of "apply_writes D W" n d] by auto
qed simp

lemma linv_sizes:
  assumes "linv s"
  shows "n < length (memdisk s) \<Longrightarrow> length (view s n) = BSIZE"
    "\<forall>(n, d) \<in> set (commit_writes s). length d = BSIZE"
proof -
  have b: "binv s" using assms by (simp add: linv_def Let_def)
  then show v: "n < length (memdisk s) \<Longrightarrow> length (view s n) = BSIZE" for n
    using bc.size_law[OF b] by simp
  have st: "lstart (log s) < length (memdisk s)" "lh_n (lh (log s)) \<le> LOGSIZE"
    using assms by (auto simp: linv_def Let_def)
  have "length (put_head (lh (log s)) (view s (lstart (log s)))) = BSIZE"
    using put_head_laws(1)[OF st(2) v[OF st(1)]] .
  then show "\<forall>(n, d) \<in> set (commit_writes s). length d = BSIZE"
    using v dirty_on_disk[OF b] linv_logged[OF assms] head_zero(2)
    by (auto simp: commit_writes_def Let_def log_copies_def split: if_splits)
qed

text \<open>The disk after a crash that let \<open>k\<close> writes of the commit of \<open>s\<close> through.\<close>

definition crash_disk :: "'a lstate_scheme \<Rightarrow> nat \<Rightarrow> block list" where
  "crash_disk s k = apply_writes (memdisk s) (take k (commit_writes s))"

lemma length_crash_disk [simp]: "length (crash_disk s k) = length (memdisk s)"
  by (simp add: crash_disk_def)

lemma crash_disk_sizes:
  assumes "linv s"
  shows "\<forall>d \<in> set (crash_disk s k). length d = BSIZE"
  unfolding crash_disk_def
proof (rule apply_writes_sizes)
  show "\<forall>d \<in> set (memdisk s). length d = BSIZE"
    using assms binvD(5)[of s] by (auto simp: linv_def Let_def)
  show "\<forall>(n, d) \<in> set (take k (commit_writes s)). length d = BSIZE"
    using linv_sizes(2)[OF assms] by (auto dest!: in_set_takeD)
qed

lemma crash_disk_other:
  assumes "linv s" "b \<notin> dirty s" "b < lstart (log s) \<or> lstart (log s) + lh_n (lh (log s)) < b"
  shows "crash_disk s k ! b = memdisk s ! b"
proof -
  have "fst ` set (take k (commit_writes s)) \<subseteq> fst ` set (commit_writes s)"
    by (intro image_mono set_take_subset)
  then have "b \<notin> fst ` set (take k (commit_writes s))"
    using commit_writes_keys[OF assms(1)] assms(2,3) by fastforce
  then show ?thesis unfolding crash_disk_def by (rule apply_writes_other)
qed

text \<open>Before the header is written the log on disk is still empty.\<close>

lemma crash_before:
  assumes inv: "linv s" and k: "k \<le> lh_n (lh (log s))"
  shows "head_n (crash_disk s k ! lstart (log s)) = 0"
    and "b < lstart (log s) \<or> lstart (log s) + lh_n (lh (log s)) < b \<Longrightarrow>
      crash_disk s k ! b = memdisk s ! b"
proof -
  let ?n = "lh_n (lh (log s))"
  have "take k (commit_writes s) = take k (log_copies s ?n)"
    using k by (auto simp: commit_writes_def Let_def log_copies_def)
  then have keys: "fst ` set (take k (commit_writes s)) \<subseteq> {lstart (log s) + 1 ..< lstart (log s) + 1 + ?n}"
    using fst_log_copies[of s ?n] by (metis image_mono set_take_subset)
  then have "crash_disk s k ! lstart (log s) = memdisk s ! lstart (log s)"
    unfolding crash_disk_def by (intro apply_writes_other) auto
  then show "head_n (crash_disk s k ! lstart (log s)) = 0"
    using inv by (simp add: linv_def Let_def)
  show "crash_disk s k ! b = memdisk s ! b"
    if "b < lstart (log s) \<or> lstart (log s) + lh_n (lh (log s)) < b"
    unfolding crash_disk_def using keys that by (intro apply_writes_other) fastforce
qed

text \<open>Between the two header writes the log on disk holds the whole transaction.\<close>

lemma crash_between:
  assumes inv: "linv s" and k: "lh_n (lh (log s)) < k" "k \<le> 2 * lh_n (lh (log s)) + 1"
    and pos: "lh_n (lh (log s)) > 0"
  shows "crash_disk s k ! lstart (log s) = put_head (lh (log s)) (view s (lstart (log s)))"
    and "i < lh_n (lh (log s)) \<Longrightarrow>
      crash_disk s k ! (lstart (log s) + i + 1) = view s (logged_block s i)"
proof -
  let ?n = "lh_n (lh (log s))" and ?st = "lstart (log s)"
  let ?d = "put_head (lh (log s)) (view s ?st)"
  let ?V = "take (k - ?n - 1) (map (\<lambda>i. (logged_block s i, view s (logged_block s i))) [0..<?n])"
  have len: "length (log_copies s ?n) = ?n" by (simp add: log_copies_def)
  have W: "take k (commit_writes s) = log_copies s ?n @ (?st, ?d) # ?V"
    using k pos len by (simp add: commit_writes_def Let_def take_Cons')
  have V: "fst ` set ?V \<subseteq> dirty s" using linv_logged[OF inv] by (auto dest!: in_set_takeD)
  have out: "?st + j \<notin> dirty s" "?st + j < length (memdisk s)" if "j \<le> ?n" for j
    using inv that unfolding linv_def Let_def by fastforce+
  show "crash_disk s k ! ?st = ?d"
    unfolding crash_disk_def W using V out[of 0] by (intro apply_writes_last) auto
  show "crash_disk s k ! (?st + i + 1) = view s (logged_block s i)" if i: "i < ?n"
  proof -
    have "?st + i + 1 \<notin> fst ` set ((?st, ?d) # ?V)" using V out(1)[of "Suc i"] i by auto
    then have "apply_writes (apply_writes (memdisk s) (log_copies s ?n)) ((?st, ?d) # ?V) ! (?st + i + 1) =
        apply_writes (memdisk s) (log_copies s ?n) ! (?st + i + 1)"
      by (rule apply_writes_other)
    also have "\<dots> = view s (logged_block s i)"
      using i out(2)[of "Suc i"] by (intro apply_writes_mem[OF distinct_log_copies])
        (auto simp: log_copies_def)
    finally show ?thesis by (simp add: crash_disk_def W apply_writes_append)
  qed
qed

text \<open>After the last write the log on disk is empty and every block is installed.\<close>

lemma crash_after:
  assumes inv: "linv s" and pos: "lh_n (lh (log s)) > 0" and k: "2 * lh_n (lh (log s)) + 1 < k"
  shows "head_n (crash_disk s k ! lstart (log s)) = 0"
    and "b \<in> dirty s \<Longrightarrow> crash_disk s k ! b = view s b"
proof -
  let ?n = "lh_n (lh (log s))" and ?st = "lstart (log s)"
  let ?d = "put_head (lh (log s)) (view s ?st)"
  let ?V = "map (\<lambda>i. (logged_block s i, view s (logged_block s i))) [0..<?n]"
  let ?W2 = "log_copies s ?n @ [(?st, ?d)]"
  let ?d0 = "put_head ((lh (log s))\<lparr>lh_n := 0\<rparr>) ?d"
  have W: "commit_writes s = (?W2 @ ?V) @ (?st, ?d0) # []"
    using pos by (simp add: commit_writes_def Let_def)
  have "length (commit_writes s) \<le> k" using k pos by (simp add: W log_copies_def)
  then have C: "crash_disk s k = apply_writes (memdisk s) ((?W2 @ ?V) @ (?st, ?d0) # [])"
    unfolding crash_disk_def W[symmetric] by simp
  have b: "binv s" "?st < length (memdisk s)" "?n \<le> LOGSIZE" "?st \<notin> dirty s"
    using inv unfolding linv_def Let_def by fastforce+
  have "crash_disk s k ! ?st = ?d0" unfolding C using b by (intro apply_writes_last) auto
  then show "head_n (crash_disk s k ! ?st) = 0"
    using head_zero(1)[OF put_head_laws(1)[OF b(3) linv_sizes(1)[OF inv b(2)]]] by simp
  show "crash_disk s k ! b = view s b" if bd: "b \<in> dirty s"
  proof -
    have dist: "distinct (map fst ?V)"
      using linv_inj[OF inv] by (auto simp: distinct_map inj_on_def comp_def)
    have mem: "(b, view s b) \<in> set ?V" using bd linv_dirty[OF inv] by auto
    have "apply_writes (apply_writes (memdisk s) ?W2) ?V ! b = view s b"
      using dist mem dirty_on_disk[OF b(1) bd] by (intro apply_writes_mem) auto
    moreover have "b \<noteq> ?st" using bd b(4) by auto
    ultimately show ?thesis
      unfolding C apply_writes_append[of _ "?W2 @ ?V"] apply_writes_append[of _ ?W2]
      by (simp add: apply_writes_other)
  qed
qed

section \<open>Recovery after a crash\<close>

lemma recovery_empty:
  "head_n (D ! st) = 0 \<Longrightarrow> b \<noteq> st \<Longrightarrow> apply_writes D (recovery_writes D st) ! b = D ! b"
  by (simp add: recovery_writes_def apply_writes_def)

lemma recovery_head:
  assumes "st < length D" "length (D ! st) = BSIZE"
  shows "head_n (apply_writes D (recovery_writes D st) ! st) = 0"
  using assms clear_head_laws(2) by (simp add: recovery_writes_def)

lemma recovery_full:
  assumes i: "i < head_n (D ! st)" and b: "head_block (D ! st) i < length D" "head_block (D ! st) i \<noteq> st"
    and inj: "\<And>j. j < head_n (D ! st) \<Longrightarrow> head_block (D ! st) j = head_block (D ! st) i \<Longrightarrow> j = i"
  shows "apply_writes D (recovery_writes D st) ! head_block (D ! st) i = D ! (st + i + 1)"
proof -
  let ?f = "\<lambda>i. (head_block (D ! st) i, D ! (st + i + 1))"
  have "[0..<head_n (D ! st)] = [0..<i] @ i # [Suc i..<head_n (D ! st)]"
    using i upt_add_eq_append[of 0 i "head_n (D ! st) - i"] upt_conv_Cons[of i] by simp
  then have W: "recovery_writes D st = map ?f [0..<i] @ ?f i #
      (map ?f [Suc i..<head_n (D ! st)] @ [(st, clear_head (D ! st))])"
    by (simp add: recovery_writes_def)
  have "head_block (D ! st) j \<noteq> head_block (D ! st) i" if "Suc i \<le> j" "j < head_n (D ! st)" for j
    using inj[OF that(2)] that(1) by auto
  then have "head_block (D ! st) i \<notin> fst ` set (map ?f [Suc i..<head_n (D ! st)] @
      [(st, clear_head (D ! st))])"
    using b(2) by force
  then show ?thesis unfolding W by (rule apply_writes_last[OF b(1)])
qed

lemma recovery_other:
  assumes "b \<noteq> st" "\<And>i. i < head_n (D ! st) \<Longrightarrow> head_block (D ! st) i \<noteq> b"
  shows "apply_writes D (recovery_writes D st) ! b = D ! b"
  using assms by (intro apply_writes_other) (force simp: recovery_writes_def)

text \<open>What recovery makes of the home blocks, for every crash point of a commit.\<close>

lemma crash_recovered:
  assumes inv: "linv s" and idle: "held s = {}"
    and home: "b < lstart (log s) \<or> lstart (log s) + lsize (log s) \<le> b" and b: "b < length (memdisk s)"
    and k: "k \<le> length (commit_writes s)"
  shows "log_disk_ok (crash_disk s k) (lstart (log s))"
    "apply_writes (crash_disk s k) (recovery_writes (crash_disk s k) (lstart (log s))) ! b =
      (if k \<le> lh_n (lh (log s)) then memdisk s ! b else view s b)"
proof -
  let ?n = "lh_n (lh (log s))" and ?st = "lstart (log s)" and ?D = "crash_disk s k"
  have l: "binv s" "?st + ?n < length (memdisk s)" "?n \<le> LOGSIZE" "?n < lsize (log s)"
    "length (memdisk s) \<le> 2 ^ 32"
    using inv by (auto simp: linv_def Let_def)
  have ne: "b \<noteq> ?st" "b < ?st \<or> ?st + ?n < b" using home l(4) by auto
  have clean: "view s b = memdisk s ! b" if "b \<notin> dirty s"
    using bc.clean_law[OF l(1), of b] that b idle by (simp add: can_rel_def)
  note sz = crash_disk_sizes[OF inv, of k]
  consider (before) "k \<le> ?n" | (between) "?n < k" "k \<le> 2 * ?n + 1" "0 < ?n"
    | (after) "2 * ?n + 1 < k" "0 < ?n"
    using k by (cases "?n = 0") (auto simp: commit_writes_def Let_def, linarith)
  then have "log_disk_ok ?D ?st \<and> apply_writes ?D (recovery_writes ?D ?st) ! b =
      (if k \<le> ?n then memdisk s ! b else view s b)"
  proof cases
    case before
    then show ?thesis
      using crash_before[OF inv before] ne sz l(2) recovery_empty[of ?D ?st b]
      by (simp add: log_disk_ok_def Let_def)
  next
    case after
    have h: "head_n (?D ! ?st) = 0" by (rule crash_after(1)[OF inv after(2,1)])
    have "?D ! b = view s b"
      using crash_after(2)[OF inv after(2,1)] crash_disk_other[OF inv _ ne(2)] clean
      by (cases "b \<in> dirty s") auto
    then show ?thesis
      using after h ne sz l(2) recovery_empty[of ?D ?st b] by (simp add: log_disk_ok_def Let_def)
  next
    case between
    note C = crash_between[OF inv between]
    have lb: "logged_block s i < 2 ^ 32" "logged_block s i < length (memdisk s)" if "i < ?n" for i
      using dirty_on_disk[OF l(1) linv_logged[OF inv that]] l(5) by auto
    have vst: "length (view s ?st) = BSIZE" using linv_sizes(1)[OF inv] l(2) by simp
    have hn: "head_n (?D ! ?st) = ?n" using put_head_laws(2)[OF l(3) vst] C(1) by simp
    have hb: "head_block (?D ! ?st) i = logged_block s i" if "i < ?n" for i
      using put_head_laws(3)[OF l(3) vst that lb(1)[OF that]] C(1) by simp
    have out: "logged_block s i < ?st \<or> ?st + ?n < logged_block s i" if "i < ?n" for i
      using linv_header_ok[OF inv idle] that by (simp add: header_ok_def)
    have ok: "log_disk_ok ?D ?st" using hn hb sz l lb out by (simp add: log_disk_ok_def Let_def)
    have "apply_writes ?D (recovery_writes ?D ?st) ! b = view s b"
    proof (cases "b \<in> dirty s")
      case True
      then obtain i where i: "i < ?n" "b = logged_block s i" using linv_dirty[OF inv] by auto
      then show ?thesis
        using recovery_full[of i ?D ?st] hn hb ne lb(2) C(2) linv_inj[OF inv] by simp
    next
      case False
      then show ?thesis
        using recovery_other[OF ne(1), of ?D] hn hb linv_logged[OF inv]
          crash_disk_other[OF inv False ne(2)] clean by auto
    qed
    then show ?thesis using ok between by simp
  qed
  then show "log_disk_ok ?D ?st" "apply_writes ?D (recovery_writes ?D ?st) ! b =
      (if k \<le> ?n then memdisk s ! b else view s b)" by auto
qed

section \<open>A concrete transaction\<close>

text \<open>
  A six-block disk whose log occupies the blocks from 3 on, and a state in which an
  operation has rewritten block 2 in the cache and left it in the log.
\<close>

definition ex_disk :: "block list" where
  "ex_disk = [replicate BSIZE 0,
     patch 0 (enc_superblock \<lparr>sb_size = 6, sb_nblocks = 1, sb_ninodes = 8, sb_nlog = 3\<rparr>) (replicate BSIZE 0),
     replicate BSIZE 0, replicate BSIZE 0, replicate BSIZE 0, replicate BSIZE 0]"

definition ex_state :: lstate where
  "ex_state =
     \<lparr>wakeq = [], memdisk = ex_disk, dwrites = [],
      bufs = \<lparr>flags = {B_VALID, B_DIRTY}, dev = 1, blockno = 2, data = replicate BSIZE 7\<rparr> #
        replicate 29 \<lparr>flags = {}, dev = -1, blockno = 0, data = replicate BSIZE 0\<rparr>,
      lru = [0..<NBUF],
      log = \<lparr>lstart = 3, lsize = 3, outstanding = 1, committing = False, ldev = 1,
        lh = \<lparr>lh_n = 1, lh_block = 2 # replicate 29 0\<rparr>\<rparr>\<rparr>"

lemma chunk_patch_0: "length ys = n \<Longrightarrow> n \<le> length xs \<Longrightarrow> chunk 0 n (patch 0 ys xs) = ys"
  using chunk_patch_same[of 0 ys xs] by simp

lemma ex_sizes: "\<forall>d \<in> set ex_disk. length d = BSIZE" "length ex_disk = 6"
  by (simp_all add: ex_disk_def BSIZE_def enc_superblock_def)

lemma ex_sb: "sb_places_log ex_disk 3 3"
  by (simp add: sb_places_log_def Let_def ex_disk_def sb.length_enc chunk_patch_0 BSIZE_def
      sb.dec_enc)

lemma ex_head: "head_n (replicate BSIZE 0) = 0"
  by (simp add: head_n_def get_slot_def chunk_def BSIZE_def unle32_def)

lemma ex_binv: "binv ex_state"
  using ex_sizes
  by (auto simp: binv_def buf_ok_def bufs_unique_def ex_state_def nth_Cons' NBUF_def)

lemma ex_flags: "held ex_state = {}" "dirty ex_state = {2}"
proof -
  have "{b \<in> set (bufs ex_state). B_BUSY \<in> flags b} = {}"
    "{b \<in> set (bufs ex_state). B_DIRTY \<in> flags b} = {hd (bufs ex_state)}"
    by (auto simp: ex_state_def)
  then show "held ex_state = {}" "dirty ex_state = {2}"
    by (simp_all add: flagged_def) (simp add: ex_state_def)
qed

lemma ex_linv: "linv ex_state"
  using ex_binv ex_flags ex_sizes(2) ex_head
  by (simp add: linv_def Let_def) (simp add: ex_state_def LOGSIZE_def MAXOPBLOCKS_def NBUF_def ex_disk_def)


section \<open>Properties\<close>

lemma booted_linv:
  assumes "booted D st sz t" "log_disk_ok D st" "st + sz \<le> length D" "0 < sz" "sz \<le> NBUF"
    "length D \<le> 2 ^ 32"
  shows "linv t"
proof -
  have "length (D ! st) = BSIZE" using assms(2-4) by (simp add: log_disk_ok_def Let_def)
  then have "head_n (apply_writes D (recovery_writes D st) ! st) = 0"
    using assms(3,4) by (intro recovery_head) auto
  then show ?thesis using assms by (auto simp: booted_def linv_def Let_def)
qed

text \<open>
  C1. Crash atomicity of a commit. Whatever prefix of the disk writes of \<open>commit\<close>
  reaches the disk before a crash, the boot that follows (\<open>initlog\<close> on an empty cache)
  succeeds, leaves a well-formed empty log, and every block outside the log area
  then has its contents from before the transaction (crash before the header write)
  or its contents from after it (crash at or after the header write): never a mixture.
\<close>

theorem commit_crash_atomic:
  assumes "linv s" "held s = {}" "1 \<notin> dirty s" "1 < lstart (log s)"
    and "sb_places_log (memdisk s) (lstart (log s)) (lsize (log s))"
  shows "runs (commit s) (\<lambda>_ c. \<exists>W. dwrites c = dwrites s @ W \<and> memdisk c = apply_writes (memdisk s) W \<and>
    (\<forall>k \<le> length W. runs (initlog (boot_state (apply_writes (memdisk s) (take k W)))) (\<lambda>_ t.
       linv t \<and> lh_n (lh (log t)) = 0 \<and>
       (\<forall>b < length (memdisk s). b < lstart (log s) \<or> lstart (log s) + lsize (log s) \<le> b \<longrightarrow>
          memdisk t ! b = (if k \<le> lh_n (lh (log s)) then memdisk s ! b else view s b)))))"
proof (rule runs_mono[OF commit_runs[OF assms(1,2)]], intro exI[of _ "commit_writes s"] conjI allI impI)
  let ?st = "lstart (log s)" and ?sz = "lsize (log s)"
  fix u c assume c: "committed s c"
  show "dwrites c = dwrites s @ commit_writes s" "memdisk c = apply_writes (memdisk s) (commit_writes s)"
    using c by (simp_all add: committed_def)
  fix k assume k: "k \<le> length (commit_writes s)"
  have l: "?st + ?sz \<le> length (memdisk s)" "0 < ?sz" "?sz \<le> NBUF" "length (memdisk s) \<le> 2 ^ 32"
    using assms(1) by (auto simp: linv_def Let_def)
  have ok: "log_disk_ok (crash_disk s k) ?st"
    using crash_recovered(1)[OF assms(1,2) _ _ k, of 1] assms(4) l(1) by linarith
  have "crash_disk s k ! 1 = memdisk s ! 1"
    using assms by (intro crash_disk_other) auto
  then have sb: "sb_places_log (crash_disk s k) ?st ?sz"
    using assms(5) by (simp add: sb_places_log_def)
  show "runs (initlog (boot_state (apply_writes (memdisk s) (take k (commit_writes s))))) (\<lambda>_ t.
       linv t \<and> lh_n (lh (log t)) = 0 \<and>
       (\<forall>b < length (memdisk s). b < ?st \<or> ?st + ?sz \<le> b \<longrightarrow>
          memdisk t ! b = (if k \<le> lh_n (lh (log s)) then memdisk s ! b else view s b)))"
    unfolding crash_disk_def[symmetric]
  proof (rule runs_mono[OF initlog_runs[OF sb ok]], intro conjI allI impI)
    fix u t assume t: "booted (crash_disk s k) ?st ?sz t"
    show "linv t" using booted_linv[OF t ok] l by simp
    show "lh_n (lh (log t)) = 0" using t by (auto simp: booted_def)
    fix b assume "b < length (memdisk s)" "b < ?st \<or> ?st + ?sz \<le> b"
    then show "memdisk t ! b = (if k \<le> lh_n (lh (log s)) then memdisk s ! b else view s b)"
      using crash_recovered(2)[OF assms(1,2) _ _ k] t by (simp add: booted_def)
  qed
qed

theorem commit_crash_atomic_witness:
  "linv ex_state \<and> held ex_state = {} \<and> dirty ex_state = {2} \<and>
   runs (commit ex_state) (\<lambda>_ c. \<exists>W. dwrites c = W \<and> memdisk c = apply_writes ex_disk W \<and>
    (\<forall>k \<le> length W. runs (initlog (boot_state (apply_writes ex_disk (take k W)))) (\<lambda>_ t.
       linv t \<and> memdisk t ! 2 = replicate BSIZE (if k \<le> 1 then 0 else 7))))"
proof -
  have v: "view ex_state 2 = replicate BSIZE 7"
    by (simp add: view_def ex_state_def)
  have s: "lstart (log ex_state) = 3" "lsize (log ex_state) = 3" "lh_n (lh (log ex_state)) = 1"
    "memdisk ex_state = ex_disk" "dwrites ex_state = []" "ex_disk ! 2 = replicate BSIZE 0"
    by (simp_all add: ex_state_def ex_disk_def)
  have "runs (commit ex_state) (\<lambda>_ c. \<exists>W. dwrites c = W \<and> memdisk c = apply_writes ex_disk W \<and>
    (\<forall>k \<le> length W. runs (initlog (boot_state (apply_writes ex_disk (take k W)))) (\<lambda>_ t.
       linv t \<and> lh_n (lh (log t)) = 0 \<and> (\<forall>b < 6. b < 3 \<or> 3 + 3 \<le> b \<longrightarrow>
         memdisk t ! b = (if k \<le> 1 then ex_disk ! b else view ex_state b)))))"
    using commit_crash_atomic[of ex_state, unfolded s ex_sizes(2) append_Nil] ex_linv ex_flags ex_sb
    by simp
  then have "runs (commit ex_state) (\<lambda>_ c. \<exists>W. dwrites c = W \<and> memdisk c = apply_writes ex_disk W \<and>
    (\<forall>k \<le> length W. runs (initlog (boot_state (apply_writes ex_disk (take k W)))) (\<lambda>_ t.
       linv t \<and> memdisk t ! 2 = replicate BSIZE (if k \<le> 1 then 0 else 7))))"
    by (rule runs_mono) (use v s(6) in \<open>fastforce elim!: runs_mono\<close>)
  then show ?thesis using ex_linv ex_flags by simp
qed

lemma apply_writes_redo: "apply_writes (apply_writes D (take k W)) W = apply_writes D W"
proof (rule nth_equalityI)
  fix b assume b: "b < length (apply_writes (apply_writes D (take k W)) W)"
  show "apply_writes (apply_writes D (take k W)) W ! b = apply_writes D W ! b"
  proof (cases "b \<in> fst ` set W")
    case True
    then obtain U d V where "W = U @ (b, d) # V" "b \<notin> fst ` set V"
      using split_list_last_prop[of W "\<lambda>x. fst x = b"] by fastforce
    then show ?thesis using b apply_writes_last[of b] by (metis length_apply_writes)
  next
    case False
    then have "b \<notin> fst ` set (take k W)" by (auto dest: in_set_takeD)
    then show ?thesis using False by (simp add: apply_writes_other)
  qed
qed simp

lemma clear_head_idem: "length d = BSIZE \<Longrightarrow> clear_head (clear_head d) = clear_head d"
  by (simp add: clear_head_def put_slot_def patch_def BSIZE_def)

lemma recovery_prefix:
  assumes ok: "log_disk_ok D st" and k: "k \<le> head_n (D ! st)"
  defines "D' \<equiv> apply_writes D (take k (recovery_writes D st))"
  shows "recovery_writes D' st = recovery_writes D st" "log_disk_ok D' st"
proof -
  let ?n = "head_n (D ! st)"
  let ?W = "map (\<lambda>i. (head_block (D ! st) i, D ! (st + i + 1))) [0..<?n]"
  have o: "st + ?n < length D" "\<forall>d \<in> set D. length d = BSIZE" "?n \<le> LOGSIZE"
      "\<And>i. i < ?n \<Longrightarrow> head_block (D ! st) i < st \<or> st + ?n < head_block (D ! st) i"
    using ok by (auto simp: log_disk_ok_def Let_def)
  have tk: "take k (recovery_writes D st) = take k ?W"
    using k by (simp add: recovery_writes_def)
  have "fst ` set (take k ?W) \<subseteq> fst ` set ?W" by (intro image_mono set_take_subset)
  then have "st + j \<notin> fst ` set (take k ?W)" if "j \<le> ?n" for j
    using o(4) that by fastforce
  then have same: "D' ! (st + j) = D ! (st + j)" if "j \<le> ?n" for j
    unfolding D'_def tk using that by (intro apply_writes_other) auto
  have st: "D' ! st = D ! st" using same[of 0] by simp
  have body: "D' ! (st + i + 1) = D ! (st + i + 1)" if "i < ?n" for i
    using same[of "Suc i"] that by simp
  show "recovery_writes D' st = recovery_writes D st"
    unfolding recovery_writes_def st using body by simp
  have "\<forall>(n, d) \<in> set (take k ?W). length d = BSIZE"
    using o(1,2) by (auto dest!: in_set_takeD)
  then have "\<forall>d \<in> set D'. length d = BSIZE"
    unfolding D'_def tk by (rule apply_writes_sizes[OF o(2)])
  then show "log_disk_ok D' st" using ok st by (simp add: log_disk_ok_def Let_def D'_def)
qed

lemma recovery_done:
  assumes ok: "log_disk_ok D st"
  defines "D' \<equiv> apply_writes D (recovery_writes D st)"
  shows "apply_writes D' (recovery_writes D' st) = D'" "log_disk_ok D' st"
proof -
  let ?n = "head_n (D ! st)"
  have o: "st + ?n < length D" "\<forall>d \<in> set D. length d = BSIZE"
    using ok by (auto simp: log_disk_ok_def Let_def)
  have sz: "length (D ! st) = BSIZE" using o by simp
  have st: "D' ! st = clear_head (D ! st)"
    using o(1) by (simp add: D'_def recovery_writes_def)
  then have h: "head_n (D' ! st) = 0" using clear_head_laws(2)[OF sz] by simp
  have "clear_head (D' ! st) = D' ! st" using st clear_head_idem[OF sz] by simp
  then show "apply_writes D' (recovery_writes D' st) = D'"
    by (simp add: recovery_writes_def apply_writes_def h)
  have "\<forall>(n, d) \<in> set (recovery_writes D st). length d = BSIZE"
    using o sz clear_head_laws(1) by (auto simp: recovery_writes_def)
  then have "\<forall>d \<in> set D'. length d = BSIZE" unfolding D'_def by (rule apply_writes_sizes[OF o(2)])
  then show "log_disk_ok D' st" using h o(1) by (simp add: log_disk_ok_def Let_def D'_def)
qed

text \<open>
  C2. Recovery may itself be interrupted. Whatever prefix of the disk writes of
  \<open>initlog\<close> reaches the disk before a crash, running \<open>initlog\<close> again ends with the disk
  that the uninterrupted run would have produced.
\<close>

theorem recovery_crash_safe:
  assumes "log_disk_ok D st" "sb_places_log D st sz" "1 < st"
    and "\<forall>i < head_n (D ! st). head_block (D ! st) i \<noteq> 1"
  shows "runs (initlog (boot_state D)) (\<lambda>_ t. \<forall>k \<le> length (dwrites t).
    runs (initlog (boot_state (apply_writes D (take k (dwrites t))))) (\<lambda>_ t'. memdisk t' = memdisk t))"
proof (rule runs_mono[OF initlog_runs[OF assms(2,1)]], intro allI impI)
  fix u t k assume t: "booted D st sz t" and k: "k \<le> length (dwrites t)"
  let ?W = "recovery_writes D st" and ?D = "apply_writes D (take k (recovery_writes D st))"
  have w: "dwrites t = ?W" "memdisk t = apply_writes D ?W" using t by (auto simp: booted_def)
  have "1 \<notin> fst ` set ?W" using assms(3,4) by (auto simp: recovery_writes_def)
  then have "1 \<notin> fst ` set (take k ?W)" using set_take_subset[of k ?W] by blast
  then have "?D ! 1 = D ! 1" by (rule apply_writes_other)
  then have sb: "sb_places_log ?D st sz" using assms(2) by (simp add: sb_places_log_def)
  have again: "log_disk_ok ?D st \<and> apply_writes ?D (recovery_writes ?D st) = apply_writes D ?W"
  proof (cases "k \<le> head_n (D ! st)")
    case True
    then show ?thesis using recovery_prefix[OF assms(1) True] apply_writes_redo by simp
  next
    case False
    then have "take k ?W = ?W" using k w(1) by (simp add: recovery_writes_def)
    then show ?thesis using recovery_done[OF assms(1)] by simp
  qed
  show "runs (initlog (boot_state (apply_writes D (take k (dwrites t)))))
      (\<lambda>_ t'. memdisk t' = memdisk t)"
    unfolding w(1) by (rule runs_mono[OF initlog_runs[OF sb again[THEN conjunct1]]])
      (simp add: booted_def again[THEN conjunct2] w(2))
qed

definition ex_log_disk :: "block list" where
  "ex_log_disk = ex_disk[3 := put_head \<lparr>lh_n = 1, lh_block = [2]\<rparr> (replicate BSIZE 0),
     4 := replicate BSIZE 7]"

theorem recovery_crash_safe_witness:
  "log_disk_ok ex_log_disk 3 \<and> head_n (ex_log_disk ! 3) = 1 \<and>
   runs (initlog (boot_state ex_log_disk)) (\<lambda>_ t. \<forall>k \<le> length (dwrites t).
    runs (initlog (boot_state (apply_writes ex_log_disk (take k (dwrites t)))))
      (\<lambda>_ t'. memdisk t' = memdisk t))"
proof -
  let ?h = "\<lparr>lh_n = 1, lh_block = [2]\<rparr>"
  have "lh_n ?h \<le> LOGSIZE" by (simp add: LOGSIZE_def MAXOPBLOCKS_def)
  note P = put_head_laws[OF this, of "replicate BSIZE 0"]
  have at3: "ex_log_disk ! 3 = put_head ?h (replicate BSIZE 0)"
    by (simp add: ex_log_disk_def ex_disk_def)
  have n: "head_n (ex_log_disk ! 3) = 1" and b: "head_block (ex_log_disk ! 3) 0 = 2"
    using P(2) P(3)[of 0] by (simp_all add: at3)
  have "set ex_log_disk \<subseteq> insert (put_head ?h (replicate BSIZE 0)) (insert (replicate BSIZE 7) (set ex_disk))"
    unfolding ex_log_disk_def using set_update_subset_insert by (metis (no_types) insert_mono subset_trans
        insert_commute)
  then have "\<forall>d \<in> set ex_log_disk. length d = BSIZE" using ex_sizes(1) P(1) by auto
  then have ok: "log_disk_ok ex_log_disk 3"
    using n b ex_sizes(2) by (simp add: log_disk_ok_def Let_def LOGSIZE_def MAXOPBLOCKS_def)
      (simp add: ex_log_disk_def)
  have "sb_places_log ex_log_disk 3 3"
    using ex_sb by (simp add: sb_places_log_def ex_log_disk_def)
  with ok n b show ?thesis using recovery_crash_safe[of ex_log_disk 3 3] by simp
qed

lemma committed_disk:
  assumes inv: "linv s" and idle: "held s = {}" and c: "committed s c"
    and b: "b < length (memdisk s)" "b < lstart (log s) \<or> lstart (log s) + lsize (log s) \<le> b"
  shows "memdisk c ! b = view s b" "view c b = view s b"
proof -
  let ?k = "length (commit_writes s)"
  have binv: "binv s" "binv c" "held c = {}" "dirty c = {}" and len: "length (memdisk c) = length (memdisk s)"
    and C: "memdisk c = crash_disk s ?k"
    using inv c by (auto simp: linv_def Let_def committed_def crash_disk_def)
  have out: "b < lstart (log s) \<or> lstart (log s) + lh_n (lh (log s)) < b"
    using b(2) inv by (auto simp: linv_def Let_def)
  have "crash_disk s ?k ! b = view s b"
  proof (cases "b \<in> dirty s")
    case True
    then have "lh_n (lh (log s)) > 0" using linv_dirty[OF inv] by auto
    moreover from this have "2 * lh_n (lh (log s)) + 1 < ?k"
      by (simp add: commit_writes_def Let_def log_copies_def)
    ultimately show ?thesis using crash_after(2)[OF inv] True by blast
  next
    case False
    then show ?thesis
      using crash_disk_other[OF inv False out] bc.clean_law[OF binv(1), of b] b(1) idle
      by (simp add: can_rel_def)
  qed
  then show d: "memdisk c ! b = view s b" using C by simp
  show "view c b = view s b"
    using bc.clean_law[OF binv(2), of b] binv(3,4) d b(1) len by (simp add: can_rel_def)
qed

lemma committed_linv:
  assumes inv: "linv s" and c: "committed s c"
  shows "linv c"
proof -
  let ?k = "length (commit_writes s)"
  have C: "memdisk c = crash_disk s ?k" using c by (simp add: committed_def crash_disk_def)
  have "head_n (crash_disk s ?k ! lstart (log s)) = 0"
  proof (cases "lh_n (lh (log s)) = 0")
    case True
    then show ?thesis by (intro crash_before(1)[OF inv]) (simp add: commit_writes_def)
  next
    case False
    then show ?thesis
      by (intro crash_after(1)[OF inv]) (simp_all add: commit_writes_def Let_def log_copies_def)
  qed
  then show ?thesis using inv c C by (auto simp: linv_def Let_def committed_def)
qed

text \<open>
  C3. Durability. When the last outstanding operation ends, \<open>end_op\<close> returns (it neither
  sleeps nor panics), the log is empty and well-formed again, sleepers on the log
  have been woken, and every block outside the log area is on the disk with exactly
  the contents the operations left in the cache.
\<close>

theorem end_op_durable:
  assumes "linv s" "held s = {}" "outstanding (log s) = 1" "\<not> committing (log s)"
  shows "runs (end_op s) (\<lambda>_ t. linv t \<and> held t = {} \<and> dirty t = {} \<and> lh_n (lh (log t)) = 0 \<and>
    outstanding (log t) = 0 \<and> \<not> committing (log t) \<and> ChLog \<in> set (wakeq t) \<and>
    (\<forall>b < length (memdisk s). b < lstart (log s) \<or> lstart (log s) + lsize (log s) \<le> b \<longrightarrow>
       memdisk t ! b = view s b \<and> view t b = view s b))"
proof -
  let ?s = "s\<lparr>log := (log s)\<lparr>outstanding := 0, committing := True\<rparr>\<rparr>"
  have inv: "linv ?s" and idle: "held ?s = {}" using assms by (simp_all add: linv_def Let_def)
  have eq: "end_op s = obind (commit ?s) (\<lambda>_ s. Ret () (wakeup ChLog (s\<lparr>log := (log s)\<lparr>committing := False\<rparr>\<rparr>)))"
    using assms(3,4) by (simp add: end_op_def Let_def)
  show ?thesis unfolding eq runs_obind runs_Ret
  proof (rule runs_mono[OF commit_runs[OF inv idle]], goal_cases)
    case (1 u c)
    let ?t = "wakeup ChLog (c\<lparr>log := (log c)\<lparr>committing := False\<rparr>\<rparr>)"
    have same: "binv ?t = binv c" "flagged F ?t = flagged F c" "view ?t b = view c b" for F b
      by (auto simp: wakeup_def binv_def flagged_def view_def split: option.splits)
    have "linv c" by (rule committed_linv[OF inv 1])
    then have "linv ?t" using same by (simp add: linv_def Let_def) (simp add: wakeup_def)
    moreover have "held ?t = {}" "dirty ?t = {}" using 1 same by (auto simp: committed_def)
    moreover have "memdisk ?t = memdisk c" "log ?t = (log c)\<lparr>committing := False\<rparr>" "ChLog \<in> set (wakeq ?t)"
      by (simp_all add: wakeup_def)
    ultimately show ?case
      using 1 committed_disk[OF inv idle 1] same(3) by (auto simp: committed_def)
  qed
qed

theorem end_op_durable_witness:
  "linv ex_state \<and> outstanding (log ex_state) = 1 \<and>
   runs (end_op ex_state) (\<lambda>_ t. linv t \<and> memdisk t ! 2 = replicate BSIZE 7)"
proof -
  have v: "view ex_state 2 = replicate BSIZE 7" by (simp add: view_def ex_state_def)
  have s: "lstart (log ex_state) = 3" "lsize (log ex_state) = 3" "memdisk ex_state = ex_disk"
    "outstanding (log ex_state) = 1" "\<not> committing (log ex_state)"
    by (simp_all add: ex_state_def)
  have "runs (end_op ex_state) (\<lambda>_ t. linv t \<and> memdisk t ! 2 = replicate BSIZE 7)"
    by (rule runs_mono[OF end_op_durable[of ex_state]])
      (use ex_linv ex_flags s v ex_sizes(2) in auto)
  then show ?thesis using ex_linv s by simp
qed

end
