(* ===== verification/Fs_Example.thy ===== *)
theory Fs_Example
  imports Fs_Block Log_Crash
begin

text \<open>
  A small file system on which the properties of the file-system layers are
  instantiated: 25 blocks, 8 inodes (blocks 2 and 3), free map in block 4, data
  blocks from 5 on, a log of 8 blocks from 17 on that the free map marks as used.
  The cache is empty and one operation is in progress. The properties of the block
  layer (\<open>Fs_Block\<close>) follow, each with its instance there.
\<close>

definition ex_map :: block where
  "ex_map = [31, 0, 254, 1] @ replicate (BSIZE - 4) 0"

definition ex_fs_disk :: "block list" where
  "ex_fs_disk = [replicate BSIZE 0,
     enc_superblock \<lparr>sb_size = 25, sb_nblocks = 12, sb_ninodes = 8, sb_nlog = 8\<rparr> @ replicate (BSIZE - 16) 0,
     replicate BSIZE 0, replicate BSIZE 0, ex_map] @ replicate 20 (replicate BSIZE 0)"

definition ex_fs :: "'a \<Rightarrow> 'a lstate_scheme" where
  "ex_fs m = \<lparr>wakeq = [], memdisk = ex_fs_disk, dwrites = [],
     bufs = replicate 30 \<lparr>flags = {}, dev = -1, blockno = 0, data = replicate BSIZE 0\<rparr>,
     lru = [0..<NBUF],
     log = \<lparr>lstart = 17, lsize = 8, outstanding = 1, committing = False, ldev = 1,
       lh = \<lparr>lh_n = 0, lh_block = replicate 30 0\<rparr>\<rparr>, \<dots> = m\<rparr>"

lemma ex_fs_sizes: "length ex_fs_disk = 25" "\<forall>d \<in> set ex_fs_disk. length d = BSIZE"
  by (auto simp: ex_fs_disk_def ex_map_def BSIZE_def sb.length_enc)

lemma ex_fs_binv: "binv (ex_fs m)"
  using ex_fs_sizes by (auto simp: binv_def buf_ok_def bufs_unique_def ex_fs_def NBUF_def)

lemma ex_fs_flags [simp]: "flagged F (ex_fs m) = {}"
  by (auto simp: flagged_def ex_fs_def)

lemma ex_fs_view [simp]: "view (ex_fs m) n = ex_fs_disk ! n"
proof -
  have "view (ex_fs m) n = memdisk (ex_fs m) ! n"
    using ex_fs_binv binvD(1) by (intro view_uncached) (auto simp: ex_fs_def NBUF_def)
  then show ?thesis by (simp add: ex_fs_def)
qed

lemma ex_fs_fields [simp]:
  "memdisk (ex_fs m) = ex_fs_disk" "lstart (log (ex_fs m)) = 17" "lsize (log (ex_fs m)) = 8"
  "outstanding (log (ex_fs m)) = 1" "ldev (log (ex_fs m)) = 1"
  "lstate.more (ex_fs m) = m"
  by (simp_all add: ex_fs_def)

lemma ex_fs_linv: "linv (ex_fs m)"
proof -
  have "ex_fs_disk ! 17 = replicate BSIZE 0" by (simp add: ex_fs_disk_def nth_append)
  then have "head_n (ex_fs_disk ! 17) = 0" using ex_head by simp
  then show ?thesis
    using ex_fs_binv[of m] ex_fs_sizes(1)
    by (simp add: linv_def Let_def NBUF_def) (simp add: ex_fs_def LOGSIZE_def MAXOPBLOCKS_def)
qed

lemma ex_fs_room: "room (ex_fs m) k \<longleftrightarrow> k < 8"
  by (auto simp: room_def LOGSIZE_def MAXOPBLOCKS_def)

lemma ex_fs_home: "home (ex_fs m) b \<longleftrightarrow> b < 17"
  using ex_fs_sizes(1) by (auto simp: home_def)

lemma ex_BBLOCK: "b < 25 \<Longrightarrow> BBLOCK b 8 = 4"
  by (simp add: BBLOCK_def BPB_def IPB_def BSIZE_def)

lemma ex_fs_sb: "dec_superblock (chunk 0 16 (ex_fs_disk ! 1)) =
    \<lparr>sb_size = 25, sb_nblocks = 12, sb_ninodes = 8, sb_nlog = 8\<rparr>"
proof -
  have "chunk 0 16 (enc_superblock x @ ys) = enc_superblock x" for x ys
    using sb.length_enc[of x] by (simp add: chunk_def)
  then show ?thesis by (simp add: ex_fs_disk_def sb.dec_enc)
qed

lemma ex_fs_geo: "fs_geo (ex_fs m) 25 8"
proof -
  have "unat (25 :: uint) = 25" "unat (8 :: uint) = 8" by simp_all
  then show ?thesis
    using ex_fs_sb ex_fs_sizes(1) ex_BBLOCK by (simp add: fs_geo_def Let_def ex_fs_home)
qed

lemma ex_fs_alloc_ok: "alloc_ok (ex_fs m) 25 8"
  by (simp add: alloc_ok_def ex_fs_linv ex_fs_geo)

lemma ex_fs_used: "b < 25 \<Longrightarrow> used 8 (view (ex_fs m)) b \<longleftrightarrow> b < 5 \<or> 17 \<le> b"
proof -
  assume b: "b < 25"
  have "\<forall>i \<in> set [0..<25]. bit_used ex_map i \<longleftrightarrow> i < 5 \<or> 17 \<le> i"
    by code_simp
  then have "bit_used ex_map b \<longleftrightarrow> b < 5 \<or> 17 \<le> b" using b by simp
  moreover have "b mod BPB = b" using b by (simp add: BPB_def BSIZE_def)
  ultimately show ?thesis using b by (simp add: used_def ex_BBLOCK ex_fs_disk_def)
qed

section \<open>Properties of the block layer\<close>

text \<open>
  C4. \<open>balloc\<close> returns the lowest-numbered free block, marks exactly that block in the
  free map and zeroes it; no other block of the logical disk changes, nothing is
  written to the disk outside the transaction, and the log stays well-formed.
\<close>

theorem balloc_first_free:
  assumes "alloc_ok s sz nin" "room s 2" "b < sz" "home s b" "b \<notin> held s"
    and "\<not> used nin (view s) b" "\<And>c. c < b \<Longrightarrow> used nin (view s) c" "\<And>c. c < sz \<Longrightarrow> b \<noteq> BBLOCK c nin"
  shows "runs (balloc 1 s) (\<lambda>r t. r = b \<and> linv t \<and> memdisk t = memdisk s \<and> held t = held s \<and>
    view t b = replicate BSIZE 0 \<and>
    (\<forall>c < sz. used nin (view t) c \<longleftrightarrow> c = b \<or> used nin (view s) c) \<and>
    (\<forall>n. n \<noteq> b \<and> n \<noteq> BBLOCK b nin \<longrightarrow> view t n = view s n))"
proof (rule balloc_runs[OF assms(1-5) _ assms(6,7)])
  show "b \<noteq> BBLOCK b nin" using assms(3,8) by blast
  fix t assume t: "txr s (alloc_view nin b (view s)) {BBLOCK b nin, b} (held s) t"
  have "linv s" "home s (BBLOCK b nin)" using assms(1,3) by (auto simp: alloc_ok_def fs_geo_def Let_def)
  then have "length (view s (BBLOCK b nin)) = BSIZE" by (simp add: view_size home_def)
  then have "used nin (alloc_view nin b (view s)) c \<longleftrightarrow> c = b \<or> used nin (view s) c" if "c < sz" for c
    using used_alloc_view assms(8)[OF that] by blast
  then show "b = b \<and> linv t \<and> memdisk t = memdisk s \<and> held t = held s \<and> view t b = replicate BSIZE 0 \<and>
      (\<forall>c < sz. used nin (view t) c \<longleftrightarrow> c = b \<or> used nin (view s) c) \<and>
      (\<forall>n. n \<noteq> b \<and> n \<noteq> BBLOCK b nin \<longrightarrow> view t n = view s n)"
    using txrD[OF t] by (simp add: alloc_view_def)
qed

theorem balloc_first_free_witness:
  "runs (balloc 1 (ex_fs ())) (\<lambda>r t. r = 5 \<and> linv t \<and> used 8 (view t) 5 \<and> \<not> used 8 (view t) 6)"
  by (rule runs_mono[OF balloc_first_free[OF ex_fs_alloc_ok, of _ 5]])
    (auto simp: ex_fs_room ex_fs_home ex_fs_used ex_BBLOCK)

text \<open>
  C5. When every block of the file system is marked in the free map, \<open>balloc\<close> panics with
  its own message, whatever else the disk holds; it never returns a block in use.
\<close>

theorem balloc_out_of_blocks:
  assumes "alloc_ok s sz nin" "card (held s) + card (dirty s) < NBUF" "\<forall>c < sz. used nin (view s) c"
  shows "balloc 1 s = Panic ''balloc: out of blocks''"
  unfolding balloc_def
proof (rule obind_Panic)
  let ?sb = "dec_superblock (chunk 0 16 (view s 1))"
  have o: "linv s" "1 \<notin> held s" "1 < length (memdisk s)"
      "unat (sb_size ?sb) = sz" "unat (sb_ninodes ?sb) = nin"
    using assms(1) by (auto simp: alloc_ok_def fs_geo_def Let_def home_def)
  show "runs (readsb 1 s) (\<lambda>sb t. sb = ?sb \<and> txr s (view s) {} (held s) t)"
    by (rule readsb_tx[OF o(1,3,2) assms(2)]) simp
  fix sb t assume t: "sb = ?sb \<and> txr s (view s) {} (held s) t"
  have D: "view t = view s" "held t = held s" "dirty t = dirty s" using txrD(3-5) t by blast+
  show "balloc_loop 1 sb (map ((*) BPB) [0..<(unat (sb_size sb) + BPB - 1) div BPB]) t =
      Panic ''balloc: out of blocks''"
    by (rule balloc_loop_full[of _ sz nin])
      (use t o assms D alloc_ok_txr[of s "view s" "{}" t] group_start_less in auto)
qed

definition ex_full :: "'a \<Rightarrow> 'a lstate_scheme" where
  "ex_full m = (ex_fs m)\<lparr>memdisk := ex_fs_disk[4 := replicate BSIZE 255]\<rparr>"

lemma ex_full_view [simp]: "view (ex_full m) n = ex_fs_disk[4 := replicate BSIZE 255] ! n"
proof -
  have "view (ex_full m) n = memdisk (ex_full m) ! n"
    by (intro view_uncached) (auto simp: ex_full_def ex_fs_def NBUF_def)
  then show ?thesis by (simp add: ex_full_def)
qed

lemma ex_full_alloc_ok: "alloc_ok (ex_full m) 25 8"
proof -
  have s: "length (ex_fs_disk[4 := replicate BSIZE 255]) = 25"
    "\<forall>d \<in> set (ex_fs_disk[4 := replicate BSIZE 255]). length d = BSIZE"
    using ex_fs_sizes set_update_subset_insert[of ex_fs_disk 4 "replicate BSIZE 255"] by auto
  then have b: "binv (ex_full m)"
    by (auto simp: binv_def buf_ok_def bufs_unique_def ex_full_def ex_fs_def NBUF_def)
  have f: "flagged F (ex_full m) = {}" for F by (auto simp: flagged_def ex_full_def ex_fs_def)
  have "linv (ex_full m)"
    using ex_fs_linv[of m] b f s(1) by (simp add: linv_def Let_def) (simp add: ex_full_def)
  moreover have "home (ex_full m) n \<longleftrightarrow> n < 17" for n
    using s(1) by (auto simp: home_def ex_full_def)
  then have "fs_geo (ex_full m) 25 8"
    using ex_fs_sb s(1) ex_BBLOCK by (simp add: fs_geo_def Let_def) (simp add: ex_full_def)
  ultimately show ?thesis using f by (simp add: alloc_ok_def) (simp add: ex_full_def)
qed

theorem balloc_out_of_blocks_witness:
  "balloc 1 (ex_full ()) = Panic ''balloc: out of blocks''"
proof (rule balloc_out_of_blocks[OF ex_full_alloc_ok])
  have f: "flagged F (ex_full ()) = {}" for F by (auto simp: flagged_def ex_full_def ex_fs_def)
  show "card (held (ex_full ())) + card (dirty (ex_full ())) < NBUF"
    using f by (simp add: NBUF_def)
  have "\<forall>i \<in> set [0..<25]. bit_used (replicate BSIZE 255) i" by code_simp
  moreover have "c < 25 \<Longrightarrow> c mod BPB = c" for c by (simp add: BPB_def BSIZE_def)
  ultimately show "\<forall>c < 25. used 8 (view (ex_full ())) c"
    using ex_fs_sizes(1) by (simp add: used_def ex_BBLOCK)
qed

text \<open>
  C6. Freeing a block undoes its allocation: after \<open>balloc\<close> and \<open>bfree\<close> of the same block
  the free map and every block but the (now zeroed) freed one are as before.
\<close>

theorem bfree_undoes_balloc:
  assumes "alloc_ok s sz nin" "room s 3" "b < sz" "home s b" "b \<notin> held s" "b \<noteq> 1"
    and "\<not> used nin (view s) b" "\<And>c. c < b \<Longrightarrow> used nin (view s) c" "b \<noteq> BBLOCK b nin"
  shows "runs (obind (balloc 1 s) (\<lambda>r t. bfree 1 r t)) (\<lambda>_ t. linv t \<and> memdisk t = memdisk s \<and>
    view t = (view s)(b := replicate BSIZE 0))"
  unfolding runs_obind
proof (rule balloc_runs[OF assms(1) room_mono[OF assms(2)] assms(3-5,9,7,8)])
  fix t assume t: "txr s (alloc_view nin b (view s)) {BBLOCK b nin, b} (held s) t"
  have "linv s" "home s (BBLOCK b nin)" using assms(1,3) by (auto simp: alloc_ok_def fs_geo_def Let_def)
  then have len: "length (view s (BBLOCK b nin)) = BSIZE" by (simp add: view_size home_def)
  have "card {BBLOCK b nin, b} \<le> 2" by (simp add: card_insert_if)
  then have r: "room t 1" using txr_room[OF t, of 2 1] assms(2) by simp
  show "runs (bfree 1 b t) (\<lambda>_ t. linv t \<and> memdisk t = memdisk s \<and> view t = (view s)(b := replicate BSIZE 0))"
  proof (rule bfree_runs[OF alloc_ok_txr[OF t _ assms(1)] r assms(3)])
    show "used nin (view t) b" using used_alloc_view[where V = "view s", OF len assms(9)] txrD(3)[OF t] by simp
    show "alloc_view nin b (view s) 1 = view s 1" using assms(6) by (simp add: alloc_view_def)
    fix u assume "txr t (free_view nin b (view t)) {BBLOCK b nin} (held t) u"
    then show "linv u \<and> memdisk u = memdisk s \<and> view u = (view s)(b := replicate BSIZE 0)"
      using txrD[OF t] txrD free_alloc_view[where V = "view s", OF len assms(9,7)] by metis
  qed
qed simp_all

theorem bfree_undoes_balloc_witness:
  "runs (obind (balloc 1 (ex_fs ())) (\<lambda>r t. bfree 1 r t)) (\<lambda>_ t. linv t \<and>
     view t = (view (ex_fs ()))(5 := replicate BSIZE 0))"
  by (rule runs_mono[OF bfree_undoes_balloc[OF ex_fs_alloc_ok, of _ 5]])
    (auto simp: ex_fs_room ex_fs_home ex_fs_used ex_BBLOCK)

end
