(* ===== verification/Fs_Content.thy ===== *)
theory Fs_Content
  imports Fs_Inode Fs_Example
begin

text \<open>
  File contents. The logical disk and the block map of an inode determine the bytes of the file;
  a block that is not mapped reads as zeros. Allocation in \<open>bmap\<close> keeps the contents, \<open>readi\<close>
  delivers them and \<open>writei\<close> changes exactly the bytes it is given.
\<close>

section \<open>The bytes of a file\<close>

definition naddr :: "(nat \<Rightarrow> block) \<Rightarrow> uint list \<Rightarrow> nat \<Rightarrow> nat" where
  "naddr V a bn =
    (if bn < NDIRECT then unat (a ! bn)
     else if a ! NDIRECT = 0 then 0
     else unat (get_slot unle32 4 (bn - NDIRECT) (V (unat (a ! NDIRECT)))))"

definition fbyte :: "(nat \<Rightarrow> block) \<Rightarrow> uint list \<Rightarrow> nat \<Rightarrow> uchar" where
  "fbyte V a x = (let p = naddr V a (x div BSIZE) in if p = 0 then 0 else V p ! (x mod BSIZE))"

lemma MAXFILE_indirect: "bn < MAXFILE \<Longrightarrow> \<not> bn < NDIRECT \<Longrightarrow> bn - NDIRECT < NINDIRECT"
  by (simp add: MAXFILE_def)

lemma indirect_slot: "k < NINDIRECT \<Longrightarrow> Suc k * 4 \<le> BSIZE"
  by (simp add: NINDIRECT_def BSIZE_def)

lemma get_slot_zero: "Suc k * 4 \<le> n \<Longrightarrow> get_slot unle32 4 k (replicate n 0) = 0"
  by (simp add: get_slot_def chunk_def unle32_def)

lemma naddr_agree: "(a ! NDIRECT \<noteq> 0 \<Longrightarrow> V' (unat (a ! NDIRECT)) = V (unat (a ! NDIRECT))) \<Longrightarrow> naddr V' a bn = naddr V a bn"
  by (simp add: naddr_def)

lemma naddr_set_direct:
  "k < NDIRECT \<Longrightarrow> length a = NDIRECT + 1 \<Longrightarrow> naddr V (a[k := w]) bn = (if bn = k then unat w else naddr V a bn)"
  by (simp add: naddr_def)

lemma naddr_set_indirect:
  assumes "length a = NDIRECT + 1" "a ! NDIRECT = 0" "w \<noteq> 0" "V (unat w) = replicate BSIZE 0" "bn < MAXFILE"
  shows "naddr V (a[NDIRECT := w]) bn = naddr V a bn"
  using assms get_slot_zero[OF indirect_slot[OF MAXFILE_indirect[OF assms(5)]]] by (simp add: naddr_def)

lemma naddr_put_slot:
  assumes "a ! NDIRECT \<noteq> 0" "k < NINDIRECT" "bn < MAXFILE" "length (V (unat (a ! NDIRECT))) = BSIZE"
  shows "naddr (V(unat (a ! NDIRECT) := put_slot le32 4 k w (V (unat (a ! NDIRECT))))) a bn =
    (if bn = NDIRECT + k then unat w else naddr V a bn)"
proof (cases "bn < NDIRECT")
  case True
  then show ?thesis by (simp add: naddr_def)
next
  case False
  let ?d = "V (unat (a ! NDIRECT))"
  have s: "Suc k * 4 \<le> length ?d" "Suc (bn - NDIRECT) * 4 \<le> length ?d"
    using indirect_slot[OF assms(2)] indirect_slot[OF MAXFILE_indirect[OF assms(3) False]] assms(4) by auto
  show ?thesis
  proof (cases "bn - NDIRECT = k")
    case True
    then have "bn = NDIRECT + k" using False by simp
    then show ?thesis using assms(1) s(1) by (simp add: naddr_def u32.get_put_same)
  next
    case neq: False
    then have "bn \<noteq> NDIRECT + k" by auto
    then show ?thesis using False neq assms(1) u32.get_put_other[OF _ s(1,2)] by (simp add: naddr_def)
  qed
qed

text \<open>
  A block map is well formed when every block in it satisfies \<open>G\<close> (it is a data block), is marked
  as used, and occurs once.
\<close>

definition file_map :: "(nat \<Rightarrow> bool) \<Rightarrow> nat \<Rightarrow> (nat \<Rightarrow> block) \<Rightarrow> uint list \<Rightarrow> bool" where
  "file_map G nin V a \<longleftrightarrow>
    length a = NDIRECT + 1 \<and>
    (\<forall>bn < MAXFILE. naddr V a bn \<noteq> 0 \<longrightarrow> G (naddr V a bn) \<and> used nin V (naddr V a bn)) \<and>
    (\<forall>bn < MAXFILE. \<forall>bm < MAXFILE. naddr V a bn = naddr V a bm \<longrightarrow> naddr V a bn \<noteq> 0 \<longrightarrow> bn = bm) \<and>
    (a ! NDIRECT \<noteq> 0 \<longrightarrow> G (unat (a ! NDIRECT)) \<and> used nin V (unat (a ! NDIRECT)) \<and>
      (\<forall>bn < MAXFILE. naddr V a bn \<noteq> unat (a ! NDIRECT)))"

lemma file_map_weaken: "file_map G nin V a \<Longrightarrow> (\<And>c. G c \<Longrightarrow> G' c) \<Longrightarrow> file_map G' nin V a"
  unfolding file_map_def by blast

lemma file_mapD:
  assumes "file_map G nin V a"
  shows "length a = NDIRECT + 1"
    and "bn < MAXFILE \<Longrightarrow> naddr V a bn \<noteq> 0 \<Longrightarrow> G (naddr V a bn) \<and> used nin V (naddr V a bn)"
    and "bn < MAXFILE \<Longrightarrow> bm < MAXFILE \<Longrightarrow> naddr V a bn = naddr V a bm \<Longrightarrow> naddr V a bn \<noteq> 0 \<Longrightarrow> bn = bm"
    and "a ! NDIRECT \<noteq> 0 \<Longrightarrow> G (unat (a ! NDIRECT)) \<and> used nin V (unat (a ! NDIRECT))"
    and "a ! NDIRECT \<noteq> 0 \<Longrightarrow> bn < MAXFILE \<Longrightarrow> naddr V a bn \<noteq> unat (a ! NDIRECT)"
  using assms by (auto simp: file_map_def)

text \<open>One more block is mapped, at a place where there was none.\<close>

definition maps_new :: "nat \<Rightarrow> nat \<Rightarrow> (nat \<Rightarrow> block) \<Rightarrow> uint list \<Rightarrow> (nat \<Rightarrow> block) \<Rightarrow> uint list \<Rightarrow> bool" where
  "maps_new bn b V a V' a' \<longleftrightarrow> (\<forall>bm < MAXFILE. naddr V' a' bm = (if bm = bn then b else naddr V a bm))"

lemma file_map_new:
  assumes "file_map G nin V a" "maps_new bn b V a V' a'" "length a' = NDIRECT + 1" "a' ! NDIRECT = a ! NDIRECT"
    and "bn < MAXFILE" "G b" "used nin V' b" "\<not> used nin V b" "\<And>c. used nin V c \<Longrightarrow> G c \<Longrightarrow> used nin V' c"
  shows "file_map G nin V' a'"
proof -
  note m = file_mapD[OF assms(1)]
  have n: "naddr V' a' bm = (if bm = bn then b else naddr V a bm)" if "bm < MAXFILE" for bm
    using assms(2) that by (simp add: maps_new_def)
  have fresh: "naddr V a bm \<noteq> b" if "bm < MAXFILE" "b \<noteq> 0" for bm
    using m(2)[OF that(1)] that(2) assms(8) by metis
  show ?thesis unfolding file_map_def
  proof (intro conjI allI impI)
    fix bm assume "bm < MAXFILE" "naddr V' a' bm \<noteq> 0"
    then show "G (naddr V' a' bm)" "used nin V' (naddr V' a' bm)"
      using n[of bm] m(2)[of bm] assms(6,7,9) by (auto split: if_splits)
  next
    fix x y assume "x < MAXFILE" "y < MAXFILE" "naddr V' a' x = naddr V' a' y" "naddr V' a' x \<noteq> 0"
    then show "x = y" using n[of x] n[of y] m(3)[of x y] fresh[of x] fresh[of y] by (auto split: if_splits)
  next
    assume "a' ! NDIRECT \<noteq> 0"
    then have i: "a ! NDIRECT \<noteq> 0" using assms(4) by simp
    show "G (unat (a' ! NDIRECT))" "used nin V' (unat (a' ! NDIRECT))" using m(4)[OF i] assms(4,9) by auto
    fix bm assume "bm < MAXFILE"
    then show "naddr V' a' bm \<noteq> unat (a' ! NDIRECT)"
      using n[of bm] m(5)[OF i, of bm] m(4)[OF i] assms(4,8) by auto
  qed (rule assms(3))
qed

lemma fbyte_new:
  assumes "maps_new bn b V a V' a'" "naddr V a bn = 0" "V' b = replicate BSIZE 0"
    and "\<And>bm. bm < MAXFILE \<Longrightarrow> naddr V a bm \<noteq> 0 \<Longrightarrow> V' (naddr V a bm) = V (naddr V a bm)"
    and "x < MAXFILE * BSIZE"
  shows "fbyte V' a' x = fbyte V a x"
proof -
  have d: "x div BSIZE < MAXFILE" using assms(5) by (simp add: less_mult_imp_div_less)
  have "x mod BSIZE < BSIZE" by (simp add: BSIZE_def)
  then show ?thesis using assms(1-3) assms(4)[OF d] d by (auto simp: fbyte_def Let_def maps_new_def)
qed

lemma fbyte_same:
  assumes "\<And>bm. bm < MAXFILE \<Longrightarrow> naddr V' a' bm = naddr V a bm"
    and "\<And>bm. bm < MAXFILE \<Longrightarrow> naddr V a bm \<noteq> 0 \<Longrightarrow> V' (naddr V a bm) = V (naddr V a bm)"
    and "x < MAXFILE * BSIZE"
  shows "fbyte V' a' x = fbyte V a x"
proof -
  have d: "x div BSIZE < MAXFILE" using assms(3) by (simp add: less_mult_imp_div_less)
  then show ?thesis using assms(1)[OF d] assms(2)[OF d] by (simp add: fbyte_def Let_def)
qed

lemma file_map_indirect:
  assumes "file_map G nin V a" "a ! NDIRECT = 0" "w \<noteq> 0" "V' (unat w) = replicate BSIZE 0"
    and "G (unat w)" "used nin V' (unat w)" "\<not> used nin V (unat w)"
    and "\<And>c. used nin V c \<Longrightarrow> G c \<Longrightarrow> used nin V' c"
  shows "file_map G nin V' (a[NDIRECT := w])"
    and "bn < MAXFILE \<Longrightarrow> naddr V' (a[NDIRECT := w]) bn = naddr V a bn"
proof -
  note m = file_mapD[OF assms(1)]
  have n: "naddr V' (a[NDIRECT := w]) bn = naddr V a bn" if "bn < MAXFILE" for bn
    using naddr_set_indirect[where V = V', OF m(1) assms(2,3,4) that] naddr_agree[of a V' V bn] assms(2) by simp
  then show "bn < MAXFILE \<Longrightarrow> naddr V' (a[NDIRECT := w]) bn = naddr V a bn" .
  show "file_map G nin V' (a[NDIRECT := w])" unfolding file_map_def
  proof (intro conjI allI impI)
    fix bm assume "bm < MAXFILE" "naddr V' (a[NDIRECT := w]) bm \<noteq> 0"
    then show "G (naddr V' (a[NDIRECT := w]) bm)" "used nin V' (naddr V' (a[NDIRECT := w]) bm)"
      using n m(2)[of bm] assms(8) by auto
  next
    fix x y assume "x < MAXFILE" "y < MAXFILE" "naddr V' (a[NDIRECT := w]) x = naddr V' (a[NDIRECT := w]) y"
      "naddr V' (a[NDIRECT := w]) x \<noteq> 0"
    then show "x = y" using n[of x] n[of y] m(3)[of x y] by simp
  next
    fix bm assume bm: "bm < MAXFILE"
    have "naddr V a bm \<noteq> unat w"
      using m(2)[OF bm] assms(3,7) by (cases "naddr V a bm = 0") (auto simp: unat_eq_0)
    then show "naddr V' (a[NDIRECT := w]) bm \<noteq> unat (a[NDIRECT := w] ! NDIRECT)"
      using n[OF bm] m(1) by simp
  qed (use m(1) assms(5,6) in simp_all)
qed

section \<open>States\<close>

text \<open>A block that can hold data: inside the file system and the transaction's reach, and no metadata.\<close>

definition datab :: "'a lstate_scheme \<Rightarrow> nat \<Rightarrow> nat \<Rightarrow> nat \<Rightarrow> bool" where
  "datab s sz nin c \<longleftrightarrow> c \<noteq> 0 \<and> c < sz \<and> home s c \<and> c \<noteq> 1 \<and> (\<forall>d < sz. c \<noteq> BBLOCK d nin) \<and>
    (\<forall>k < nin. c \<noteq> IBLOCK k)"

definition nfree :: "nat \<Rightarrow> nat \<Rightarrow> (nat \<Rightarrow> block) \<Rightarrow> nat" where
  "nfree sz nin V = card {c. c < sz \<and> \<not> used nin V c}"

text \<open>The free map only offers data blocks.\<close>

definition fs_ok :: "'a lstate_scheme \<Rightarrow> nat \<Rightarrow> nat \<Rightarrow> bool" where
  "fs_ok s sz nin \<longleftrightarrow> alloc_ok s sz nin \<and> (\<forall>c < sz. \<not> used nin (view s) c \<longrightarrow> datab s sz nin c)"

lemma fs_ok_sz: "fs_ok s sz nin \<Longrightarrow> sz < 2 ^ 32 \<and> linv s"
  using unsigned_less[where w = "sb_size (dec_superblock (chunk 0 16 (view s 1)))"]
  by (auto simp: fs_ok_def alloc_ok_def fs_geo_def Let_def)

lemma datab_txr: "txr s V B H t \<Longrightarrow> datab t sz nin c = datab s sz nin c"
  by (simp add: datab_def txr_home)

lemma datab_map: "datab s sz nin b \<Longrightarrow> b \<noteq> BBLOCK b nin"
  by (auto simp: datab_def)

lemma fs_ok_map_len: "fs_ok s sz nin \<Longrightarrow> b < sz \<Longrightarrow> length (view s (BBLOCK b nin)) = BSIZE"
  using view_size by (auto simp: fs_ok_def alloc_ok_def fs_geo_def Let_def home_def)

lemma fs_ok_txr:
  assumes "txr s V B (held s) t" "fs_ok s sz nin" "V 1 = view s 1" "\<And>c. c < sz \<Longrightarrow> used nin (view s) c \<Longrightarrow> used nin V c"
  shows "fs_ok t sz nin"
  using assms(2,4) alloc_ok_txr[OF assms(1,3)] txrD(3)[OF assms(1)] datab_txr[OF assms(1)]
  unfolding fs_ok_def by blast

lemma alloc_used:
  assumes "fs_ok s sz nin" "datab s sz nin b" "c < sz"
  shows "used nin (alloc_view nin b (view s)) c \<longleftrightarrow> c = b \<or> used nin (view s) c"
  using used_alloc_view[of "view s" b nin c] fs_ok_map_len[OF assms(1)] assms(2,3) by (auto simp: datab_def)

lemma alloc_data:
  assumes "datab s sz nin b" "datab s sz nin c" "b \<noteq> c"
  shows "alloc_view nin b V c = V c" "alloc_view nin b V 1 = V 1" "alloc_view nin b V b = replicate BSIZE 0"
  using assms by (auto simp: alloc_view_def datab_def)

lemma alloc_nfree:
  assumes "fs_ok s sz nin" "datab s sz nin b" "\<not> used nin (view s) b"
  shows "nfree sz nin (view s) = Suc (nfree sz nin (alloc_view nin b (view s)))"
proof -
  let ?F = "{c. c < sz \<and> \<not> used nin (view s) c}"
  have b: "b \<in> ?F" using assms by (simp add: datab_def)
  have "{c. c < sz \<and> \<not> used nin (alloc_view nin b (view s)) c} = ?F - {b}"
    using alloc_used[OF assms(1,2)] by auto
  then show ?thesis using card_Suc_Diff1[OF _ b] by (simp add: nfree_def)
qed

lemma balloc_some:
  assumes "fs_ok s sz nin" "room s 2" "0 < nfree sz nin (view s)" "\<And>c. c \<in> held s \<Longrightarrow> used nin (view s) c"
    and "\<And>b t. \<lbrakk>datab s sz nin b; \<not> used nin (view s) b; fs_ok t sz nin;
        txr s (alloc_view nin b (view s)) {BBLOCK b nin, b} (held s) t\<rbrakk> \<Longrightarrow> Q b t"
  shows "runs (balloc 1 s) Q"
proof -
  let ?P = "\<lambda>c. c < sz \<and> \<not> used nin (view s) c"
  have "{c. ?P c} \<noteq> {}" using assms(3) unfolding nfree_def by fastforce
  then have ex: "\<exists>c. ?P c" by blast
  define b where "b = (LEAST c. ?P c)"
  have b: "b < sz" "\<not> used nin (view s) b" using LeastI_ex[OF ex] by (auto simp: b_def)
  have d: "datab s sz nin b" using assms(1) b by (simp add: fs_ok_def)
  have below: "used nin (view s) c" if "c < b" for c
    using not_less_Least[of c ?P] that b(1) unfolding b_def by linarith
  have a: "alloc_ok s sz nin" using assms(1) by (simp add: fs_ok_def)
  have h: "home s b" "b \<notin> held s" using d b(2) assms(4) by (auto simp: datab_def)
  show ?thesis
  proof (rule balloc_runs[OF a assms(2) b(1) h datab_map[OF d] b(2) below])
    fix t assume t: "txr s (alloc_view nin b (view s)) {BBLOCK b nin, b} (held s) t"
    have "alloc_view nin b (view s) 1 = view s 1" using d by (auto simp: alloc_view_def datab_def)
    then have "fs_ok t sz nin" using fs_ok_txr[OF t assms(1)] alloc_used[OF assms(1) d] by blast
    then show "Q b t" using assms(5)[OF d b(2) _ t] by blast
  qed
qed

section \<open>Steps of an operation on a file\<close>

abbreviation addrs_of :: "'a fsstate_scheme \<Rightarrow> nat \<Rightarrow> uint list" where
  "addrs_of s i \<equiv> ip_addrs (inode_at s i)"

abbreviation fmap :: "'a fsstate_scheme \<Rightarrow> nat \<Rightarrow> nat \<Rightarrow> nat" where
  "fmap s i \<equiv> naddr (view s) (addrs_of s i)"

abbreviation fcont :: "'a fsstate_scheme \<Rightarrow> nat \<Rightarrow> nat \<Rightarrow> uchar" where
  "fcont s i \<equiv> fbyte (view s) (addrs_of s i)"

lemma icache_frame [simp]:
  "linv (s\<lparr>icache := c\<rparr>) = linv s" "view (s\<lparr>icache := c\<rparr>) = view s"
  "flagged F (s\<lparr>icache := c\<rparr>) = flagged F s" "room (s\<lparr>icache := c\<rparr>) k = room s k"
  "home (s\<lparr>icache := c\<rparr>) b = home s b"
  for s :: "'a fsstate_scheme"
proof -
  show v: "view (s\<lparr>icache := c\<rparr>) = view s"
    by (auto simp: view_def fun_eq_iff split: option.splits)
  show f: "flagged F (s\<lparr>icache := c\<rparr>) = flagged F s" for F by (simp add: flagged_def)
  have "binv (s\<lparr>icache := c\<rparr>) = binv s" by (simp add: binv_def)
  then show "linv (s\<lparr>icache := c\<rparr>) = linv s" using f by (simp add: linv_def Let_def)
  show "room (s\<lparr>icache := c\<rparr>) k = room s k" using f by (simp add: room_def)
  show "home (s\<lparr>icache := c\<rparr>) b = home s b" by (simp add: home_def)
qed

lemma icache_frame2 [simp]:
  "datab (s\<lparr>icache := c\<rparr>) sz nin = datab s sz nin" "fs_geo (s\<lparr>icache := c\<rparr>) sz nin = fs_geo s sz nin"
  "alloc_ok (s\<lparr>icache := c\<rparr>) sz nin = alloc_ok s sz nin" "fs_ok (s\<lparr>icache := c\<rparr>) sz nin = fs_ok s sz nin"
  for s :: "'a fsstate_scheme"
proof -
  show d: "datab (s\<lparr>icache := c\<rparr>) sz nin = datab s sz nin" by (simp add: datab_def fun_eq_iff)
  show g: "fs_geo (s\<lparr>icache := c\<rparr>) sz nin = fs_geo s sz nin" by (simp add: fs_geo_def)
  then show a: "alloc_ok (s\<lparr>icache := c\<rparr>) sz nin = alloc_ok s sz nin" by (simp add: alloc_ok_def)
  show "fs_ok (s\<lparr>icache := c\<rparr>) sz nin = fs_ok s sz nin" using a d by (simp add: fs_ok_def)
qed

lemma more_icache:
  "lstate.more t = lstate.more s \<Longrightarrow> icache t = icache s"
  "lstate.more t = lstate.more s \<Longrightarrow> fsstate.more t = fsstate.more s"
  for s :: "'a fsstate_scheme"
  by (cases s; cases t; simp)+

text \<open>
  \<open>fx s i ip k t\<close>: from \<open>s\<close> to \<open>t\<close> at most \<open>k\<close> blocks joined the transaction, nothing was
  written to the disk, and of the inodes in memory only \<open>i\<close> changed, to \<open>ip\<close>.
\<close>

definition fx :: "'a fsstate_scheme \<Rightarrow> nat \<Rightarrow> inode \<Rightarrow> nat \<Rightarrow> 'a fsstate_scheme \<Rightarrow> bool" where
  "fx s i ip k t \<longleftrightarrow>
    linv t \<and> (\<exists>B. finite B \<and> card B \<le> k \<and> dirty t = dirty s \<union> B) \<and> held t = held s \<and>
    memdisk t = memdisk s \<and> dwrites t = dwrites s \<and> (\<exists>h. log t = (log s)\<lparr>lh := h\<rparr>) \<and>
    icache t = (icache s)[i := ip] \<and> fsstate.more t = fsstate.more s"

lemma fx_txr:
  assumes "txr s V B (held s) t" "finite B" "card B \<le> k"
  shows "fx s i (inode_at s i) k t"
  using assms more_icache[OF txrD(13)[OF assms(1)]] unfolding fx_def txr_def by auto

lemma fx_trans:
  assumes "fx s i ip k t" "fx t i jp m u"
  shows "fx s i jp (k + m) u"
proof -
  obtain B where B: "finite B" "card B \<le> k" "dirty t = dirty s \<union> B" using assms(1) by (auto simp: fx_def)
  obtain C where C: "finite C" "card C \<le> m" "dirty u = dirty t \<union> C" using assms(2) by (auto simp: fx_def)
  have "card (B \<union> C) \<le> k + m" using card_Un_le[of B C] B(2) C(2) by linarith
  then have "\<exists>D. finite D \<and> card D \<le> k + m \<and> dirty u = dirty s \<union> D"
    using B C by (intro exI[of _ "B \<union> C"]) auto
  then show ?thesis using assms unfolding fx_def by auto
qed

lemma fx_mono: "fx s i ip k t \<Longrightarrow> k \<le> m \<Longrightarrow> fx s i ip m t"
  unfolding fx_def using order_trans by blast

lemma fx_room: "fx s i ip k t \<Longrightarrow> room s (k + j) \<Longrightarrow> room t j"
proof -
  assume a: "fx s i ip k t" "room s (k + j)"
  then obtain B where B: "finite B" "card B \<le> k" "dirty t = dirty s \<union> B" by (auto simp: fx_def)
  have "card (dirty t) \<le> card (dirty s) + k" using card_Un_le[of "dirty s" B] B by simp
  moreover have "lsize (log t) = lsize (log s)" using a(1) by (auto simp: fx_def)
  ultimately show "room t j" using a(2) by (simp add: room_def)
qed

lemma fx_home: "fx s i ip k t \<Longrightarrow> home t b = home s b"
  by (auto simp: fx_def home_def)

lemma fx_datab: "fx s i ip k t \<Longrightarrow> datab t sz nin c = datab s sz nin c"
  by (simp add: datab_def fx_home)

lemma fx_upd: "linv s \<Longrightarrow> fx s i (f (inode_at s i)) 0 (upd_inode i f s)"
  by (auto simp: fx_def upd_inode_def intro!: exI[of _ "{}"] exI[of _ "lh (log s)"])

text \<open>The state in which a file operation works: nothing held, the map of file \<open>i\<close> well formed.\<close>

definition good :: "nat \<Rightarrow> nat \<Rightarrow> nat \<Rightarrow> 'a fsstate_scheme \<Rightarrow> bool" where
  "good sz nin i s \<longleftrightarrow> fs_ok s sz nin \<and> held s = {} \<and> i < length (icache s) \<and> ip_dev (inode_at s i) = 1 \<and>
    file_map (datab s sz nin) nin (view s) (addrs_of s i)"

text \<open>
  A step that may map blocks: at most \<open>k\<close> blocks logged and \<open>f\<close> allocated, mapped blocks stay
  where they are, the contents do not change.
\<close>

definition fstep :: "nat \<Rightarrow> nat \<Rightarrow> nat \<Rightarrow> 'a fsstate_scheme \<Rightarrow> nat \<Rightarrow> nat \<Rightarrow> 'a fsstate_scheme \<Rightarrow> bool" where
  "fstep sz nin i s k f t \<longleftrightarrow>
    good sz nin i t \<and> fx s i ((inode_at s i)\<lparr>ip_addrs := addrs_of t i\<rparr>) k t \<and>
    nfree sz nin (view s) \<le> nfree sz nin (view t) + f \<and>
    (\<forall>bn < MAXFILE. fmap s i bn \<noteq> 0 \<longrightarrow> fmap t i bn = fmap s i bn)"

lemma fstep_inode:
  assumes "fstep sz nin i s k f t"
  shows "inode_at t i = (inode_at s i)\<lparr>ip_addrs := addrs_of t i\<rparr>" "good sz nin i t"
    "nfree sz nin (view s) \<le> nfree sz nin (view t) + f"
    "bn < MAXFILE \<Longrightarrow> fmap s i bn \<noteq> 0 \<Longrightarrow> fmap t i bn = fmap s i bn" "room s (k + j) \<Longrightarrow> room t j"
    "length (icache t) = length (icache s)"
proof -
  have f: "fx s i ((inode_at s i)\<lparr>ip_addrs := addrs_of t i\<rparr>) k t" and g: "good sz nin i t"
    using assms by (auto simp: fstep_def)
  then have c: "icache t = (icache s)[i := (inode_at s i)\<lparr>ip_addrs := addrs_of t i\<rparr>]" "i < length (icache t)"
    by (auto simp: fx_def good_def)
  then have "i < length (icache s)" by (metis length_list_update)
  then show "inode_at t i = (inode_at s i)\<lparr>ip_addrs := addrs_of t i\<rparr>" using c(1) by (metis nth_list_update_eq)
  show "room s (k + j) \<Longrightarrow> room t j" using fx_room[OF f] .
  show "length (icache t) = length (icache s)" by (subst c(1)) simp
qed (use assms in \<open>auto simp: fstep_def\<close>)

lemma fstep_refl: "good sz nin i s \<Longrightarrow> fstep sz nin i s 0 0 s"
  by (auto simp: fstep_def fx_def good_def fs_ok_def alloc_ok_def intro!: exI[of _ "{}"] exI[of _ "lh (log s)"])

lemma fstep_trans:
  assumes "fstep sz nin i s k f t" "fstep sz nin i t m g u"
  shows "fstep sz nin i s (k + m) (f + g) u"
proof -
  have 1: "fx s i ((inode_at s i)\<lparr>ip_addrs := addrs_of t i\<rparr>) k t" using assms(1) by (simp add: fstep_def)
  have "fx t i ((inode_at t i)\<lparr>ip_addrs := addrs_of u i\<rparr>) m u" using assms(2) by (simp add: fstep_def)
  moreover have "(inode_at t i)\<lparr>ip_addrs := addrs_of u i\<rparr> = (inode_at s i)\<lparr>ip_addrs := addrs_of u i\<rparr>"
    using fstep_inode(1)[OF assms(1)] by (metis inode.update_convs(13) inode.surjective)
  ultimately have "fx s i ((inode_at s i)\<lparr>ip_addrs := addrs_of u i\<rparr>) (k + m) u" using fx_trans[OF 1] by simp
  then show ?thesis using assms fstep_inode(3,4)[OF assms(1)] fstep_inode(3,4)[OF assms(2)] by (auto simp: fstep_def)
qed

lemma fstep_mono: "fstep sz nin i s k f t \<Longrightarrow> k \<le> m \<Longrightarrow> f \<le> g \<Longrightarrow> fstep sz nin i s m g t"
  using fx_mono by (fastforce simp: fstep_def)

lemma fstep_txr:
  assumes g: "good sz nin i s" and t: "txr s V B {} t" and B: "finite B" "card B \<le> k"
    and V: "V 1 = view s 1" "\<And>c. c < sz \<Longrightarrow> used nin V c = used nin (view s) c"
    and m: "\<And>bn. bn < MAXFILE \<Longrightarrow> naddr V (addrs_of s i) bn = fmap s i bn"
  shows "fstep sz nin i s k 0 t"
proof -
  have h: "held s = {}" using g by (simp add: good_def)
  have t': "txr s V B (held s) t" using t h by simp
  have c: "icache t = icache s" using more_icache(1)[OF txrD(13)[OF t]] .
  have D: "view t = V" "held t = {}" using txrD(3,5)[OF t] by auto
  have fs: "fs_ok t sz nin" using fs_ok_txr[OF t' _ V(1)] V(2) g by (simp add: good_def)
  have old: "file_map (datab s sz nin) nin (view s) (addrs_of s i)" using g by (simp add: good_def)
  have "used nin V c = used nin (view s) c" if "datab s sz nin c" for c using V(2) that by (simp add: datab_def)
  then have "file_map (datab t sz nin) nin V (addrs_of s i)"
    using old datab_txr[OF t] m unfolding file_map_def by simp
  then have "good sz nin i t" using g fs c D by (simp add: good_def)
  moreover have "nfree sz nin (view t) = nfree sz nin (view s)"
    unfolding nfree_def D(1) using V(2) by (metis (no_types, lifting) Collect_cong)
  moreover have "fx s i ((inode_at s i)\<lparr>ip_addrs := addrs_of t i\<rparr>) k t" using fx_txr[OF t' B] c by simp
  ultimately show ?thesis using m D c by (simp add: fstep_def)
qed

section \<open>The block map\<close>

text \<open>Allocation of a block and what it means for the map of the file.\<close>

lemma good_alloc:
  assumes g: "good sz nin i s" and b: "datab s sz nin b" "\<not> used nin (view s) b"
    and t: "txr s V B {} t" and V: "\<And>c. c \<noteq> ind \<Longrightarrow> V c = alloc_view nin b (view s) c"
    and ind: "ind = b \<or> (addrs_of s i ! NDIRECT \<noteq> 0 \<and> ind = unat (addrs_of s i ! NDIRECT))"
    and fs: "fs_ok t sz nin"
  shows "used nin V b" "c < sz \<Longrightarrow> used nin (view s) c \<Longrightarrow> used nin V c"
    "datab s sz nin c \<Longrightarrow> used nin (view s) c \<Longrightarrow> c \<noteq> ind \<Longrightarrow> V c = view s c"
    "nfree sz nin (view s) \<le> nfree sz nin (view t) + 1"
proof -
  have ok: "fs_ok s sz nin" "file_map (datab s sz nin) nin (view s) (addrs_of s i)"
    using g by (auto simp: good_def)
  have di: "datab s sz nin ind" using ind b(1) file_mapD(4)[OF ok(2)] by auto
  then have u: "used nin V c = used nin (alloc_view nin b (view s)) c" if "c < sz" for c
    using V that by (auto simp: used_def datab_def)
  have bs: "b < sz" using b(1) by (simp add: datab_def)
  show "used nin V b" using u[OF bs] alloc_used[OF ok(1) b(1) bs] by simp
  show "c < sz \<Longrightarrow> used nin (view s) c \<Longrightarrow> used nin V c"
    using u[of c] alloc_used[OF ok(1) b(1), of c] by simp
  show "datab s sz nin c \<Longrightarrow> used nin (view s) c \<Longrightarrow> c \<noteq> ind \<Longrightarrow> V c = view s c"
    using V[of c] alloc_data(1)[OF b(1), of c] b(2) by metis
  have "nfree sz nin V = nfree sz nin (alloc_view nin b (view s))"
    unfolding nfree_def using u by (metis (no_types, lifting) Collect_cong)
  then show "nfree sz nin (view s) \<le> nfree sz nin (view t) + 1"
    using alloc_nfree[OF ok(1) b] txrD(3)[OF t] by simp
qed

lemma unat_of_block: "fs_ok s sz nin \<Longrightarrow> datab s sz nin b \<Longrightarrow> unat (of_nat b :: uint) = b"
  using fs_ok_sz[of s sz nin] by (intro unat_of_nat32) (auto simp: datab_def)

lemma fx_set_addr:
  assumes "fx s i (inode_at s i) k t" "icache t = icache s" "i < length (icache s)"
  shows "fx s i ((inode_at s i)\<lparr>ip_addrs := addrs_of (set_addr i n b t) i\<rparr>) k (set_addr i n b t)"
    and "addrs_of (set_addr i n b t) i = (addrs_of s i)[n := of_nat b]"
proof -
  show 1: "addrs_of (set_addr i n b t) i = (addrs_of s i)[n := of_nat b]"
    using assms(2,3) by (simp add: set_addr_def upd_inode_def)
  have l: "linv t" using assms(1) by (simp add: fx_def)
  have e: "(inode_at s i)\<lparr>ip_addrs := (addrs_of s i)[n := of_nat b]\<rparr> =
      ip_addrs_update (\<lambda>a. a[n := of_nat b]) (inode_at t i)" using assms(2) by simp
  show "fx s i ((inode_at s i)\<lparr>ip_addrs := addrs_of (set_addr i n b t) i\<rparr>) k (set_addr i n b t)"
    unfolding 1 e using fx_trans[OF assms(1) fx_upd[OF l, of i "ip_addrs_update (\<lambda>a. a[n := of_nat b])"]]
    by (simp add: set_addr_def)
qed

lemma good_set_addr:
  assumes "good sz nin i s" "txr s V B {} t" "fs_ok t sz nin" "file_map (datab s sz nin) nin V a"
    and "addrs_of (set_addr i n b t) i = a"
  shows "good sz nin i (set_addr i n b t)"
proof -
  have c: "icache t = icache s" using more_icache(1)[OF txrD(13)[OF assms(2)]] .
  have "fs_ok (set_addr i n b t) sz nin" "held (set_addr i n b t) = {}" "view (set_addr i n b t) = V"
    "datab (set_addr i n b t) sz nin = datab s sz nin"
    using assms(3) txrD(3,5)[OF assms(2)] datab_txr[OF assms(2)]
    by (simp_all add: set_addr_def upd_inode_def fun_eq_iff)
  moreover have "i < length (icache (set_addr i n b t))" "ip_dev (inode_at (set_addr i n b t) i) = 1"
    using assms(1) c by (simp_all add: good_def set_addr_def upd_inode_def)
  ultimately show ?thesis using assms(4,5) by (simp add: good_def)
qed

lemma addr_or_alloc_direct:
  assumes g: "good sz nin i s" and n: "n < NDIRECT" and room: "room s 2" and f: "0 < nfree sz nin (view s)"
    and Q: "\<And>t. \<lbrakk>fstep sz nin i s 2 1 t; fmap t i n \<noteq> 0; \<And>x. x < MAXFILE * BSIZE \<Longrightarrow> fcont t i x = fcont s i x\<rbrakk>
        \<Longrightarrow> Q (fmap t i n) t"
  shows "runs (addr_or_alloc i n s) Q"
proof (cases "addrs_of s i ! n = 0")
  case False
  have "fstep sz nin i s 2 1 s" using fstep_mono[OF fstep_refl[OF g]] by simp
  moreover have "fmap s i n = unat (addrs_of s i ! n)" using n by (simp add: naddr_def)
  ultimately show ?thesis using Q[of s] False by (simp add: addr_or_alloc_def Let_def unat_eq_0)
next
  case True
  have ok: "fs_ok s sz nin" "held s = {}" "i < length (icache s)" "ip_dev (inode_at s i) = 1"
    "file_map (datab s sz nin) nin (view s) (addrs_of s i)" using g by (auto simp: good_def)
  have "runs (balloc 1 s) (\<lambda>b t. Q b (set_addr i n b t))"
  proof (rule balloc_some[OF ok(1) room f])
    fix b t assume b: "datab s sz nin b" "\<not> used nin (view s) b" "fs_ok t sz nin"
      and t: "txr s (alloc_view nin b (view s)) {BBLOCK b nin, b} (held s) t"
    let ?V = "alloc_view nin b (view s)" and ?a = "(addrs_of s i)[n := of_nat b]" and ?u = "set_addr i n b t"
    note m = file_mapD[OF ok(5)]
    have t0: "txr s ?V {BBLOCK b nin, b} {} t" using t ok(2) by simp
    note al = good_alloc[OF g b(1,2) t0 refl disjI1[OF refl] b(3)]
    have ub: "unat (of_nat b :: uint) = b" using unat_of_block[OF ok(1) b(1)] .
    have c: "icache t = icache s" using more_icache(1)[OF txrD(13)[OF t]] .
    have card: "card {BBLOCK b nin, b} \<le> 2" by (simp add: card_insert_if)
    note st = fx_set_addr[OF fx_txr[OF t _ card] c ok(3), of n b, simplified]
    have old: "naddr ?V (addrs_of s i) bm = fmap s i bm" for bm
      by (rule naddr_agree) (use al(3) m(4) b(2) in metis)
    have new: "maps_new n b (view s) (addrs_of s i) ?V ?a"
      using naddr_set_direct[OF n m(1), of ?V] old ub by (simp add: maps_new_def)
    have nM: "n < MAXFILE" using n by (simp add: MAXFILE_def)
    have "file_map (datab s sz nin) nin ?V ?a"
      by (rule file_map_new[OF ok(5) new _ _ nM b(1) al(1) b(2)])
        (use m(1) n al(2) in \<open>auto simp: datab_def\<close>)
    then have gu: "good sz nin i ?u" using good_set_addr[OF g t0 b(3) _ st(2)] by simp
    have v: "view ?u = ?V" using txrD(3)[OF t] by (simp add: set_addr_def upd_inode_def)
    have mu: "fmap ?u i bm = (if bm = n then b else fmap s i bm)" if "bm < MAXFILE" for bm
      using new that v st(2) by (simp add: maps_new_def)
    have z: "fmap s i n = 0" using True n by (simp add: naddr_def)
    have "nfree sz nin (view s) \<le> nfree sz nin (view ?u) + 1" using al(4) v txrD(3)[OF t] by simp
    then have fst: "fstep sz nin i s 2 1 ?u" using gu st mu z by (auto simp: fstep_def)
    have cont: "fcont ?u i x = fcont s i x" if "x < MAXFILE * BSIZE" for x
      unfolding v st(2)
    proof (rule fbyte_new[OF new z _ _ that])
      show "?V b = replicate BSIZE 0" by (simp add: alloc_view_def)
      fix bm assume "bm < MAXFILE" "fmap s i bm \<noteq> 0"
      then show "?V (fmap s i bm) = view s (fmap s i bm)" using m(2)[of bm] al(3) b(2) by metis
    qed
    have "fmap ?u i n = b" using mu[OF nM] by simp
    then show "Q b ?u" using Q[OF fst _ cont] b(1) by (simp add: datab_def)
  qed (simp add: ok(2))
  then show ?thesis using True ok(4) by (simp add: addr_or_alloc_def Let_def)
qed

lemma addr_or_alloc_indirect:
  assumes g: "good sz nin i s" and room: "room s 2" and f: "0 < nfree sz nin (view s)"
    and Q: "\<And>t. \<lbrakk>fstep sz nin i s 2 1 t; addrs_of t i ! NDIRECT \<noteq> 0;
        \<And>bn. bn < MAXFILE \<Longrightarrow> fmap t i bn = fmap s i bn;
        \<And>x. x < MAXFILE * BSIZE \<Longrightarrow> fcont t i x = fcont s i x\<rbrakk>
        \<Longrightarrow> Q (unat (addrs_of t i ! NDIRECT)) t"
  shows "runs (addr_or_alloc i NDIRECT s) Q"
proof (cases "addrs_of s i ! NDIRECT = 0")
  case False
  have "fstep sz nin i s 2 1 s" using fstep_mono[OF fstep_refl[OF g]] by simp
  then show ?thesis using Q[of s] False by (simp add: addr_or_alloc_def Let_def)
next
  case True
  have ok: "fs_ok s sz nin" "held s = {}" "i < length (icache s)" "ip_dev (inode_at s i) = 1"
    "file_map (datab s sz nin) nin (view s) (addrs_of s i)" using g by (auto simp: good_def)
  have "runs (balloc 1 s) (\<lambda>b t. Q b (set_addr i NDIRECT b t))"
  proof (rule balloc_some[OF ok(1) room f])
    fix b t assume b: "datab s sz nin b" "\<not> used nin (view s) b" "fs_ok t sz nin"
      and t: "txr s (alloc_view nin b (view s)) {BBLOCK b nin, b} (held s) t"
    let ?V = "alloc_view nin b (view s)" and ?a = "(addrs_of s i)[NDIRECT := of_nat b]"
      and ?u = "set_addr i NDIRECT b t"
    note m = file_mapD[OF ok(5)]
    have t0: "txr s ?V {BBLOCK b nin, b} {} t" using t ok(2) by simp
    note al = good_alloc[OF g b(1,2) t0 refl disjI1[OF refl] b(3)]
    have ub: "unat (of_nat b :: uint) = b" using unat_of_block[OF ok(1) b(1)] .
    have b0: "(of_nat b :: uint) \<noteq> 0" using ub b(1) by (metis datab_def unat_0)
    have c: "icache t = icache s" using more_icache(1)[OF txrD(13)[OF t]] .
    have card: "card {BBLOCK b nin, b} \<le> 2" by (simp add: card_insert_if)
    note st = fx_set_addr[OF fx_txr[OF t _ card] c ok(3), of NDIRECT b, simplified]
    have zero: "?V (unat (of_nat b :: uint)) = replicate BSIZE 0" unfolding ub by (simp add: alloc_view_def)
    note im = file_map_indirect[where V' = ?V, OF ok(5) True b0 zero]
    have fm: "file_map (datab s sz nin) nin ?V ?a" and mu: "\<And>bn. bn < MAXFILE \<Longrightarrow> naddr ?V ?a bn = fmap s i bn"
      using im[unfolded ub, OF b(1) al(1) b(2)] al(2) by (auto simp: datab_def)
    have gu: "good sz nin i ?u" using good_set_addr[OF g t0 b(3) fm st(2)] .
    have v: "view ?u = ?V" using txrD(3)[OF t] by (simp add: set_addr_def upd_inode_def)
    have "nfree sz nin (view s) \<le> nfree sz nin (view ?u) + 1" using al(4) v txrD(3)[OF t] by simp
    then have fst: "fstep sz nin i s 2 1 ?u" using gu st mu v by (auto simp: fstep_def)
    have cont: "fcont ?u i x = fcont s i x" if "x < MAXFILE * BSIZE" for x
      unfolding v st(2)
    proof (rule fbyte_same[OF mu _ that])
      fix bm assume "bm < MAXFILE" "fmap s i bm \<noteq> 0"
      then show "?V (fmap s i bm) = view s (fmap s i bm)" using m(2)[of bm] al(3) b(2) by metis
    qed
    have "addrs_of ?u i ! NDIRECT = of_nat b" using st(2) m(1) by simp
    then show "Q b ?u" using Q[OF fst _ _ cont] mu v st(2) ub b0 by simp
  qed (simp add: ok(2))
  then show ?thesis using True ok(4) by (simp add: addr_or_alloc_def Let_def)
qed

text \<open>Looking up or allocating block \<open>k\<close> of the indirect block.\<close>

definition indirect_slot_op :: "nat \<Rightarrow> nat \<Rightarrow> nat \<Rightarrow> 'a fsstate_scheme \<Rightarrow> (nat, 'a fsstate_scheme) outcome" where
  "indirect_slot_op i k addr s =
    obind (bread (ip_dev (inode_at s i)) addr s) (\<lambda>bp s.
        let a = get_slot unle32 4 k (data (bufs s ! bp)) in
        if a = 0 then
          obind (balloc (ip_dev (inode_at s i)) s) (\<lambda>b s.
          obind (log_write bp (set_data bp (put_slot le32 4 k (of_nat b) (data (bufs s ! bp))) s)) (\<lambda>_ s.
          obind (brelse bp s) (\<lambda>_ s. Ret b s)))
        else obind (brelse bp s) (\<lambda>_ s. Ret (unat a) s))"

lemma bmap_indirect:
  "\<not> bn < NDIRECT \<Longrightarrow> bn < MAXFILE \<Longrightarrow>
    bmap i bn s = obind (addr_or_alloc i NDIRECT s) (indirect_slot_op i (bn - NDIRECT))"
  using MAXFILE_indirect[of bn] by (simp add: bmap_def Let_def indirect_slot_op_def[abs_def])

lemma txr_inode: "txr s V B H t \<Longrightarrow> icache t = icache s"
  for s :: "'a fsstate_scheme"
  using more_icache(1)[OF txrD(13)] .

lemma slot_lookup:
  assumes inv: "linv s" "held s = {}" and dev: "ip_dev (inode_at s i) = 1"
    and ind: "addrs_of s i ! NDIRECT \<noteq> 0" "unat (addrs_of s i ! NDIRECT) < length (memdisk s)"
    and mapped: "fmap s i (NDIRECT + k) \<noteq> 0"
    and Q: "\<And>t. txr s (view s) {} {} t \<Longrightarrow> Q (fmap s i (NDIRECT + k)) t"
  shows "runs (indirect_slot_op i k (unat (addrs_of s i ! NDIRECT)) s) Q"
  unfolding indirect_slot_op_def runs_obind[of "bread _ _ _"] dev
proof (rule tx_bread[OF inv(1) can_read[OF inv(1) ind(2)]])
  let ?n = "unat (addrs_of s i ! NDIRECT)"
  show "?n \<notin> held s" "card (held s) + card (dirty s) < NBUF" using inv linv_dirty_small[OF inv(1)] by simp_all
  fix bp t assume t: "txr s (view s) {} (insert ?n (held s)) t" "holds t bp ?n" "data (bufs t ! bp) = view s ?n"
    "can_rel ?n (babs t)"
  have m: "fmap s i (NDIRECT + k) = unat (get_slot unle32 4 k (view s ?n))" using ind(1) by (simp add: naddr_def)
  have "runs (brelse bp t) (\<lambda>_ u. Q (fmap s i (NDIRECT + k)) u)"
  proof (rule tx_brelse[OF txrD(2)[OF t(1)] t(2,4)])
    fix u assume "txr t (view t) {} (held t - {?n}) u"
    from txr_trans[OF t(1) this] show "Q (fmap s i (NDIRECT + k)) u"
      using Q txrD(3,5)[OF t(1)] inv(2) by simp
  qed
  then show "runs (let a = get_slot unle32 4 k (data (bufs t ! bp)) in
        if a = 0 then
          obind (balloc (ip_dev (inode_at t i)) t) (\<lambda>b s.
          obind (log_write bp (set_data bp (put_slot le32 4 k (of_nat b) (data (bufs s ! bp))) s)) (\<lambda>_ s.
          obind (brelse bp s) (\<lambda>_ s. Ret b s)))
        else obind (brelse bp t) (\<lambda>_ s. Ret (unat a) s)) Q"
    using mapped by (simp add: t(3) m Let_def unat_eq_0)
qed

lemma fs_ok_held:
  assumes "fs_ok s sz nin" "txr s (view s) {} {c} t" "datab s sz nin c"
  shows "fs_ok t sz nin"
proof -
  have "fs_geo t sz nin" using fs_geo_txr[OF assms(2) refl] assms(1) by (simp add: fs_ok_def alloc_ok_def)
  then have "alloc_ok t sz nin"
    using assms(1,3) txrD(2,5,10)[OF assms(2)] by (auto simp: fs_ok_def alloc_ok_def datab_def)
  then show ?thesis using assms(1) txrD(3)[OF assms(2)] datab_txr[OF assms(2)] by (simp add: fs_ok_def)
qed

lemma fstep_slot:
  assumes g: "good sz nin i s" and ind: "addrs_of s i ! NDIRECT \<noteq> 0" "c = unat (addrs_of s i ! NDIRECT)"
    and k: "k < NINDIRECT" "fmap s i (NDIRECT + k) = 0"
    and b: "datab s sz nin b" "\<not> used nin (view s) b"
    and t: "txr s ((alloc_view nin b (view s))(c := put_slot le32 4 k (of_nat b) (view s c))) {BBLOCK b nin, b, c} {} t"
  shows "fstep sz nin i s 3 1 t" "fmap t i (NDIRECT + k) = b" "x < MAXFILE * BSIZE \<Longrightarrow> fcont t i x = fcont s i x"
proof -
  let ?A = "alloc_view nin b (view s)" and ?V = "(alloc_view nin b (view s))(c := put_slot le32 4 k (of_nat b) (view s c))"
    and ?a = "addrs_of s i" and ?bn = "NDIRECT + k"
  have ok: "fs_ok s sz nin" "held s = {}" "i < length (icache s)"
    "file_map (datab s sz nin) nin (view s) ?a" using g by (auto simp: good_def)
  note m = file_mapD[OF ok(4)]
  have dc: "datab s sz nin c" "used nin (view s) c" using m(4)[OF ind(1)] ind(2) by auto
  have bc: "b \<noteq> c" using dc(2) b(2) by auto
  have Ac: "?A c = view s c" using alloc_data(1)[OF b(1) dc(1) bc] .
  have ub: "unat (of_nat b :: uint) = b" using unat_of_block[OF ok(1) b(1)] .
  have lin: "linv s" "c < length (memdisk s)" using fs_ok_sz[OF ok(1)] dc(1) by (auto simp: datab_def home_def)
  have bM: "?bn < MAXFILE" using k(1) by (simp add: MAXFILE_def)
  have same: "naddr ?A ?a bm = fmap s i bm" for bm by (rule naddr_agree) (use Ac ind(2) in simp)
  have new: "maps_new ?bn b (view s) ?a ?V ?a" unfolding maps_new_def
  proof (intro allI impI)
    fix bm assume bm: "bm < MAXFILE"
    have len: "length (?A (unat (?a ! NDIRECT))) = BSIZE" using Ac view_size[OF lin] ind(2) by simp
    show "naddr ?V ?a bm = (if bm = ?bn then b else fmap s i bm)"
      using naddr_put_slot[where V = ?A, OF ind(1) k(1) bm len, of "of_nat b"] Ac ind(2) ub same by simp
  qed
  have D: "view t = ?V" "held t = {}" "icache t = icache s" using txrD(3,5)[OF t] txr_inode[OF t] by auto
  have u: "used nin ?V e = used nin ?A e" if "e < sz" for e using dc(1) that by (auto simp: used_def datab_def)
  have V1: "?V 1 = view s 1" using alloc_data(2)[OF b(1) dc(1) bc, of "view s"] dc(1) by (simp add: datab_def)
  have fs: "fs_ok t sz nin"
  proof (rule fs_ok_txr[where V = ?V and B = "{BBLOCK b nin, b, c}", OF _ ok(1) V1])
    show "txr s ?V {BBLOCK b nin, b, c} (held s) t" using t ok(2) by simp
    fix e assume "e < sz" "used nin (view s) e"
    then show "used nin ?V e" using u alloc_used[OF ok(1) b(1), of e] by simp
  qed
  have uV: "used nin ?V b" "e < sz \<Longrightarrow> used nin (view s) e \<Longrightarrow> used nin ?V e" for e
    using u[of b] u[of e] alloc_used[OF ok(1) b(1)] b(1) by (auto simp: datab_def)
  have fm: "file_map (datab s sz nin) nin ?V ?a"
    by (rule file_map_new[OF ok(4) new m(1) refl bM b(1) uV(1) b(2)]) (use uV(2) in \<open>auto simp: datab_def\<close>)
  have "datab t sz nin = datab s sz nin" using datab_txr[OF t] by (simp add: fun_eq_iff)
  then have gt: "good sz nin i t" using g fs fm D by (simp add: good_def)
  have mt: "fmap t i bm = (if bm = ?bn then b else fmap s i bm)" if "bm < MAXFILE" for bm
    using new that D by (simp add: maps_new_def)
  then show "fmap t i ?bn = b" using bM by simp
  have card: "card {BBLOCK b nin, b, c} \<le> 3" by (simp add: card_insert_if)
  have "nfree sz nin ?V = nfree sz nin ?A" unfolding nfree_def using u by (metis (no_types, lifting) Collect_cong)
  then have nf: "nfree sz nin (view s) \<le> nfree sz nin (view t) + 1" using alloc_nfree[OF ok(1) b] D(1) by simp
  have "fx s i (inode_at s i) 3 t"
    by (rule fx_txr[of s ?V "{BBLOCK b nin, b, c}"]) (use t ok(2) card in simp_all)
  then show "fstep sz nin i s 3 1 t" using gt nf mt k(2) D(3) by (auto simp: fstep_def)
  assume x: "x < MAXFILE * BSIZE"
  show "fcont t i x = fcont s i x" unfolding D
  proof (rule fbyte_new[OF new k(2) _ _ x])
    show "?V b = replicate BSIZE 0" using bc by (simp add: alloc_view_def)
    fix bm assume bm: "bm < MAXFILE" "fmap s i bm \<noteq> 0"
    have "fmap s i bm \<noteq> c" "fmap s i bm \<noteq> b" using m(5)[OF ind(1) bm(1)] ind(2) m(2)[OF bm] b(2) by auto
    then show "?V (fmap s i bm) = view s (fmap s i bm)" using alloc_data(1)[OF b(1), of "fmap s i bm"] m(2)[OF bm] by simp
  qed
qed

lemma slot_alloc:
  assumes g: "good sz nin i s" and ind: "addrs_of s i ! NDIRECT \<noteq> 0" and k: "k < NINDIRECT"
    and room: "room s 3" and f: "0 < nfree sz nin (view s)" and unmapped: "fmap s i (NDIRECT + k) = 0"
    and Q: "\<And>t. \<lbrakk>fstep sz nin i s 3 1 t; fmap t i (NDIRECT + k) \<noteq> 0;
        \<And>x. x < MAXFILE * BSIZE \<Longrightarrow> fcont t i x = fcont s i x\<rbrakk> \<Longrightarrow> Q (fmap t i (NDIRECT + k)) t"
  shows "runs (indirect_slot_op i k (unat (addrs_of s i ! NDIRECT)) s) Q"
proof -
  let ?c = "unat (addrs_of s i ! NDIRECT)" and ?a = "addrs_of s i"
  have ok: "fs_ok s sz nin" "held s = {}" "ip_dev (inode_at s i) = 1"
    "file_map (datab s sz nin) nin (view s) ?a" using g by (auto simp: good_def)
  note m = file_mapD[OF ok(4)]
  have dc: "datab s sz nin ?c" "used nin (view s) ?c" using m(4)[OF ind] by auto
  have lin: "linv s" "?c < length (memdisk s)" "home s ?c" "1 \<le> outstanding (log s)"
    using fs_ok_sz[OF ok(1)] dc(1) ok(1) by (auto simp: datab_def home_def fs_ok_def alloc_ok_def)
  have slot: "get_slot unle32 4 k (view s ?c) = 0" using unmapped ind by (simp add: naddr_def unat_eq_0)
  have len: "length (put_slot le32 4 k w (view s ?c)) = BSIZE" for w
    using view_size[OF lin(1,2)] indirect_slot[OF k] by (simp add: u32.length_put_slot)
  have "runs (bread 1 ?c s) (\<lambda>bp t. runs (balloc 1 t) (\<lambda>b u.
      runs (obind (log_write bp (set_data bp (put_slot le32 4 k (of_nat b) (data (bufs u ! bp))) u))
        (\<lambda>_ s. brelse bp s)) (\<lambda>_. Q b)) \<and> data (bufs t ! bp) = view s ?c \<and> ip_dev (inode_at t i) = 1)"
  proof (rule tx_bread[OF lin(1) can_read[OF lin(1,2)]], goal_cases)
    case 1 show ?case using ok(2) by simp
  next
    case 2 show ?case using ok(2) linv_dirty_small[OF lin(1)] by simp
  next
    case (3 bp t)
    have t: "txr s (view s) {} {?c} t" using 3(1) ok(2) by simp
    have D: "view t = view s" "held t = {?c}" using txrD(3,5)[OF t] by auto
    have "runs (balloc 1 t) (\<lambda>b u.
      runs (obind (log_write bp (set_data bp (put_slot le32 4 k (of_nat b) (data (bufs u ! bp))) u))
        (\<lambda>_ s. brelse bp s)) (\<lambda>_. Q b))"
    proof (rule balloc_some[OF fs_ok_held[OF ok(1) t dc(1)]])
      show "room t 2" using txr_room_same[OF t] room_mono[OF room] by simp
      show "0 < nfree sz nin (view t)" using f D by simp
      show "used nin (view t) c" if "c \<in> held t" for c using that D dc(2) by simp
      fix b u assume b: "datab t sz nin b" "\<not> used nin (view t) b" and u: "fs_ok u sz nin"
        "txr t (alloc_view nin b (view t)) {BBLOCK b nin, b} (held t) u"
      have b': "datab s sz nin b" "\<not> used nin (view s) b" using b D datab_txr[OF t] by auto
      have Ac: "alloc_view nin b (view s) ?c = view s ?c" using alloc_data(1)[OF b'(1) dc(1)] dc(2) b'(2) by metis
      have E: "view u = alloc_view nin b (view s)" "held u = {?c}" using txrD(3,5)[OF u(2)] D by auto
      have h: "holds u bp ?c" using txrD(14)[OF u(2) 3(2)] D by simp
      have dat: "data (bufs u ! bp) = view s ?c" using holds_data[OF linv_binv[OF txrD(2)[OF u(2)]] h] E Ac by simp
      have c2: "card {BBLOCK b nin, b} \<le> 2" by (simp add: card_insert_if)
      show "runs (obind (log_write bp (set_data bp (put_slot le32 4 k (of_nat b) (data (bufs u ! bp))) u))
          (\<lambda>_ s. brelse bp s)) (\<lambda>_. Q b)"
        unfolding dat
      proof (rule tx_modify[OF txrD(2)[OF u(2)] h _ _ _ len])
        show "1 \<le> outstanding (log u)" using lin(4) txrD(10)[OF t] txrD(10)[OF u(2)] by simp
        show "room u 1" using txr_room[OF u(2), of 2 1] c2 txr_room_same[OF t] room by simp
        show "home u ?c" using lin(3) txr_home[OF t] txr_home[OF u(2)] by simp
        fix v assume v: "txr u ((view u)(?c := put_slot le32 4 k (of_nat b) (view s ?c))) {?c} (held u - {?c}) v"
        have "txr s (view u) ({} \<union> {BBLOCK b nin, b}) {?c} u"
          by (rule txr_trans[OF t]) (use u(2) E D in auto)
        from txr_trans[OF this v]
        have "txr s ((alloc_view nin b (view s))(?c := put_slot le32 4 k (of_nat b) (view s ?c))) {BBLOCK b nin, b, ?c} {} v"
          using E by (simp add: insert_commute)
        note st = fstep_slot[OF g ind refl k unmapped b' this]
        show "Q b v" using Q[OF st(1) _ st(3)] st(2) b'(1) by (simp add: datab_def)
      qed
    qed
    then show ?case using 3(3) txr_inode[OF t] ok(3) by simp
  qed
  then show ?thesis
    unfolding indirect_slot_op_def runs_obind[of "bread _ _ _"] ok(3)
    by (rule runs_mono) (simp add: slot)
qed

lemma bmap_runs:
  assumes g: "good sz nin i s" and bn: "bn < MAXFILE" and room: "room s 5" and f: "2 \<le> nfree sz nin (view s)"
    and Q: "\<And>t. \<lbrakk>fstep sz nin i s 5 2 t; fmap t i bn \<noteq> 0; \<And>x. x < MAXFILE * BSIZE \<Longrightarrow> fcont t i x = fcont s i x\<rbrakk>
        \<Longrightarrow> Q (fmap t i bn) t"
  shows "runs (bmap i bn s) Q"
proof (cases "bn < NDIRECT")
  case True
  have "runs (addr_or_alloc i bn s) Q"
    by (rule addr_or_alloc_direct[OF g True room_mono[OF room]])
      (use f Q fstep_mono[of sz nin i s 2 1 _ 5 2] in auto)
  then show ?thesis using True by (simp add: bmap_def)
next
  case False
  let ?k = "bn - NDIRECT"
  have k: "?k < NINDIRECT" "NDIRECT + ?k = bn" using MAXFILE_indirect[OF bn False] False by auto
  show ?thesis unfolding bmap_indirect[OF False bn] runs_obind
  proof (rule addr_or_alloc_indirect[OF g room_mono[OF room]])
    fix t assume t: "fstep sz nin i s 2 1 t" "addrs_of t i ! NDIRECT \<noteq> 0"
      "\<And>bn. bn < MAXFILE \<Longrightarrow> fmap t i bn = fmap s i bn" "\<And>x. x < MAXFILE * BSIZE \<Longrightarrow> fcont t i x = fcont s i x"
    have gt: "good sz nin i t" using fstep_inode(2)[OF t(1)] .
    have ok: "linv t" "held t = {}" "ip_dev (inode_at t i) = 1" "file_map (datab t sz nin) nin (view t) (addrs_of t i)"
      using gt fs_ok_sz by (auto simp: good_def)
    show "runs (indirect_slot_op i ?k (unat (addrs_of t i ! NDIRECT)) t) Q"
    proof (cases "fmap t i bn = 0")
      case True
      show ?thesis
      proof (rule slot_alloc[OF gt t(2) k(1)])
        show "room t 3" using fstep_inode(5)[OF t(1), of 3] room by simp
        show "0 < nfree sz nin (view t)" using fstep_inode(3)[OF t(1)] f by simp
        fix u assume u: "fstep sz nin i t 3 1 u" "fmap u i (NDIRECT + ?k) \<noteq> 0"
          "\<And>x. x < MAXFILE * BSIZE \<Longrightarrow> fcont u i x = fcont t i x"
        have "fstep sz nin i s 5 2 u" using fstep_trans[OF t(1) u(1)] by (simp add: numeral_eq_Suc)
        then show "Q (fmap u i (NDIRECT + ?k)) u" using Q[of u] u(2,3) t(4) k(2) by simp
      qed (use True k(2) in simp)
    next
      case False
      have "unat (addrs_of t i ! NDIRECT) < length (memdisk t)"
        using file_mapD(4)[OF ok(4) t(2)] by (auto simp: datab_def home_def)
      then show ?thesis
      proof (rule slot_lookup[OF ok(1,2,3) t(2)])
        show "fmap t i (NDIRECT + ?k) \<noteq> 0" using False k(2) by simp
        fix u assume u: "txr t (view t) {} {} u"
        have "fstep sz nin i t 0 0 u" by (rule fstep_txr[OF gt u]) simp_all
        then have st: "fstep sz nin i s 5 2 u" using fstep_mono[OF fstep_trans[OF t(1)]] by simp
        have "view u = view t" "icache u = icache t" using txrD(3)[OF u] txr_inode[OF u] by auto
        then show "Q (fmap t i (NDIRECT + ?k)) u" using Q[OF st] False t(4) k(2) by simp
      qed
    qed
  qed (use f in auto)
qed

lemma bmap_mapped:
  assumes inv: "linv s" "held s = {}" and dev: "ip_dev (inode_at s i) = 1"
    and mp: "file_map G nin (view s) (addrs_of s i)" "\<And>c. G c \<Longrightarrow> c < length (memdisk s)"
    and bn: "bn < MAXFILE" "fmap s i bn \<noteq> 0"
    and Q: "\<And>t. txr s (view s) {} {} t \<Longrightarrow> Q (fmap s i bn) t"
  shows "runs (bmap i bn s) Q"
proof (cases "bn < NDIRECT")
  case True
  then have "fmap s i bn = unat (addrs_of s i ! bn)" by (simp add: naddr_def)
  moreover have "txr s (view s) {} {} s" using txr_refl[OF inv(1)] inv(2) by simp
  ultimately show ?thesis using True bn(2) Q[of s] by (simp add: bmap_def addr_or_alloc_def Let_def unat_eq_0)
next
  case False
  have k: "NDIRECT + (bn - NDIRECT) = bn" using False by simp
  have ind: "addrs_of s i ! NDIRECT \<noteq> 0" using False bn(2) by (auto simp: naddr_def)
  have l: "unat (addrs_of s i ! NDIRECT) < length (memdisk s)" using file_mapD(4)[OF mp(1) ind] mp(2) by simp
  have "runs (indirect_slot_op i (bn - NDIRECT) (unat (addrs_of s i ! NDIRECT)) s) Q"
    by (rule slot_lookup[OF inv dev ind l]) (use k bn(2) Q in simp_all)
  then show ?thesis using ind by (simp add: bmap_indirect[OF False bn(1)] addr_or_alloc_def Let_def)
qed

section \<open>Reading\<close>

lemma within_block:
  assumes "off mod BSIZE + j < BSIZE"
  shows "(off + j) div BSIZE = off div BSIZE" "(off + j) mod BSIZE = off mod BSIZE + j"
proof -
  have "off + j = off div BSIZE * BSIZE + (off mod BSIZE + j)" by simp
  then show "(off + j) div BSIZE = off div BSIZE" "(off + j) mod BSIZE = off mod BSIZE + j"
    using assms by (metis div_mult_self3 div_less add.right_neutral gr_implies_not0, metis mod_mult_self3 mod_less)
qed

lemma chunk_fbyte:
  assumes "naddr V a (off div BSIZE) \<noteq> 0" "length (V (naddr V a (off div BSIZE))) = BSIZE" "off mod BSIZE + m \<le> BSIZE"
  shows "chunk (off mod BSIZE) m (V (naddr V a (off div BSIZE))) = map (fbyte V a) [off..<off + m]"
proof (rule nth_equalityI)
  fix j assume "j < length (chunk (off mod BSIZE) m (V (naddr V a (off div BSIZE))))"
  then have j: "j < m" using assms(2,3) by simp
  have "off mod BSIZE + j < BSIZE" using j assms(3) by simp
  then show "chunk (off mod BSIZE) m (V (naddr V a (off div BSIZE))) ! j = map (fbyte V a) [off..<off + m] ! j"
    using j assms within_block[of off j] by (simp add: nth_chunk fbyte_def Let_def)
qed (use assms in simp)

lemma step_fits: "off mod BSIZE + min n (BSIZE - off mod BSIZE) \<le> BSIZE"
  using mod_less_divisor[of BSIZE off] by (simp add: BSIZE_def)

lemma block_below: "x < MAXFILE * BSIZE \<Longrightarrow> x div BSIZE < MAXFILE"
  by (simp add: less_mult_imp_div_less)

lemma readi_loop_runs:
  assumes "linv s" "held s = {}" "ip_dev (inode_at s i) = 1"
    and "file_map G nin (view s) (addrs_of s i)" "\<And>c. G c \<Longrightarrow> c < length (memdisk s)"
    and "off + n \<le> MAXFILE * BSIZE" "\<And>x. off \<le> x \<Longrightarrow> x < off + n \<Longrightarrow> fmap s i (x div BSIZE) \<noteq> 0"
    and "\<And>t. txr s (view s) {} {} t \<Longrightarrow> Q (map (fcont s i) [off..<off + n]) t"
  shows "runs (readi_loop i off n s) Q"
  using assms
proof (induction n arbitrary: off s Q rule: less_induct)
  case (less n)
  show ?case
  proof (cases "n = 0")
    case True
    have "txr s (view s) {} {} s" using txr_refl[OF less.prems(1)] less.prems(2) by simp
    then show ?thesis using True less.prems(8)[of s] by (simp add: readi_loop.simps)
  next
    case False
    let ?m = "min n (BSIZE - off mod BSIZE)" and ?p = "fmap s i (off div BSIZE)"
    have m: "0 < ?m" "off mod BSIZE + ?m \<le> BSIZE" using block_step_pos[of n off] step_fits[of off n] False by auto
    have bn: "off div BSIZE < MAXFILE" using block_below[of off] less.prems(6) False by simp
    have p: "?p \<noteq> 0" using less.prems(7)[of off] False by simp
    have pl: "?p < length (memdisk s)" using file_mapD(2)[OF less.prems(4) bn p] less.prems(5) by simp
    have plen: "length (view s ?p) = BSIZE" using view_size[OF less.prems(1) pl] .
    show ?thesis unfolding readi_loop.simps[of i off n s] if_not_P[OF False] Let_def runs_obind[of "bmap _ _ _"]
    proof (rule bmap_mapped[OF less.prems(1-5) bn p])
      fix t assume t: "txr s (view s) {} {} t"
      have D: "linv t" "view t = view s" "held t = {}" "memdisk t = memdisk s" "icache t = icache s"
        using txrD(2,3,5,6)[OF t] txr_inode[OF t] by auto
      let ?k = "\<lambda>d s. obind (readi_loop i (off + ?m) (n - ?m) s) (\<lambda>rest. Ret (chunk (off mod BSIZE) ?m d @ rest))"
      have "runs (obind (bread 1 ?p t) (\<lambda>bp s. obind (brelse bp s) (\<lambda>_. ?k (data (bufs s ! bp))))) Q"
      proof (rule tx_peek[where k = ?k, OF D(1)])
        show "?p < length (memdisk t)" using pl D by simp
        show "?p \<notin> held t" "card (held t) + card (dirty t) < NBUF" using D linv_dirty_small[OF D(1)] by simp_all
        fix u assume u: "txr t (view t) {} (held t) u"
        have E: "linv u" "view u = view s" "held u = {}" "memdisk u = memdisk s" "icache u = icache s"
          using txrD(2,3,5,6)[OF u] txr_inode[OF u] D by auto
        have "runs (readi_loop i (off + ?m) (n - ?m) u) (\<lambda>rest s. Q (chunk (off mod BSIZE) ?m (view t ?p) @ rest) s)"
        proof (rule less.IH)
          show "n - ?m < n" using m(1) False by simp
          fix v assume v: "txr u (view u) {} {} v"
          have su: "txr s (view s) {} {} u" using txr_trans[OF t] u D by simp
          have sv: "txr s (view s) {} {} v" using txr_trans[OF su v] E by simp
          have "chunk (off mod BSIZE) ?m (view t ?p) = map (fcont s i) [off..<off + ?m]"
            using chunk_fbyte[where V = "view s", OF p plen m(2)] D(2) by simp
          moreover have "[off..<off + n] = [off..<off + ?m] @ [off + ?m..<off + n]"
            using upt_add_eq_append[of off "off + ?m" "n - ?m"] by simp
          ultimately show "Q (chunk (off mod BSIZE) ?m (view t ?p) @ map (fcont u i) [off + ?m..<off + ?m + (n - ?m)]) v"
            using less.prems(8)[OF sv] E by simp
        qed (use less.prems E in auto)
        then show "runs (?k (view t ?p) u) Q" by simp
      qed
      then show "runs (obind (bread (ip_dev (inode_at t i)) ?p t) (\<lambda>bp s. obind (brelse bp s) (\<lambda>_ s'.
          obind (readi_loop i (off + ?m) (n - ?m) s') (\<lambda>rest. Ret (chunk (off mod BSIZE) ?m (data (bufs s ! bp)) @ rest))))) Q"
        using less.prems(3) D(5) by simp
    qed
  qed
qed

section \<open>Writing\<close>

text \<open>The contents after \<open>src\<close> was put at \<open>off\<close>.\<close>

definition overlay :: "nat \<Rightarrow> uchar list \<Rightarrow> (nat \<Rightarrow> uchar) \<Rightarrow> nat \<Rightarrow> uchar" where
  "overlay off src c x = (if off \<le> x \<and> x < off + length src then src ! (x - off) else c x)"

lemma overlay_split:
  assumes "m \<le> length src"
  shows "overlay (off + m) (drop m src) (overlay off (take m src) c) x = overlay off src c x"
  using assms by (auto simp: overlay_def)

lemma overlay_cong: "c x = d x \<Longrightarrow> overlay off src c x = overlay off src d x"
  by (simp add: overlay_def)

lemma overlay_Nil [simp]: "overlay off [] c = c"
  by (rule ext) (auto simp: overlay_def)

text \<open>Changing one data block of the file.\<close>

lemma fstep_put:
  assumes g: "good sz nin i s" and bn: "off div BSIZE < MAXFILE" "fmap s i (off div BSIZE) \<noteq> 0"
    and m: "off mod BSIZE + length bs \<le> BSIZE"
    and t: "txr s ((view s)(fmap s i (off div BSIZE) := patch (off mod BSIZE) bs (view s (fmap s i (off div BSIZE)))))
        {fmap s i (off div BSIZE)} {} t"
  shows "fstep sz nin i s 1 0 t" "bm < MAXFILE \<Longrightarrow> fmap t i bm = fmap s i bm"
    "x < MAXFILE * BSIZE \<Longrightarrow> fcont t i x = overlay off bs (fcont s i) x"
proof -
  let ?p = "fmap s i (off div BSIZE)"
  let ?V = "(view s)(?p := patch (off mod BSIZE) bs (view s ?p))"
  have ok: "fs_ok s sz nin" "file_map (datab s sz nin) nin (view s) (addrs_of s i)" using g by (auto simp: good_def)
  note fm = file_mapD[OF ok(2)]
  have dp: "datab s sz nin ?p" using fm(2)[OF bn] by simp
  have plen: "length (view s ?p) = BSIZE" using view_size[of s ?p] fs_ok_sz[OF ok(1)] dp by (auto simp: datab_def home_def)
  have nm: "naddr ?V (addrs_of s i) bm = fmap s i bm" for bm
    by (rule naddr_agree) (use fm(5)[OF _ bn(1)] in auto)
  show "fstep sz nin i s 1 0 t"
    by (rule fstep_txr[OF g t]) (use dp nm in \<open>auto simp: datab_def used_def\<close>)
  have D: "view t = ?V" "icache t = icache s" using txrD(3)[OF t] txr_inode[OF t] by auto
  show "bm < MAXFILE \<Longrightarrow> fmap t i bm = fmap s i bm" using D nm by simp
  assume x: "x < MAXFILE * BSIZE"
  have xb: "x div BSIZE < MAXFILE" using block_below[OF x] .
  have xm: "x mod BSIZE < BSIZE" by (simp add: BSIZE_def)
  show "fcont t i x = overlay off bs (fcont s i) x"
  proof (cases "x div BSIZE = off div BSIZE")
    case True
    have e: "x = off div BSIZE * BSIZE + x mod BSIZE" "off = off div BSIZE * BSIZE + off mod BSIZE"
      using True by (metis div_mult_mod_eq)+
    have r: "off mod BSIZE \<le> x mod BSIZE \<and> x mod BSIZE < off mod BSIZE + length bs \<longleftrightarrow> off \<le> x \<and> x < off + length bs"
      "x mod BSIZE - off mod BSIZE = x - off" using e by linarith+
    have "fcont t i x = patch (off mod BSIZE) bs (view s ?p) ! (x mod BSIZE)"
      using D nm True bn(2) by (simp add: fbyte_def Let_def)
    also have "\<dots> = overlay off bs (\<lambda>x. view s ?p ! (x mod BSIZE)) x"
      using nth_patch[of "off mod BSIZE" bs "view s ?p" "x mod BSIZE"] plen m xm r by (simp add: overlay_def)
    also have "\<dots> = overlay off bs (fcont s i) x"
      by (rule overlay_cong) (use True bn(2) in \<open>simp add: fbyte_def Let_def\<close>)
    finally show ?thesis .
  next
    case False
    have "\<not> (off \<le> x \<and> x < off + length bs)"
    proof
      assume a: "off \<le> x \<and> x < off + length bs"
      then have "off mod BSIZE + (x - off) < BSIZE" using m by linarith
      from within_block(1)[OF this] show False using a False by simp
    qed
    then have "overlay off bs (fcont s i) x = fcont s i x" unfolding overlay_def by (rule if_not_P)
    moreover have "fmap s i (x div BSIZE) \<noteq> ?p" using fm(3)[OF xb bn(1)] bn(2) False by auto
    ultimately show ?thesis using D nm by (simp add: fbyte_def Let_def)
  qed
qed

text \<open>One pass of the loop of \<open>writei\<close>: \<open>bs\<close> goes into one block.\<close>

lemma write_block_runs:
  assumes g: "good sz nin i s" and bn: "off div BSIZE < MAXFILE" and m: "off mod BSIZE + length bs \<le> BSIZE"
    and room: "room s 6" and f: "2 \<le> nfree sz nin (view s)"
    and Q: "\<And>t. \<lbrakk>fstep sz nin i s 6 2 t; \<And>x. x < MAXFILE * BSIZE \<Longrightarrow> fcont t i x = overlay off bs (fcont s i) x;
        fmap t i (off div BSIZE) \<noteq> 0\<rbrakk> \<Longrightarrow> runs (k t) Q"
  shows "runs (obind (bmap i (off div BSIZE) s) (\<lambda>addr s. obind (bread (ip_dev (inode_at s i)) addr s) (\<lambda>bp s.
    obind (obind (log_write bp (set_data bp (patch (off mod BSIZE) bs (data (bufs s ! bp))) s))
      (\<lambda>_ s. brelse bp s)) (\<lambda>_ s. k s)))) Q"
  unfolding runs_obind[of "bmap _ _ _"]
proof (rule bmap_runs[OF g bn room_mono[OF room] f])
  fix t assume t: "fstep sz nin i s 5 2 t" "fmap t i (off div BSIZE) \<noteq> 0"
    "\<And>x. x < MAXFILE * BSIZE \<Longrightarrow> fcont t i x = fcont s i x"
  let ?p = "fmap t i (off div BSIZE)" and ?f = "patch (off mod BSIZE) bs"
  have gt: "good sz nin i t" using fstep_inode(2)[OF t(1)] .
  have ok: "fs_ok t sz nin" "held t = {}" "ip_dev (inode_at t i) = 1"
    "file_map (datab t sz nin) nin (view t) (addrs_of t i)" using gt by (auto simp: good_def)
  have dp: "home t ?p" "linv t" "1 \<le> outstanding (log t)"
    using file_mapD(2)[OF ok(4) bn t(2)] ok(1) by (auto simp: datab_def fs_ok_def alloc_ok_def)
  have rt: "room t 1" using fstep_inode(5)[OF t(1), of 1] room by simp
  have len: "length (?f (view t ?p)) = BSIZE" using view_size[OF dp(2)] dp(1) m by (simp add: home_def)
  have "runs (obind (bread 1 ?p t) (\<lambda>bp s. obind (log_write bp (set_data bp (?f (data (bufs s ! bp))) s))
      (\<lambda>_ s. brelse bp s))) (\<lambda>_ u. runs (k u) Q)"
  proof (rule tx_update[where f = ?f, OF dp(2,3) rt dp(1) _ _ len])
    show "?p \<notin> held t" "card (held t) \<le> 1" using ok(2) by simp_all
    fix u assume u: "txr t ((view t)(?p := ?f (view t ?p))) {?p} (held t) u"
    note pu = fstep_put[OF gt bn t(2) m u[unfolded ok(2)]]
    have st: "fstep sz nin i s 6 2 u" using fstep_trans[OF t(1) pu(1)] by (simp add: numeral_eq_Suc)
    show "runs (k u) Q"
    proof (rule Q[OF st])
      show "fcont u i x = overlay off bs (fcont s i) x" if "x < MAXFILE * BSIZE" for x
        using pu(3)[OF that] overlay_cong[of "fcont t i" x "fcont s i"] t(3)[OF that] by simp
      show "fmap u i (off div BSIZE) \<noteq> 0" using pu(2)[OF bn] t(2) by simp
    qed
  qed
  then show "runs (obind (bread (ip_dev (inode_at t i)) ?p t) (\<lambda>bp s.
    obind (obind (log_write bp (set_data bp (patch (off mod BSIZE) bs (data (bufs s ! bp))) s))
      (\<lambda>_ s. brelse bp s)) (\<lambda>_ s. k s))) Q"
    using ok(3) by simp
qed simp

lemma next_step_fits:
  assumes "m = min n (BSIZE - off mod BSIZE)" "m < n" "off mod BSIZE + n \<le> Suc J * BSIZE"
  shows "(off + m) mod BSIZE + (n - m) \<le> J * BSIZE"
proof -
  have "off mod BSIZE < BSIZE" by (simp add: BSIZE_def)
  then have e: "off mod BSIZE + m = BSIZE" using assms(1,2) by linarith
  then have "(off + m) mod BSIZE = 0" by (metis mod_add_left_eq mod_self)
  then show ?thesis using assms(3) e by simp
qed

lemma writei_loop_runs:
  assumes "good sz nin i s" "off + length src \<le> MAXFILE * BSIZE"
    and "src \<noteq> [] \<Longrightarrow> off mod BSIZE + length src \<le> K * BSIZE" "room s (6 * K)" "2 * K \<le> nfree sz nin (view s)"
    and "\<And>t. \<lbrakk>fstep sz nin i s (6 * K) (2 * K) t; \<And>x. x < MAXFILE * BSIZE \<Longrightarrow> fcont t i x = overlay off src (fcont s i) x;
        \<And>x. off \<le> x \<Longrightarrow> x < off + length src \<Longrightarrow> fmap t i (x div BSIZE) \<noteq> 0\<rbrakk> \<Longrightarrow> Q () t"
  shows "runs (writei_loop i off src s) Q"
  using assms
proof (induction "length src" arbitrary: off src s K Q rule: less_induct)
  case less
  show ?case
  proof (cases "src = []")
    case True
    have "fstep sz nin i s (6 * K) (2 * K) s" using fstep_mono[OF fstep_refl[OF less.prems(1)]] by simp
    then show ?thesis using True less.prems(6)[of s] by (simp add: writei_loop.simps)
  next
    case False
    define m where "m = min (length src) (BSIZE - off mod BSIZE)"
    have m: "0 < m" "off mod BSIZE + length (take m src) \<le> BSIZE" "m \<le> length src"
      using block_step_pos[of "length src" off] step_fits[of off "length src"] False by (auto simp: m_def)
    obtain J where K: "K = Suc J" using less.prems(3)[OF False] False by (cases K) auto
    have "0 < length src" using False by simp
    then have bn: "off div BSIZE < MAXFILE" using block_below[of off] less.prems(2) by linarith
    have room: "room s 6" by (rule room_mono[OF less.prems(4)]) (simp add: K)
    show ?thesis unfolding writei_loop.simps[of i off src s] if_not_P[OF False] m_def[symmetric] Let_def
    proof (rule write_block_runs[OF less.prems(1) bn m(2) room])
      fix u assume u: "fstep sz nin i s 6 2 u"
        "\<And>x. x < MAXFILE * BSIZE \<Longrightarrow> fcont u i x = overlay off (take m src) (fcont s i) x"
        "fmap u i (off div BSIZE) \<noteq> 0"
      show "runs (writei_loop i (off + m) (drop m src) u) Q"
      proof (rule less.hyps)
        show "(off + m) mod BSIZE + length (drop m src) \<le> J * BSIZE" if "drop m src \<noteq> []"
          using next_step_fits[OF m_def] that less.prems(3)[OF False] K by simp
        show "room u (6 * J)" using fstep_inode(5)[OF u(1), of "6 * J"] less.prems(4) K by simp
        show "2 * J \<le> nfree sz nin (view u)" using fstep_inode(3)[OF u(1)] less.prems(5) K by simp
        fix v assume v: "fstep sz nin i u (6 * J) (2 * J) v"
          "\<And>x. x < MAXFILE * BSIZE \<Longrightarrow> fcont v i x = overlay (off + m) (drop m src) (fcont u i) x"
          "\<And>x. off + m \<le> x \<Longrightarrow> x < off + m + length (drop m src) \<Longrightarrow> fmap v i (x div BSIZE) \<noteq> 0"
        show "Q () v"
        proof (rule less.prems(6))
          show "fstep sz nin i s (6 * K) (2 * K) v" using fstep_trans[OF u(1) v(1)] K by simp
          fix x
          show "fcont v i x = overlay off src (fcont s i) x" if x: "x < MAXFILE * BSIZE"
            using v(2)[OF x] overlay_split[OF m(3), of off "fcont s i" x] u(2)[OF x]
              overlay_cong[of "fcont u i" x "overlay off (take m src) (fcont s i)"] by simp
          assume x: "off \<le> x" "x < off + length src"
          show "fmap v i (x div BSIZE) \<noteq> 0"
          proof (cases "off + m \<le> x")
            case True
            then show ?thesis using v(3)[of x] x by simp
          next
            case F: False
            then have "off mod BSIZE + (x - off) < BSIZE" using m(2,3) x(1) by simp
            from within_block(1)[OF this] have "x div BSIZE = off div BSIZE" using x(1) by simp
            then show ?thesis using fstep_inode(4)[OF v(1) bn] u(3) by simp
          qed
        qed
      qed (use m False less.prems(2) fstep_inode(2)[OF u(1)] in auto)
    qed (use less.prems(5) K in simp)
  qed
qed

lemma IBLOCK_meta:
  assumes "k < nin"
  shows "IBLOCK k \<noteq> 1" "IBLOCK k \<noteq> BBLOCK d nin"
proof -
  show "IBLOCK k \<noteq> 1" by (simp add: IBLOCK_def)
  have "k div IPB \<le> nin div IPB" using assms by (intro div_le_mono) simp
  then show "IBLOCK k \<noteq> BBLOCK d nin" by (simp add: IBLOCK_def BBLOCK_def)
qed

lemma dinode_slot: "Suc (k mod IPB) * 64 \<le> BSIZE"
proof -
  have "k mod IPB < IPB" by (simp add: IPB_def BSIZE_def)
  then show ?thesis by (simp add: IPB_def BSIZE_def)
qed

text \<open>The inode of file \<open>i\<close> can be written back.\<close>

definition inode_home :: "nat \<Rightarrow> nat \<Rightarrow> 'a fsstate_scheme \<Rightarrow> bool" where
  "inode_home nin i s \<longleftrightarrow> ip_inum (inode_at s i) < nin \<and> home s (IBLOCK (ip_inum (inode_at s i)))"

definition disk_inode :: "'a fsstate_scheme \<Rightarrow> nat \<Rightarrow> dinode" where
  "disk_inode s k = get_slot dec_dinode 64 (k mod IPB) (view s (IBLOCK k))"

lemma iupdate_runs:
  assumes g: "good sz nin i s" and h: "inode_home nin i s" and room: "room s 1"
    and Q: "\<And>t. \<lbrakk>fstep sz nin i s 1 0 t; inode_at t i = inode_at s i;
        \<And>bn. bn < MAXFILE \<Longrightarrow> fmap t i bn = fmap s i bn; \<And>x. x < MAXFILE * BSIZE \<Longrightarrow> fcont t i x = fcont s i x;
        disk_inode t (ip_inum (inode_at s i)) = store_inode (inode_at s i) (disk_inode s (ip_inum (inode_at s i)))\<rbrakk>
      \<Longrightarrow> Q () t"
  shows "runs (iupdate i s) Q"
proof -
  let ?ip = "inode_at s i" and ?n = "ip_inum (inode_at s i)"
  let ?b = "IBLOCK ?n" and ?k = "?n mod IPB"
  let ?f = "\<lambda>d. put_slot enc_dinode 64 ?k (store_inode ?ip (get_slot dec_dinode 64 ?k d)) d"
  have ok: "fs_ok s sz nin" "held s = {}" "ip_dev ?ip = 1" "file_map (datab s sz nin) nin (view s) (addrs_of s i)"
    using g by (auto simp: good_def)
  note fm = file_mapD[OF ok(4)]
  have hb: "?n < nin" "home s ?b" using h by (auto simp: inode_home_def)
  have lin: "linv s" "1 \<le> outstanding (log s)" using ok(1) by (auto simp: fs_ok_def alloc_ok_def)
  have blen: "length (view s ?b) = BSIZE" using view_size[OF lin(1)] hb(2) by (simp add: home_def)
  have wf: "wf_dinode (store_inode ?ip di)" for di using fm(1) by (simp add: wf_dinode_def store_inode_def)
  have slot: "Suc ?k * 64 \<le> length (view s ?b)" using dinode_slot blen by simp
  have len: "length (?f (view s ?b)) = BSIZE" using di.length_put_slot[OF wf slot] blen by simp
  have "runs (obind (bread 1 ?b s) (\<lambda>bp s. obind (log_write bp (set_data bp (?f (data (bufs s ! bp))) s))
      (\<lambda>_ s. brelse bp s))) Q"
  proof (rule tx_update[where f = ?f, OF lin room hb(2) _ _ len])
    show "?b \<notin> held s" "card (held s) \<le> 1" using ok(2) by simp_all
    fix t assume "txr s ((view s)(?b := ?f (view s ?b))) {?b} (held s) t"
    then have t: "txr s ((view s)(?b := ?f (view s ?b))) {?b} {} t" using ok(2) by simp
    have nd: "c \<noteq> ?b" if "datab s sz nin c" for c using that hb(1) by (auto simp: datab_def)
    have nm: "naddr ((view s)(?b := ?f (view s ?b))) (addrs_of s i) bm = fmap s i bm" for bm
      by (rule naddr_agree) (use fm(4) nd in auto)
    have D: "view t = (view s)(?b := ?f (view s ?b))" "icache t = icache s" using txrD(3)[OF t] txr_inode[OF t] by auto
    have st: "fstep sz nin i s 1 0 t"
      by (rule fstep_txr[OF g t]) (use nm IBLOCK_meta[OF hb(1)] IBLOCK_meta(2)[OF hb(1), THEN not_sym] in \<open>auto simp: used_def\<close>)
    show "Q () t"
    proof (rule Q[OF st])
      fix x assume x: "x < MAXFILE * BSIZE"
      show "fcont t i x = fcont s i x"
      proof (rule fbyte_same[OF _ _ x])
        fix bm assume "bm < MAXFILE"
        then show "fmap t i bm = fmap s i bm" using D nm by simp
      next
        fix bm assume "bm < MAXFILE" "fmap s i bm \<noteq> 0"
        then show "view t (fmap s i bm) = view s (fmap s i bm)" using fm(2)[of bm] nd D by auto
      qed
    next
      show "disk_inode t ?n = store_inode ?ip (disk_inode s ?n)"
        using di.get_put_same[OF wf slot] D(1) by (simp add: disk_inode_def)
    qed (use D nm in simp_all)
  qed
  then show ?thesis using ok(3) by (simp add: iupdate_def Let_def)
qed

lemma unat_plus_small: "unat (x :: uint) + unat y < 2 ^ 32 \<Longrightarrow> unat (x + y) = unat x + unat y"
  using unat_add_lem[of x y] by simp

lemma readi_runs:
  assumes inv: "linv s" "held s = {}" and dev: "ip_dev (inode_at s i) = 1" "ip_type (inode_at s i) \<noteq> T_DEV"
    and mp: "file_map G nin (view s) (addrs_of s i)" "\<And>c. G c \<Longrightarrow> c < length (memdisk s)"
    and sz: "unat (ip_size (inode_at s i)) \<le> MAXFILE * BSIZE"
    and off: "unat off \<le> unat (ip_size (inode_at s i))" "unat off + unat n < 2 ^ 32"
    and e: "e = min (unat off + unat n) (unat (ip_size (inode_at s i)))"
    and m: "\<And>x. unat off \<le> x \<Longrightarrow> x < e \<Longrightarrow> fmap s i (x div BSIZE) \<noteq> 0"
    and Q: "\<And>t. txr s (view s) {} {} t \<Longrightarrow> Q (Some (map (fcont s i) [unat off..<e])) t"
  shows "runs (readi dv i off n s) Q"
proof -
  let ?z = "ip_size (inode_at s i)"
  have on: "unat (off + n) = unat off + unat n" using unat_plus_small[OF off(2)] .
  have c: "\<not> (?z < off \<or> off + n < off)" using off on by (simp add: word_less_nat_alt)
  have d: "unat (if ?z < off + n then ?z - off else n) = e - unat off"
  proof (cases "?z < off + n")
    case True
    have "off \<le> ?z" using off(1) by (simp add: word_le_nat_alt)
    then show ?thesis using True on e by (simp add: unat_sub word_less_nat_alt)
  next
    case False
    then show ?thesis using on e by (simp add: word_less_nat_alt)
  qed
  have e': "unat off \<le> e" "e \<le> MAXFILE * BSIZE" using e off(1) sz by auto
  have "runs (readi_loop i (unat off) (e - unat off) s) (\<lambda>bs. Q (Some bs))"
    by (rule readi_loop_runs[OF inv dev(1) mp]) (use m Q e' in auto)
  then show ?thesis
    unfolding readi_def Let_def if_not_P[OF dev(2)] if_not_P[OF c] d by simp
qed

lemma max_file_small: "MAXFILE * BSIZE < 2 ^ 32" by (simp add: fs_consts)

text \<open>A larger size is recorded in the inode in memory and on disk.\<close>

lemma grow_runs:
  assumes g: "good sz nin i s" and h: "inode_home nin i s" and room: "room s 1"
    and Q: "\<And>t. \<lbrakk>good sz nin i t; memdisk t = memdisk s; \<exists>ip. icache t = (icache s)[i := ip];
        inode_at t i = (inode_at s i)\<lparr>ip_size := z\<rparr>;
        \<And>bn. bn < MAXFILE \<Longrightarrow> fmap t i bn = fmap s i bn; \<And>x. x < MAXFILE * BSIZE \<Longrightarrow> fcont t i x = fcont s i x;
        disk_inode t (ip_inum (inode_at s i)) = store_inode (inode_at t i) (disk_inode t (ip_inum (inode_at s i)))\<rbrakk>
      \<Longrightarrow> Q () t"
  shows "runs (iupdate i (upd_inode i (ip_size_update (\<lambda>_. z)) s)) Q"
proof -
  let ?u = "upd_inode i (ip_size_update (\<lambda>_. z)) s"
  have il: "i < length (icache s)" using g by (simp add: good_def)
  have iu: "inode_at ?u i = (inode_at s i)\<lparr>ip_size := z\<rparr>" using il by (simp add: upd_inode_def)
  have gu: "good sz nin i ?u" using g iu by (simp add: good_def) (simp add: upd_inode_def)
  have vu: "view ?u = view s" "memdisk ?u = memdisk s" by (simp_all add: upd_inode_def)
  have hu: "inode_home nin i ?u" using h iu by (simp add: inode_home_def) (simp add: upd_inode_def)
  have ru: "room ?u 1" using room by (simp add: upd_inode_def)
  show ?thesis
  proof (rule iupdate_runs[OF gu hu ru])
    fix v assume v: "fstep sz nin i ?u 1 0 v" "inode_at v i = inode_at ?u i"
      "\<And>bn. bn < MAXFILE \<Longrightarrow> fmap v i bn = fmap ?u i bn" "\<And>x. x < MAXFILE * BSIZE \<Longrightarrow> fcont v i x = fcont ?u i x"
      "disk_inode v (ip_inum (inode_at ?u i)) = store_inode (inode_at ?u i) (disk_inode ?u (ip_inum (inode_at ?u i)))"
    show "Q () v"
    proof (rule Q[OF fstep_inode(2)[OF v(1)]])
      show "memdisk v = memdisk s" using v(1) vu by (simp add: fstep_def fx_def)
      have "icache v = (icache ?u)[i := inode_at v i]" using v(1) il fstep_inode(1)[OF v(1)] by (simp add: fstep_def fx_def)
      then show "\<exists>ip. icache v = (icache s)[i := ip]" by (auto simp: upd_inode_def)
      show "disk_inode v (ip_inum (inode_at s i)) = store_inode (inode_at v i) (disk_inode v (ip_inum (inode_at s i)))"
        using v(5) v(2) iu by (simp add: store_inode_def)
    qed (use v vu iu in simp_all)
  qed
qed

text \<open>What \<open>writei\<close> leaves behind.\<close>

definition wrote :: "nat \<Rightarrow> nat \<Rightarrow> nat \<Rightarrow> nat \<Rightarrow> uchar list \<Rightarrow> 'a fsstate_scheme \<Rightarrow> 'a fsstate_scheme \<Rightarrow> bool" where
  "wrote sz nin i off src s t \<longleftrightarrow>
    good sz nin i t \<and> memdisk t = memdisk s \<and> (\<exists>ip. icache t = (icache s)[i := ip]) \<and>
    unat (ip_size (inode_at t i)) = max (unat (ip_size (inode_at s i))) (off + length src) \<and>
    inode_at t i = (inode_at s i)\<lparr>ip_addrs := addrs_of t i, ip_size := ip_size (inode_at t i)\<rparr> \<and>
    (\<forall>x < MAXFILE * BSIZE. fcont t i x = overlay off src (fcont s i) x) \<and>
    (\<forall>x. off \<le> x \<and> x < off + length src \<longrightarrow> fmap t i (x div BSIZE) \<noteq> 0) \<and>
    (\<forall>bn < MAXFILE. fmap s i bn \<noteq> 0 \<longrightarrow> fmap t i bn = fmap s i bn) \<and>
    (ip_size (inode_at t i) \<noteq> ip_size (inode_at s i) \<longrightarrow>
      disk_inode t (ip_inum (inode_at s i)) = store_inode (inode_at t i) (disk_inode t (ip_inum (inode_at s i))))"

lemma writei_runs:
  fixes s :: "'a fsstate_scheme"
  assumes g: "good sz nin i s" and h: "inode_home nin i s" and ty: "ip_type (inode_at s i) \<noteq> T_DEV"
    and off: "unat off \<le> unat (ip_size (inode_at s i))" "unat off + length src \<le> MAXFILE * BSIZE"
    and K: "unat off mod BSIZE + length src \<le> K * BSIZE" "room s (6 * K + 1)" "2 * K \<le> nfree sz nin (view s)"
  shows "runs (writei dv i off src s) (\<lambda>r t. r = Some (length src) \<and> wrote sz nin i (unat off) src s t)"
proof -
  let ?z = "ip_size (inode_at s i)" and ?n = "of_nat (length src) :: uint"
  let ?W = "wrote sz nin i (unat off) src s"
  have n: "unat ?n = length src" using off(2) max_file_small by (intro unat_of_nat32) linarith
  have on: "unat (off + ?n) = unat off + length src"
    using unat_plus_small[of off ?n] n off(2) max_file_small by simp
  have c: "\<not> (?z < off \<or> off + ?n < off)" using off on by (simp add: word_less_nat_alt)
  have mx: "unat (of_nat (MAXFILE * BSIZE) :: uint) = MAXFILE * BSIZE" using max_file_small by (rule unat_of_nat32)
  have c2: "\<not> of_nat (MAXFILE * BSIZE) < off + ?n" using off(2) on mx by (simp only: word_less_nat_alt not_less)
  have "runs (writei_loop i (unat off) src s) (\<lambda>_ t.
      runs (if 0 < ?n \<and> ip_size (inode_at t i) < off + ?n
            then iupdate i (upd_inode i (ip_size_update (\<lambda>_. off + ?n)) t) else Ret () t) (\<lambda>_. ?W))"
  proof (rule writei_loop_runs[OF g off(2) K(1) room_mono[OF K(2)] K(3)], simp)
    fix t :: "'a fsstate_scheme"
    assume t: "fstep sz nin i s (6 * K) (2 * K) t"
      "\<And>x. x < MAXFILE * BSIZE \<Longrightarrow> fcont t i x = overlay (unat off) src (fcont s i) x"
      "\<And>x. unat off \<le> x \<Longrightarrow> x < unat off + length src \<Longrightarrow> fmap t i (x div BSIZE) \<noteq> 0"
    note ft = fstep_inode[OF t(1)]
    have it: "ip_size (inode_at t i) = ?z" "ip_inum (inode_at t i) = ip_inum (inode_at s i)" by (subst ft(1), simp)+
    have fxt: "fx s i ((inode_at s i)\<lparr>ip_addrs := addrs_of t i\<rparr>) (6 * K) t" using t(1) by (simp add: fstep_def)
    have mt: "memdisk t = memdisk s" using fxt by (simp add: fx_def)
    show "runs (if 0 < ?n \<and> ip_size (inode_at t i) < off + ?n
            then iupdate i (upd_inode i (ip_size_update (\<lambda>_. off + ?n)) t) else Ret () t) (\<lambda>_. ?W)"
    proof (cases "0 < ?n \<and> ?z < off + ?n")
      case False
      have "unat ?z = max (unat ?z) (unat off + length src)"
        using False off(1) n on by (auto simp: word_less_nat_alt unat_eq_0)
      moreover have "inode_at t i = (inode_at s i)\<lparr>ip_addrs := addrs_of t i, ip_size := ?z\<rparr>" by (subst ft(1)) simp
      ultimately have "?W t" using ft(2,4) mt fxt t(2,3) it by (auto simp: wrote_def fx_def)
      then show ?thesis unfolding it(1) if_not_P[OF False] by simp
    next
      case True
      have ht: "inode_home nin i t" using h it fx_home[OF fxt] by (simp add: inode_home_def)
      have "runs (iupdate i (upd_inode i (ip_size_update (\<lambda>_. off + ?n)) t)) (\<lambda>_. ?W)"
      proof (rule grow_runs[OF ft(2) ht ft(5)[OF K(2)]])
        fix v :: "'a fsstate_scheme"
        assume v: "good sz nin i v" "memdisk v = memdisk t" and vc: "\<exists>ip. icache v = (icache t)[i := ip]"
          and v': "inode_at v i = (inode_at t i)\<lparr>ip_size := off + ?n\<rparr>"
          "\<And>bn. bn < MAXFILE \<Longrightarrow> fmap v i bn = fmap t i bn" "\<And>x. x < MAXFILE * BSIZE \<Longrightarrow> fcont v i x = fcont t i x"
          "disk_inode v (ip_inum (inode_at t i)) = store_inode (inode_at v i) (disk_inode v (ip_inum (inode_at t i)))"
        have "fmap v i (x div BSIZE) \<noteq> 0" if "unat off \<le> x" "x < unat off + length src" for x
          using v'(2)[OF block_below, of x] t(3)[OF that] that off(2) by simp
        moreover have cv: "\<exists>ip. icache v = (icache s)[i := ip]"
        proof -
          have "icache t = (icache s)[i := (inode_at s i)\<lparr>ip_addrs := addrs_of t i\<rparr>]" using fxt by (simp add: fx_def)
          then show ?thesis using vc by (metis list_update_overwrite)
        qed
        moreover have "inode_at v i = (inode_at s i)\<lparr>ip_addrs := addrs_of v i, ip_size := ip_size (inode_at v i)\<rparr>"
          unfolding v'(1) by (subst (1 2) ft(1)) simp
        moreover have "unat (ip_size (inode_at v i)) = max (unat ?z) (unat off + length src)"
          using v'(1) on True by (simp add: word_less_nat_alt)
        ultimately show "?W v" unfolding wrote_def using v(1,2) v'(2-4) cv ft(4) mt t(2) it(2) by auto
      qed
      then show ?thesis unfolding it(1) if_P[OF True] .
    qed
  qed
  then show ?thesis unfolding writei_def Let_def if_not_P[OF ty] if_not_P[OF c] if_not_P[OF c2] by simp
qed

section \<open>Properties\<close>

text \<open>
  An empty file or directory, inode 3 of the small file system, locked by the operation in
  progress; a second slot of the inode cache is free.
\<close>

definition ex_inode :: "ushort \<Rightarrow> inode" where
  "ex_inode ty = \<lparr>ip_dev = 1, ip_inum = 3, ip_ref = 1, ip_flags = {I_BUSY, I_VALID}, ip_type = ty,
     ip_major = 0, ip_minor = 0, ip_nlink = 1, ip_ownerid = 0, ip_groupid = 0, ip_mode = 0, ip_size = 0,
     ip_addrs = replicate (NDIRECT + 1) 0\<rparr>"

definition ex_icache :: "ushort \<Rightarrow> inode list" where
  "ex_icache ty = [ex_inode ty, (ex_inode ty)\<lparr>ip_ref := 0, ip_flags := {}\<rparr>]"

definition ex_file :: "ushort \<Rightarrow> fsstate" where
  "ex_file ty = ex_fs (fsstate.fields (ex_icache ty))"

definition no_devices :: "fsstate devsw" where
  "no_devices = \<lparr>dev_read = (\<lambda>_. None), dev_write = (\<lambda>_. None)\<rparr>"

lemma ex_file_icache [simp]: "icache (ex_file ty) = [ex_inode ty, (ex_inode ty)\<lparr>ip_ref := 0, ip_flags := {}\<rparr>]"
  by (simp add: ex_icache_def ex_file_def ex_fs_def fsstate.defs)

lemma ex_IBLOCK: "k < 8 \<Longrightarrow> IBLOCK k = 2"
  by (simp add: IBLOCK_def IPB_def BSIZE_def)

lemma ex_data: "b < 25 \<Longrightarrow> \<not> used 8 (view (ex_fs m)) b \<Longrightarrow> datab (ex_fs m) 25 8 b"
  using ex_fs_used[of b m] by (auto simp: datab_def ex_fs_home ex_BBLOCK ex_IBLOCK)

lemma ex_addrs: "k < NDIRECT + 1 \<Longrightarrow> (replicate (NDIRECT + 1) 0 :: uint list) ! k = 0"
  by (rule nth_replicate)

lemma ex_naddr: "naddr V (replicate (NDIRECT + 1) 0) bn = 0"
  using ex_addrs[of bn] ex_addrs[of NDIRECT] by (auto simp: naddr_def simp del: replicate_Suc)

lemma ex_file_good: "good 25 8 0 (ex_file ty)"
proof -
  have "file_map G 8 V (replicate (NDIRECT + 1) 0)" for G V unfolding file_map_def ex_naddr using ex_addrs[of NDIRECT] by (simp del: replicate_Suc)
  moreover have "fs_ok (ex_file ty) 25 8" "held (ex_file ty) = {}"
    using ex_fs_alloc_ok[of "fsstate.fields (ex_icache ty)"] ex_data[where m = "fsstate.fields (ex_icache ty)"]
    by (simp_all add: fs_ok_def ex_file_def)
  ultimately show ?thesis by (simp add: good_def) (simp add: ex_inode_def)
qed

lemma ex_file_home: "inode_home 8 0 (ex_file ty)"
  by (simp add: inode_home_def ex_inode_def ex_IBLOCK) (simp add: ex_file_def ex_fs_home)

lemma ex_file_room: "room (ex_file ty) 7"
  by (simp add: ex_file_def ex_fs_room)

lemma ex_file_zero: "fcont (ex_file ty) 0 x = 0"
  by (simp add: ex_inode_def fbyte_def ex_naddr del: replicate_Suc One_nat_def add_Suc_right)

lemma ex_file_free: "nfree 25 8 (view (ex_file ty)) = 12"
proof -
  have "{c. c < 25 \<and> \<not> used 8 (view (ex_file ty)) c} = {5..<17}" 
    using ex_fs_used[where m = "fsstate.fields (ex_icache ty)"] by (auto simp: ex_file_def)
  then show ?thesis by (simp add: nfree_def)
qed

text \<open>
  C35: \<open>readi\<close> delivers the bytes of the file from the offset on, up to the size of the file,
  through direct and indirect blocks and across block boundaries; it returns, and neither the
  logical disk, nor the inodes in memory, nor the transaction changes.
\<close>

theorem readi_contents:
  assumes "linv s" "held s = {}" "ip_dev (inode_at s i) = 1" "ip_type (inode_at s i) \<noteq> T_DEV"
    and "file_map (\<lambda>c. c < length (memdisk s)) nin (view s) (addrs_of s i)"
    and "unat (ip_size (inode_at s i)) \<le> MAXFILE * BSIZE" "\<forall>x < unat (ip_size (inode_at s i)). fmap s i (x div BSIZE) \<noteq> 0"
    and "unat off \<le> unat (ip_size (inode_at s i))" "unat off + unat n < 2 ^ 32"
  shows "runs (readi dv i off n s) (\<lambda>r t.
    r = Some (map (fcont s i) [unat off..<min (unat off + unat n) (unat (ip_size (inode_at s i)))]) \<and>
    linv t \<and> view t = view s \<and> icache t = icache s \<and> dirty t = dirty s \<and> held t = {} \<and> memdisk t = memdisk s)"
  by (rule readi_runs[OF assms(1-5) _ assms(6,8,9) refl])
    (use assms(7) in \<open>auto dest: txr_inode txrD(2,3,4,5,6)\<close>)

lemma readi_contents_witness:
  "runs (readi no_devices 0 0 5 (ex_file T_FILE)) (\<lambda>r t. r = Some [] \<and> linv t \<and> view t = view (ex_file T_FILE))"
proof -
  have "file_map (\<lambda>c. c < length (memdisk (ex_file T_FILE))) 8 (view (ex_file T_FILE)) (addrs_of (ex_file T_FILE) 0)"
    by (rule file_map_weaken[of "datab (ex_file T_FILE) 25 8"])
      (use ex_file_good[of T_FILE] in \<open>auto simp: good_def datab_def home_def\<close>)
  then show ?thesis
    by (intro runs_mono[OF readi_contents]) (use ex_file_good[of T_FILE] fs_ok_sz[of "ex_file T_FILE" 25 8] in \<open>auto simp: good_def ex_inode_def T_FILE_def T_DEV_def\<close>)
qed

text \<open>
  C36: \<open>writei\<close> at an offset inside the file, given room in the transaction and free blocks, returns
  the number of bytes, puts exactly these bytes at that offset and leaves all other bytes of the
  file as they were, allocating the blocks that are missing; the size grows to the end of the
  write, and then the inode on disk agrees with the one in memory. The block map stays well
  formed and nothing reaches the disk before the commit.
\<close>

theorem writei_contents:
  assumes "good sz nin i s" "inode_home nin i s" "ip_type (inode_at s i) \<noteq> T_DEV"
    and "unat off \<le> unat (ip_size (inode_at s i))" "unat off + length src \<le> MAXFILE * BSIZE"
    and "unat off mod BSIZE + length src \<le> K * BSIZE" "room s (6 * K + 1)" "2 * K \<le> nfree sz nin (view s)"
  shows "runs (writei dv i off src s) (\<lambda>r t.
    r = Some (length src) \<and> good sz nin i t \<and> memdisk t = memdisk s \<and>
    unat (ip_size (inode_at t i)) = max (unat (ip_size (inode_at s i))) (unat off + length src) \<and>
    inode_at t i = (inode_at s i)\<lparr>ip_addrs := addrs_of t i, ip_size := ip_size (inode_at t i)\<rparr> \<and>
    (\<forall>x < MAXFILE * BSIZE. fcont t i x =
      (if unat off \<le> x \<and> x < unat off + length src then src ! (x - unat off) else fcont s i x)) \<and>
    (ip_size (inode_at t i) \<noteq> ip_size (inode_at s i) \<longrightarrow>
      disk_inode t (ip_inum (inode_at s i)) = store_inode (inode_at t i) (disk_inode t (ip_inum (inode_at s i)))))"
  by (rule runs_mono[OF writei_runs[OF assms]]) (simp add: wrote_def overlay_def)

lemma writei_contents_witness:
  "runs (writei no_devices 0 0 [104, 105] (ex_file T_FILE)) (\<lambda>r t. r = Some 2 \<and> good 25 8 0 t \<and>
    unat (ip_size (inode_at t 0)) = 2 \<and> fcont t 0 0 = 104 \<and> fcont t 0 1 = 105 \<and> fcont t 0 2 = 0)"
proof (rule runs_mono[OF writei_contents[where K = 1, OF ex_file_good[of T_FILE] ex_file_home[of T_FILE]]])
qed (use ex_file_free[of T_FILE] ex_file_room[of T_FILE] ex_file_zero[of T_FILE] in \<open>auto simp: ex_inode_def T_FILE_def T_DEV_def BSIZE_def fs_consts\<close>)

text \<open>
  C37: What was written is read back: after \<open>writei\<close>, \<open>readi\<close> of the same range returns the
  written bytes.
\<close>

theorem writei_readi_roundtrip:
  fixes s :: "'a fsstate_scheme"
  assumes "good sz nin i s" "inode_home nin i s" "ip_type (inode_at s i) \<noteq> T_DEV"
    and "unat (ip_size (inode_at s i)) \<le> MAXFILE * BSIZE"
    and "unat off \<le> unat (ip_size (inode_at s i))" "unat off + length src \<le> MAXFILE * BSIZE"
    and "unat off mod BSIZE + length src \<le> K * BSIZE" "room s (6 * K + 1)" "2 * K \<le> nfree sz nin (view s)"
  shows "runs (obind (writei dv i off src s) (\<lambda>_. readi dv i off (of_nat (length src)))) (\<lambda>r t. r = Some src)"
  unfolding runs_obind
proof (rule runs_mono[OF writei_runs[OF assms(1-3,5-9)]])
  fix r and t :: "'a fsstate_scheme" assume "r = Some (length src) \<and> wrote sz nin i (unat off) src s t"
  then have t: "good sz nin i t" "memdisk t = memdisk s"
    "unat (ip_size (inode_at t i)) = max (unat (ip_size (inode_at s i))) (unat off + length src)"
    "inode_at t i = (inode_at s i)\<lparr>ip_addrs := addrs_of t i, ip_size := ip_size (inode_at t i)\<rparr>"
    "\<And>x. x < MAXFILE * BSIZE \<Longrightarrow> fcont t i x = overlay (unat off) src (fcont s i) x"
    "\<And>x. unat off \<le> x \<Longrightarrow> x < unat off + length src \<Longrightarrow> fmap t i (x div BSIZE) \<noteq> 0"
    unfolding wrote_def by blast+
  have n: "unat (of_nat (length src) :: uint) = length src"
    using assms(6) max_file_small by (intro unat_of_nat32) linarith
  have ok: "linv t" "held t = {}" "ip_dev (inode_at t i) = 1" "file_map (datab t sz nin) nin (view t) (addrs_of t i)"
    using t(1) fs_ok_sz by (auto simp: good_def)
  have ty: "ip_type (inode_at t i) \<noteq> T_DEV" using assms(3) by (subst t(4)) simp
  have e: "min (unat off + length src) (unat (ip_size (inode_at t i))) = unat off + length src" using t(3) by simp
  have "map (fcont t i) [unat off..<unat off + length src] = src"
    by (rule nth_equalityI) (use t(5) assms(6) in \<open>auto simp: overlay_def\<close>)
  then show "runs (readi dv i off (of_nat (length src)) t) (\<lambda>r t. r = Some src)"
    by (intro readi_runs[OF ok(1,2,3) ty ok(4) _ _ _ _ refl])
      (use t(3,6) assms(4,6) max_file_small in \<open>auto simp: n e datab_def home_def\<close>)
qed

lemma writei_readi_roundtrip_witness:
  "runs (obind (writei no_devices 0 0 [104, 105] (ex_file T_FILE)) (\<lambda>_. readi no_devices 0 0 2)) (\<lambda>r t. r = Some [104, 105])"
  using writei_readi_roundtrip[OF ex_file_good[of T_FILE] ex_file_home[of T_FILE], of 0 "[104, 105]" 1 no_devices] ex_file_free[of T_FILE] ex_file_room[of T_FILE]
  by (simp add: ex_inode_def T_FILE_def T_DEV_def fs_consts)

end
