(* ===== verification/Fs_Name.thy ===== *)
theory Fs_Name
  imports Fs_Dir Fs_Content
begin

text \<open>
  Directories as maps. The contents of a directory inode are an array of entries; the first used
  entry with a name gives the inode number of the name. \<open>dirlookup\<close> looks a name up in that map
  and \<open>dirlink\<close> adds a name to it.
\<close>

section \<open>The entries of a directory\<close>

definition dirent_at :: "'a fsstate_scheme \<Rightarrow> nat \<Rightarrow> nat \<Rightarrow> dirent" where
  "dirent_at s dp k = dec_dirent (map (fcont s dp) [16 * k..<16 * k + 16])"

definition dirents :: "'a fsstate_scheme \<Rightarrow> nat \<Rightarrow> dirent list" where
  "dirents s dp = map (dirent_at s dp) [0..<unat (ip_size (inode_at s dp)) div 16]"

text \<open>Whether an entry is the one for a name, as \<open>dirlookup\<close> tests it.\<close>

definition entry_for :: "uchar list \<Rightarrow> dirent \<Rightarrow> bool" where
  "entry_for name de \<longleftrightarrow> de_inum de \<noteq> 0 \<and> namecmp name (de_name de) = 0"

definition dir_ok :: "nat \<Rightarrow> nat \<Rightarrow> nat \<Rightarrow> 'a fsstate_scheme \<Rightarrow> bool" where
  "dir_ok sz nin dp s \<longleftrightarrow>
    good sz nin dp s \<and> ip_type (inode_at s dp) = T_DIR \<and> unat (ip_size (inode_at s dp)) mod 16 = 0 \<and>
    unat (ip_size (inode_at s dp)) \<le> MAXFILE * BSIZE \<and>
    (\<forall>x < unat (ip_size (inode_at s dp)). fmap s dp (x div BSIZE) \<noteq> 0)"

text \<open>The map a directory stands for; names are compared up to their terminator and \<open>DIRSIZ\<close>.\<close>

definition dir_map :: "dirent list \<Rightarrow> uchar list \<Rightarrow> nat option" where
  "dir_map es name = map_option (\<lambda>k. unat (de_inum (es ! k))) (find_idx (entry_for name) es)"

lemma length_dirents [simp]: "length (dirents s dp) = unat (ip_size (inode_at s dp)) div 16"
  by (simp add: dirents_def)

lemma dirents_nth: "k < unat (ip_size (inode_at s dp)) div 16 \<Longrightarrow> dirents s dp ! k = dirent_at s dp k"
  by (simp add: dirents_def)

lemma dir_ok_txr:
  assumes "dir_ok sz nin dp s" "txr s (view s) {} {} t"
  shows "dir_ok sz nin dp t" "dirents t dp = dirents s dp" "icache t = icache s"
proof -
  have D: "view t = view s" "icache t = icache s" using txrD(3)[OF assms(2)] txr_inode[OF assms(2)] by auto
  have "good sz nin dp s" using assms(1) by (simp add: dir_ok_def)
  then have "fstep sz nin dp s 0 0 t" by (rule fstep_txr[OF _ assms(2)]) simp_all
  then have "good sz nin dp t" by (rule fstep_inode(2))
  then show "dir_ok sz nin dp t" using assms(1) D by (simp add: dir_ok_def)
  show "dirents t dp = dirents s dp" using D by (simp add: dirents_def dirent_at_def[abs_def])
  show "icache t = icache s" by (rule D(2))
qed

lemma good_disk: "good sz nin i s \<Longrightarrow> linv s \<and> held s = {} \<and> ip_dev (inode_at s i) = 1 \<and>
    file_map (datab s sz nin) nin (view s) (addrs_of s i)"
  using fs_ok_sz by (auto simp: good_def)

lemma read_dirent_runs:
  assumes d: "dir_ok sz nin dp s" and k: "k < unat (ip_size (inode_at s dp)) div 16"
  shows "runs (read_dirent dv dp (16 * k) s) (\<lambda>de t. de = dirent_at s dp k \<and> txr s (view s) {} {} t)"
proof -
  let ?z = "unat (ip_size (inode_at s dp))"
  have z: "?z \<le> MAXFILE * BSIZE" "?z mod 16 = 0" "ip_type (inode_at s dp) \<noteq> T_DEV"
    using d by (auto simp: dir_ok_def T_DIR_def T_DEV_def)
  have e: "16 * k + 16 \<le> ?z"
  proof -
    have "16 * Suc k \<le> 16 * (?z div 16)" using k by (intro mult_le_mono2) simp
    also have "\<dots> = ?z" using z(2) by auto
    finally show ?thesis by simp
  qed
  have u: "unat (of_nat (16 * k) :: uint) = 16 * k"
    by (rule unat_of_nat32) (use e z(1) max_file_small in linarith)
  have g: "linv s" "held s = {}" "ip_dev (inode_at s dp) = 1" "file_map (datab s sz nin) nin (view s) (addrs_of s dp)"
    using good_disk[of sz nin dp s] d by (auto simp: dir_ok_def)
  have m: "min (unat (of_nat (16 * k) :: uint) + unat (16 :: uint)) ?z = 16 * k + 16" using u e by simp
  have "runs (readi dv dp (of_nat (16 * k)) 16 s)
      (\<lambda>r t. r = Some (map (fcont s dp) [16 * k..<16 * k + 16]) \<and> txr s (view s) {} {} t)"
  proof (rule readi_runs[OF g(1-3) z(3) g(4) _ z(1) _ _ m[symmetric]])
    show "unat (of_nat (16 * k) :: uint) + unat (16 :: uint) < 2 ^ 32" using u e z(1) max_file_small by simp
    show "fmap s dp (x div BSIZE) \<noteq> 0" if "x < 16 * k + 16" for x using d that e by (simp add: dir_ok_def)
  qed (use u e in \<open>auto simp: datab_def home_def\<close>)
  then show ?thesis unfolding read_dirent_def runs_obind
    by (rule runs_mono) (auto simp: dirent_at_def)
qed

lemma dirlookup_from_eq:
  assumes "dir_ok sz nin dp s" "z = unat (ip_size (inode_at s dp))" "k \<le> z div 16"
  shows "\<exists>t. txr s (view s) {} {} t \<and> dirlookup_from dv dp name z (16 * k) s =
    (case find_idx (entry_for name) (drop k (dirents s dp)) of
       None \<Rightarrow> Ret None t
     | Some j \<Rightarrow> obind (iget 1 (unat (de_inum (dirents s dp ! (k + j)))) t) (\<lambda>ip s. Ret (Some (ip, 16 * (k + j))) s))"
  using assms
proof (induction "z div 16 - k" arbitrary: k s)
  case 0
  have "txr s (view s) {} {} s" using txr_refl[of s] good_disk[of sz nin dp s] 0(2) by (simp add: dir_ok_def)
  moreover have "k = z div 16" using 0 by simp
  moreover have "16 * (z div 16) = z" using 0(2,3) by (auto simp: dir_ok_def)
  ultimately show ?case using 0(3) by (intro exI[of _ s]) (simp add: dirlookup_from.simps)
next
  case (Suc n)
  have k: "k < z div 16" using Suc.hyps(2) by simp
  then have off: "16 * k < z" by auto
  obtain t where t: "read_dirent dv dp (16 * k) s = Ret (dirent_at s dp k) t" "txr s (view s) {} {} t"
    using read_dirent_runs[OF Suc.prems(1), of k dv] k Suc.prems(2) by (auto simp: runs_iff)
  note dt = dir_ok_txr[OF Suc.prems(1) t(2)]
  have dev: "ip_dev (inode_at t dp) = 1" using dt(3) Suc.prems(1) by (simp add: dir_ok_def good_def)
  have dr: "drop k (dirents s dp) = dirent_at s dp k # drop (Suc k) (dirents s dp)"
    using k Suc.prems(2) dirents_nth[of k s dp] by (metis Cons_nth_drop_Suc length_dirents)
  show ?case
  proof (cases "entry_for name (dirent_at s dp k)")
    case True
    have "dirlookup_from dv dp name z (16 * k) s =
        obind (iget 1 (unat (de_inum (dirent_at s dp k))) t) (\<lambda>ip s. Ret (Some (ip, 16 * k)) s)"
      using off t(1) True dev by (subst dirlookup_from.simps) (simp add: entry_for_def)
    then show ?thesis using True t(2) dr dirents_nth[of k s dp] k Suc.prems(2) by (intro exI[of _ t]) simp
  next
    case False
    have n: "n = z div 16 - Suc k" and zt: "z = unat (ip_size (inode_at t dp))" and k': "Suc k \<le> z div 16"
      using Suc.hyps(2) Suc.prems(2) dt(3) k by auto
    obtain u where u: "txr t (view t) {} {} u" "dirlookup_from dv dp name z (16 * Suc k) t =
      (case find_idx (entry_for name) (drop (Suc k) (dirents t dp)) of
         None \<Rightarrow> Ret None u
       | Some j \<Rightarrow> obind (iget 1 (unat (de_inum (dirents t dp ! (Suc k + j)))) u) (\<lambda>ip s. Ret (Some (ip, 16 * (Suc k + j))) s))"
      using Suc.hyps(1)[OF n dt(1) zt k'] by blast
    have su: "txr s (view s) {} {} u" using txr_trans[OF t(2) u(1)] txrD(3)[OF t(2)] by simp
    have "dirlookup_from dv dp name z (16 * k) s = dirlookup_from dv dp name z (16 * Suc k) t"
      using off t(1) False by (subst dirlookup_from.simps) (auto simp: entry_for_def add.commute)
    then show ?thesis using su u(2) dr False dt(2)
      by (intro exI[of _ u]) (auto split: option.splits simp: add.left_commute)
  qed
qed

lemma dirlookup_eq:
  assumes "dir_ok sz nin dp s"
  shows "\<exists>t. txr s (view s) {} {} t \<and> dirlookup dv dp name s =
    (case find_idx (entry_for name) (dirents s dp) of
       None \<Rightarrow> Ret None t
     | Some j \<Rightarrow> obind (iget 1 (unat (de_inum (dirents s dp ! j))) t) (\<lambda>ip s. Ret (Some (ip, 16 * j)) s))"
  using dirlookup_from_eq[OF assms refl, of 0 dv name] assms
  by (simp add: dirlookup_def dir_ok_def cong: option.case_cong)

lemma dirlink_slot_runs:
  assumes "dir_ok sz nin dp s" "z = unat (ip_size (inode_at s dp))" "k \<le> z div 16"
  shows "runs (dirlink_slot dv dp z (16 * k) s) (\<lambda>off t. txr s (view s) {} {} t \<and> (\<exists>j. off = 16 * j \<and> j \<le> z div 16 \<and>
    (j < z div 16 \<longrightarrow> de_inum (dirent_at s dp j) = 0)))"
  using assms
proof (induction "z div 16 - k" arbitrary: k s)
  case 0
  have "txr s (view s) {} {} s" using txr_refl[of s] good_disk[of sz nin dp s] 0(2) by (simp add: dir_ok_def)
  moreover have k: "k = z div 16" using 0 by simp
  moreover have "16 * (z div 16) = z" using 0(2,3) by (auto simp: dir_ok_def)
  ultimately show ?case by (auto simp: dirlink_slot.simps intro!: exI[of _ k])
next
  case (Suc n)
  have k: "k < z div 16" using Suc.hyps(2) by simp
  then have off: "16 * k < z" by auto
  obtain t where t: "read_dirent dv dp (16 * k) s = Ret (dirent_at s dp k) t" "txr s (view s) {} {} t"
    using read_dirent_runs[OF Suc.prems(1), of k dv] k Suc.prems(2) by (auto simp: runs_iff)
  note dt = dir_ok_txr[OF Suc.prems(1) t(2)]
  have same: "dirent_at t dp = dirent_at s dp" using dt(3) txrD(3)[OF t(2)] by (simp add: dirent_at_def[abs_def])
  show ?case
  proof (cases "de_inum (dirent_at s dp k) = 0")
    case True
    then show ?thesis using off t k by (auto simp: dirlink_slot.simps[of dv dp z "16 * k"] intro!: exI[of _ k])
  next
    case False
    have "runs (dirlink_slot dv dp z (16 * Suc k) t) (\<lambda>off u. txr t (view t) {} {} u \<and> (\<exists>j. off = 16 * j \<and> j \<le> z div 16 \<and>
        (j < z div 16 \<longrightarrow> de_inum (dirent_at t dp j) = 0)))"
      using Suc.hyps(1)[of "Suc k" t] Suc.hyps(2) dt k Suc.prems(2) by simp
    moreover have "dirlink_slot dv dp z (16 * k) s = dirlink_slot dv dp z (16 * Suc k) t"
      using off t(1) False by (subst dirlink_slot.simps) (simp add: add.commute)
    moreover have "txr s (view s) {} {} u" if "txr t (view t) {} {} u" for u
      using txr_trans[OF t(2) that] txrD(3)[OF t(2)] by simp
    ultimately show ?thesis using same by (auto elim!: runs_mono)
  qed
qed

section \<open>Adding an entry\<close>

lemma entry_bytes:
  assumes "\<And>x. x < 16 * k + 16 \<Longrightarrow> c x = overlay (16 * j) (enc_dirent de) d x" "wf_dirent de"
  shows "dec_dirent (map c [16 * k..<16 * k + 16]) = (if k = j then de else dec_dirent (map d [16 * k..<16 * k + 16]))"
proof -
  have l: "length (enc_dirent de) = 16" by (rule de.length_enc[OF assms(2)])
  have m: "map c [16 * k..<16 * k + 16] = map (overlay (16 * j) (enc_dirent de) d) [16 * k..<16 * k + 16]"
    by (rule map_cong) (use assms(1) in auto)
  show ?thesis
  proof (cases "k = j")
    case True
    have "map (overlay (16 * j) (enc_dirent de) d) [16 * k..<16 * k + 16] = enc_dirent de"
      by (rule nth_equalityI) (simp_all add: True overlay_def l)
    then show ?thesis unfolding m using True de.dec_enc[OF assms(2)] by simp
  next
    case False
    have "map (overlay (16 * j) (enc_dirent de) d) [16 * k..<16 * k + 16] = map d [16 * k..<16 * k + 16]"
      by (rule map_cong[OF refl]) (use False in \<open>auto simp: overlay_def l\<close>)
    then show ?thesis unfolding m using False by (simp only: if_False)
  qed
qed

text \<open>The list of entries after an entry was written at a free slot or at the end.\<close>

definition set_entry :: "nat \<Rightarrow> dirent \<Rightarrow> dirent list \<Rightarrow> dirent list" where
  "set_entry j de es = (if j < length es then es[j := de] else es @ [de])"

lemma find_set_entry:
  assumes "j \<le> length es" "j < length es \<Longrightarrow> \<not> P (es ! j)"
  shows "\<not> P de \<Longrightarrow> map_option (\<lambda>k. f (set_entry j de es ! k)) (find_idx P (set_entry j de es)) =
      map_option (\<lambda>k. f (es ! k)) (find_idx P es)"
    and "P de \<Longrightarrow> find_idx P es = None \<Longrightarrow> find_idx P (set_entry j de es) = Some j \<and> set_entry j de es ! j = de"
proof -
  assume n: "\<not> P de"
  show "map_option (\<lambda>k. f (set_entry j de es ! k)) (find_idx P (set_entry j de es)) =
      map_option (\<lambda>k. f (es ! k)) (find_idx P es)"
  proof (cases "j < length es")
    case True
    have e: "find_idx P (es[j := de]) = find_idx P es"
      by (rule find_idx_cong) (use n assms(2) True in \<open>auto simp: nth_list_update\<close>)
    show ?thesis
    proof (cases "find_idx P es")
      case (Some k)
      then have "k \<noteq> j" using assms(2)[OF True] by (auto simp: find_idx_Some)
      then show ?thesis using True e Some by (simp add: set_entry_def)
    qed (use True e in \<open>simp add: set_entry_def\<close>)
  next
    case False
    show ?thesis
    proof (cases "find_idx P es")
      case None
      then have "find_idx P (es @ [de]) = None" using n by (auto simp: find_idx_None nth_append less_Suc_eq)
      then show ?thesis using False None by (simp add: set_entry_def)
    next
      case (Some k)
      then have k: "k < length es" "P (es ! k)" "\<And>i. i < k \<Longrightarrow> \<not> P (es ! i)" by (auto simp: find_idx_Some)
      then have "find_idx P (es @ [de]) = Some k" by (auto simp: find_idx_Some nth_append)
      then show ?thesis using False Some k(1) by (simp add: set_entry_def nth_append)
    qed
  qed
next
  assume p: "P de" "find_idx P es = None"
  then have "\<And>i. i < length es \<Longrightarrow> \<not> P (es ! i)" by (simp add: find_idx_None)
  then show "find_idx P (set_entry j de es) = Some j \<and> set_entry j de es ! j = de"
    using p(1) assms(1) by (auto simp: set_entry_def find_idx_Some nth_append)
qed

lemma wrote_entry:
  assumes d: "dir_ok sz nin dp s" and w: "wrote sz nin dp (16 * j) (enc_dirent de) s t" "wf_dirent de"
    and j: "j \<le> unat (ip_size (inode_at s dp)) div 16" "16 * j + 16 \<le> MAXFILE * BSIZE"
  shows "dir_ok sz nin dp t" "dirents t dp = set_entry j de (dirents s dp)"
proof -
  let ?z = "unat (ip_size (inode_at s dp))" and ?w = "unat (ip_size (inode_at t dp))"
  have l: "length (enc_dirent de) = 16" by (rule de.length_enc[OF w(2)])
  have W: "good sz nin dp t" "?w = max ?z (16 * j + 16)"
    "inode_at t dp = (inode_at s dp)\<lparr>ip_addrs := addrs_of t dp, ip_size := ip_size (inode_at t dp)\<rparr>"
    "\<And>x. x < MAXFILE * BSIZE \<Longrightarrow> fcont t dp x = overlay (16 * j) (enc_dirent de) (fcont s dp) x"
    "\<And>x. 16 * j \<le> x \<Longrightarrow> x < 16 * j + 16 \<Longrightarrow> fmap t dp (x div BSIZE) \<noteq> 0"
    "\<And>bn. bn < MAXFILE \<Longrightarrow> fmap s dp bn \<noteq> 0 \<Longrightarrow> fmap t dp bn = fmap s dp bn"
    using w(1) unfolding wrote_def l by auto
  have z: "?z mod 16 = 0" "?z \<le> MAXFILE * BSIZE" "\<And>x. x < ?z \<Longrightarrow> fmap s dp (x div BSIZE) \<noteq> 0"
    "ip_type (inode_at s dp) = T_DIR" using d by (auto simp: dir_ok_def)
  obtain n where n: "?z = 16 * n" using z(1) by auto
  have wn: "?w = 16 * max n (Suc j)" using W(2) n by (simp add: max_def)
  have wM: "?w \<le> MAXFILE * BSIZE" using W(2) z(2) j(2) by simp
  have "ip_type (inode_at t dp) = T_DIR" using z(4) by (subst W(3)) simp
  moreover have "fmap t dp (x div BSIZE) \<noteq> 0" if x: "x < ?w" for x
  proof (cases "16 * j \<le> x \<and> x < 16 * j + 16")
    case True
    then show ?thesis using W(5) by blast
  next
    case False
    then have "x < ?z" using x W(2) j(1) n by (auto simp: max_def split: if_splits)
    then show ?thesis using z(3)[of x] W(6)[OF block_below, of x] z(2) by simp
  qed
  ultimately show "dir_ok sz nin dp t" using W(1) wn wM by (simp add: dir_ok_def)
  have len: "length (dirents t dp) = max n (Suc j)" "length (dirents s dp) = n" using wn n by simp_all
  show "dirents t dp = set_entry j de (dirents s dp)"
  proof (rule nth_equalityI)
    show "length (dirents t dp) = length (set_entry j de (dirents s dp))"
      using len j(1) n by (auto simp: set_entry_def)
    fix k assume k: "k < length (dirents t dp)"
    then have "Suc k \<le> max n (Suc j)" using len(1) by simp
    from mult_le_mono2[OF this, of 16] have "16 * k + 16 \<le> MAXFILE * BSIZE" using wn wM by simp
    then have "dirent_at t dp k = (if k = j then de else dirent_at s dp k)"
      unfolding dirent_at_def using W(4) by (intro entry_bytes w(2)) simp
    then show "dirents t dp ! k = set_entry j de (dirents s dp) ! k"
      using k len n j(1) dirents_nth[of k t dp] dirents_nth[of k s dp] wn
      by (auto simp: set_entry_def nth_append nth_list_update less_Suc_eq max_def split: if_splits)
  qed
qed

lemma slot_in_block: "16 * j mod BSIZE + 16 \<le> BSIZE"
proof -
  have "16 * j mod (16 * 32) = 16 * (j mod 32)" by (rule mult_mod_right[symmetric])
  moreover have "j mod 32 < 32" by simp
  ultimately show ?thesis by (simp add: BSIZE_def)
qed

lemma namecmp_0: "namecmp a b = 0 \<longleftrightarrow> cstr DIRSIZ (ptr a) = cstr DIRSIZ (ptr b)"
  by (simp add: namecmp_def strncmp_eq_0)

lemma dirlink_runs:
  fixes s :: "'a fsstate_scheme" and inum :: nat
  assumes d: "dir_ok sz nin dp s" and h: "inode_home nin dp s"
    and new: "find_idx (entry_for name) (dirents s dp) = None"
    and z: "unat (ip_size (inode_at s dp)) + 16 \<le> MAXFILE * BSIZE" and r: "room s 7" and f: "2 \<le> nfree sz nin (view s)"
  defines "de \<equiv> \<lparr>de_inum = of_nat inum, de_name = strncpy (ptr name) (int DIRSIZ)\<rparr>"
  shows "runs (dirlink dv dp name inum s) (\<lambda>r t. r \<and> dir_ok sz nin dp t \<and> memdisk t = memdisk s \<and>
    (\<exists>j \<le> length (dirents s dp). (j < length (dirents s dp) \<longrightarrow> de_inum (dirents s dp ! j) = 0) \<and>
      dirents t dp = set_entry j de (dirents s dp)))"
proof -
  let ?z = "unat (ip_size (inode_at s dp))"
  obtain t where t: "txr s (view s) {} {} t" "dirlookup dv dp name s = Ret None t"
    using dirlookup_eq[OF d, of dv name] new by auto
  note dt = dir_ok_txr[OF d t(1)]
  have "runs (dirlink_slot dv dp ?z 0 t) (\<lambda>off u. txr t (view t) {} {} u \<and> (\<exists>j. off = 16 * j \<and> j \<le> ?z div 16 \<and>
      (j < ?z div 16 \<longrightarrow> de_inum (dirent_at t dp j) = 0)))"
    using dirlink_slot_runs[OF dt(1) refl, of 0 dv] dt(3) by simp
  then obtain j u where u: "dirlink_slot dv dp ?z 0 t = Ret (16 * j) u" "txr t (view t) {} {} u"
    "j \<le> ?z div 16" "j < ?z div 16 \<Longrightarrow> de_inum (dirent_at t dp j) = 0" by (auto simp: runs_iff)
  note du = dir_ok_txr[OF dt(1) u(2)]
  have su: "txr s (view s) {} {} u" using txr_trans[OF t(1) u(2)] txrD(3)[OF t(1)] by simp
  have wf: "wf_dirent de" by (simp add: wf_dirent_def de_def)
  have l: "length (enc_dirent de) = 16" by (rule de.length_enc[OF wf])
  have j16: "16 * j \<le> ?z" "16 * j + 16 \<le> MAXFILE * BSIZE" using u(3) z by auto
  have uj: "unat (of_nat (16 * j) :: uint) = 16 * j"
    by (rule unat_of_nat32) (use j16 max_file_small in linarith)
  have zu: "unat (ip_size (inode_at u dp)) = ?z" using du(3) dt(3) by simp
  have "runs (writei dv dp (of_nat (16 * j)) (enc_dirent de) u) (\<lambda>r v. r = Some (length (enc_dirent de)) \<and>
      wrote sz nin dp (unat (of_nat (16 * j) :: uint)) (enc_dirent de) u v)"
  proof (rule writei_runs[where K = 1])
    show "good sz nin dp u" "ip_type (inode_at u dp) \<noteq> T_DEV" using du(1) by (auto simp: dir_ok_def T_DIR_def T_DEV_def)
    show "inode_home nin dp u" using h du(3) dt(3) txr_home[OF su] by (simp add: inode_home_def)
    show "room u (6 * 1 + 1)" using r txr_room_same[OF su] by simp
  qed (use uj j16 zu l slot_in_block[of j] f txrD(3)[OF su] in simp_all)
  note this[unfolded uj l]
  then obtain v where v: "writei dv dp (of_nat (16 * j)) (enc_dirent de) u = Ret (Some 16) v"
    "wrote sz nin dp (16 * j) (enc_dirent de) u v" unfolding runs_iff by blast
  have e: "dirlink dv dp name inum s = Ret True v"
    using t(2) u(1) v(1) dt(3) by (simp add: dirlink_def Let_def de_def)
  note wv = wrote_entry[OF du(1) v(2) wf u(3)[folded zu] j16(2)]
  have "memdisk v = memdisk s" using v(2) txrD(6)[OF su] by (simp add: wrote_def)
  moreover have "de_inum (dirents s dp ! j) = 0" if "j < length (dirents s dp)"
    using u(4) that dirents_nth[of j t dp] dt(2,3) by simp
  ultimately show ?thesis using e wv du(2) dt(2) u(3) by (auto intro!: exI[of _ j])
qed

section \<open>The map\<close>

lemma entry_for_cong: "cstr DIRSIZ (ptr a) = cstr DIRSIZ (ptr b) \<Longrightarrow> entry_for a = entry_for b"
  by (simp add: entry_for_def[abs_def] namecmp_0)

lemma entry_for_new:
  assumes "0 < inum" "inum < 2 ^ 16"
  shows "entry_for nm \<lparr>de_inum = of_nat inum, de_name = strncpy (ptr name) (int DIRSIZ)\<rparr> \<longleftrightarrow>
      cstr DIRSIZ (ptr nm) = cstr DIRSIZ (ptr name)"
    and "unat (of_nat inum :: ushort) = inum"
proof -
  show u: "unat (of_nat inum :: ushort) = inum" using assms(2) by (simp add: unsigned_of_nat take_bit_nat_eq_self)
  then have "(of_nat inum :: ushort) \<noteq> 0" using assms(1) by (metis less_irrefl unat_0)
  then show "entry_for nm \<lparr>de_inum = of_nat inum, de_name = strncpy (ptr name) (int DIRSIZ)\<rparr> \<longleftrightarrow>
      cstr DIRSIZ (ptr nm) = cstr DIRSIZ (ptr name)"
    by (simp add: entry_for_def namecmp_0 cstr_strncpy)
qed

lemma dir_map_set_entry:
  assumes "0 < inum" "inum < 2 ^ 16" "j \<le> length es" "j < length es \<Longrightarrow> de_inum (es ! j) = 0"
    and "find_idx (entry_for name) es = None"
  shows "dir_map (set_entry j \<lparr>de_inum = of_nat inum, de_name = strncpy (ptr name) (int DIRSIZ)\<rparr> es) nm =
    (if cstr DIRSIZ (ptr nm) = cstr DIRSIZ (ptr name) then Some inum else dir_map es nm)"
proof -
  let ?de = "\<lparr>de_inum = of_nat inum, de_name = strncpy (ptr name) (int DIRSIZ)\<rparr> :: dirent"
  note e = entry_for_new(1)[OF assms(1,2), of nm name] entry_for_new(2)[OF assms(1,2)]
  have free: "\<not> entry_for nm (es ! j)" if "j < length es" using assms(4)[OF that] by (simp add: entry_for_def)
  show ?thesis
  proof (cases "cstr DIRSIZ (ptr nm) = cstr DIRSIZ (ptr name)")
    case True
    have "find_idx (entry_for nm) es = None" using assms(5) entry_for_cong[OF True] by simp
    from find_set_entry(2)[OF assms(3) free _ this, of ?de] show ?thesis using True e by (simp add: dir_map_def)
  next
    case False
    then have "\<not> entry_for nm ?de" using e(1) by simp
    from find_set_entry(1)[OF assms(3) free this, of "\<lambda>de. unat (de_inum de)"] show ?thesis
      using False by (simp add: dir_map_def)
  qed
qed

text \<open>\<open>iget\<close> gives a referenced entry for the inode when there is one or a slot is free.\<close>

lemma iget_runs:
  assumes "\<exists>j < length (icache s). ip_ref (inode_at s j) = 0"
  shows "runs (iget d n s) (\<lambda>i t. i < length (icache s) \<and> ip_dev (inode_at t i) = d \<and> ip_inum (inode_at t i) = n \<and>
    0 < ip_ref (inode_at t i) \<and> (\<forall>j. j \<noteq> i \<longrightarrow> inode_at t j = inode_at s j) \<and> view t = view s)"
proof (cases "find_idx (\<lambda>ip. ip_ref ip > 0 \<and> ip_dev ip = d \<and> ip_inum ip = n) (icache s)")
  case (Some i)
  from find_idx_SomeD(1,2)[OF Some] show ?thesis using Some by (simp add: iget_def upd_inode_def)
next
  case None
  obtain i where i: "find_idx (\<lambda>ip. ip_ref ip = 0) (icache s) = Some i"
    using assms find_idx_exists[of _ "icache s" "\<lambda>ip. ip_ref ip = 0"] by blast
  from find_idx_SomeD(1,2)[OF i] show ?thesis using None i by (simp add: iget_def upd_inode_def)
qed

section \<open>Properties\<close>

lemma ex_dir_ok: "dir_ok 25 8 0 (ex_file T_DIR)" "dirents (ex_file T_DIR) 0 = []"
  using ex_file_good[of T_DIR] by (simp_all add: dir_ok_def dirents_def) (simp_all add: ex_inode_def)

text \<open>
  C38: \<open>dirlink\<close> implements the update of a finite map: for a name that the directory does not
  have it succeeds, and afterwards the directory maps that name to the inode number and every
  other name as before, names being compared up to their terminator and \<open>DIRSIZ\<close> bytes. The entry
  goes into a free slot or at the end, and nothing reaches the disk before the commit.
\<close>

theorem dirlink_updates_map:
  assumes "dir_ok sz nin dp s" "inode_home nin dp s" "dir_map (dirents s dp) name = None"
    and "0 < inum" "inum < 2 ^ 16" "unat (ip_size (inode_at s dp)) + 16 \<le> MAXFILE * BSIZE"
    and "room s 7" "2 \<le> nfree sz nin (view s)"
  shows "runs (dirlink dv dp name inum s) (\<lambda>r t. r \<and> dir_ok sz nin dp t \<and> memdisk t = memdisk s \<and>
    (\<forall>nm. dir_map (dirents t dp) nm =
      (if cstr DIRSIZ (ptr nm) = cstr DIRSIZ (ptr name) then Some inum else dir_map (dirents s dp) nm)))"
proof -
  have new: "find_idx (entry_for name) (dirents s dp) = None" using assms(3) by (simp add: dir_map_def)
  show ?thesis
    by (rule runs_mono[OF dirlink_runs[OF assms(1,2) new assms(6-8)]])
      (use dir_map_set_entry[OF assms(4,5) _ _ new] in auto)
qed

lemma dirlink_updates_map_witness:
  "runs (dirlink no_devices 0 [97] 5 (ex_file T_DIR)) (\<lambda>r t. r \<and> dir_ok 25 8 0 t \<and>
    dir_map (dirents t 0) [97] = Some 5 \<and> dir_map (dirents t 0) [98] = None)"
proof -
  have c: "cstr DIRSIZ (ptr [98]) \<noteq> cstr DIRSIZ (ptr [97])" by (simp add: cstr_ptr DIRSIZ_def)
  show ?thesis
    by (rule runs_mono[OF dirlink_updates_map[OF ex_dir_ok(1) ex_file_home]])
      (use ex_dir_ok ex_file_room ex_file_free c in \<open>auto simp: dir_map_def ex_inode_def fs_consts\<close>)
qed



end
