(* ===== verification/Kalloc.thy ===== *)
theory Kalloc
  imports KString
begin

text \<open>
  The physical page allocator, \<^verbatim>\<open>kernel/kalloc.c\<close>, for the 64-bit build. Memory is the
  kernel's view of it: bytes at kernel virtual addresses, natural numbers below
  \<open>2 ^ 64\<close>. A free page holds the address of the next one in its first eight bytes, so the
  free list is a chain through memory that starts at \<open>kmem.freelist\<close>. The linker's
  \<open>end\<close> is an argument of the operations.
\<close>

section \<open>Layout constants and words in memory\<close>

definition PGSIZE :: nat where "PGSIZE = 4096"
definition PHYSTOP :: nat where "PHYSTOP = 0xE000000"
definition KERNBASE :: nat where "KERNBASE = 0xFFFFFFFF80000000"

definition v2p :: "nat \<Rightarrow> nat" where
  "v2p a = (a + (2 ^ 64 - KERNBASE)) mod 2 ^ 64"

definition p2v :: "nat \<Rightarrow> nat" where
  "p2v a = (a + KERNBASE) mod 2 ^ 64"

definition PGROUNDUP :: "nat \<Rightarrow> nat" where
  "PGROUNDUP sz = (sz + (PGSIZE - 1)) div PGSIZE * PGSIZE"

definition PGROUNDDOWN :: "nat \<Rightarrow> nat" where
  "PGROUNDDOWN a = a div PGSIZE * PGSIZE"

definition le64 :: "uintp \<Rightarrow> uchar list" where
  "le64 w = le32 (ucast w) @ le32 (ucast (drop_bit 32 w))"

definition unle64 :: "uchar list \<Rightarrow> uintp" where
  "unle64 bs = ucast (unle32 (take 4 bs)) OR push_bit 32 (ucast (unle32 (drop 4 bs)))"

definition load64 :: "nat \<Rightarrow> mem \<Rightarrow> uintp" where
  "load64 a m = unle64 (load_bytes a 8 m)"

definition store64 :: "nat \<Rightarrow> uintp \<Rightarrow> mem \<Rightarrow> mem" where
  "store64 a w m = store_bytes a (le64 w) m"

section \<open>Operations\<close>

record kmemst =
  pmem :: mem
  use_lock :: bool
  freelist :: nat

definition kfree :: "nat \<Rightarrow> nat \<Rightarrow> 'a kmemst_scheme \<Rightarrow> (unit, 'a kmemst_scheme) outcome" where
  "kfree kend v s =
     (if v mod PGSIZE \<noteq> 0 \<or> v < kend \<or> PHYSTOP \<le> v2p v then Panic ''kfree''
      else
        let m = memset v 1 PGSIZE (pmem s) in
        Ret () (s\<lparr>pmem := store64 v (of_nat (freelist s)) m, freelist := v\<rparr>))"

definition kalloc :: "'a kmemst_scheme \<Rightarrow> nat \<times> 'a kmemst_scheme" where
  "kalloc s =
     (let r = freelist s in
      (r, if r \<noteq> 0 then s\<lparr>freelist := unat (load64 r (pmem s))\<rparr> else s))"

function freerange_from :: "nat \<Rightarrow> nat \<Rightarrow> nat \<Rightarrow> 'a kmemst_scheme \<Rightarrow> (unit, 'a kmemst_scheme) outcome" where
  "freerange_from kend p vend s =
     (if p + PGSIZE \<le> vend then
        obind (kfree kend p s) (\<lambda>_ s. freerange_from kend (p + PGSIZE) vend s)
      else Ret () s)"
  by pat_completeness auto
termination
  by (relation "measure (\<lambda>(kend, p, vend, s). vend - p)") (auto simp: PGSIZE_def)

declare freerange_from.simps [simp del]

definition freerange :: "nat \<Rightarrow> nat \<Rightarrow> nat \<Rightarrow> 'a kmemst_scheme \<Rightarrow> (unit, 'a kmemst_scheme) outcome" where
  "freerange kend vstart vend s = freerange_from kend (PGROUNDUP vstart) vend s"

definition kinit1 :: "nat \<Rightarrow> nat \<Rightarrow> nat \<Rightarrow> 'a kmemst_scheme \<Rightarrow> (unit, 'a kmemst_scheme) outcome" where
  "kinit1 kend vstart vend s = freerange kend vstart vend (s\<lparr>use_lock := False\<rparr>)"

definition kinit2 :: "nat \<Rightarrow> nat \<Rightarrow> nat \<Rightarrow> 'a kmemst_scheme \<Rightarrow> (unit, 'a kmemst_scheme) outcome" where
  "kinit2 kend vstart vend s =
     obind (freerange kend vstart vend s) (\<lambda>_ s. Ret () (s\<lparr>use_lock := True\<rparr>))"

section \<open>Words in memory\<close>

lemma unle64_le64 [simp]: "unle64 (le64 w) = w"
proof (rule bit_word_eqI)
  fix n assume "n < LENGTH(64)"
  then show "bit (unle64 (le64 w)) n = bit w n"
    by (cases "n < 32") (auto simp: unle64_def le64_def bit_simps)
qed

lemma length_le64 [simp]: "length (le64 w) = 8"
  by (simp add: le64_def)

lemma load_store_bytes [simp]: "load_bytes a (length bs) (store_bytes a bs m) = bs"
  by (rule nth_equalityI) (auto simp: load_bytes_def store_bytes_def)

lemma load64_store64 [simp]: "load64 a (store64 a w m) = w"
  using load_store_bytes[of a "le64 w" m] by (simp add: load64_def store64_def)

lemma load64_cong: "(\<And>i. i < 8 \<Longrightarrow> m (a + i) = m' (a + i)) \<Longrightarrow> load64 a m = load64 a m'"
  unfolding load64_def load_bytes_def by (rule arg_cong[where f = unle64]) simp

lemma load64_store64_other:
  "a + 8 \<le> b \<or> b + 8 \<le> a \<Longrightarrow> load64 a (store64 b w m) = load64 a m"
  by (rule load64_cong) (auto simp: store64_def store_bytes_def)

lemma load64_memset_other:
  "a + 8 \<le> b \<or> b + n \<le> a \<Longrightarrow> load64 a (memset b c n m) = load64 a m"
  by (rule load64_cong) (auto simp: memset_fill)

lemma load64_memset_zero: "b \<le> a \<Longrightarrow> a + 8 \<le> b + n \<Longrightarrow> load64 a (memset b 0 n m) = 0"
proof -
  assume "b \<le> a" "a + 8 \<le> b + n"
  then have "load_bytes a 8 (memset b 0 n m) = replicate 8 0"
    by (auto simp: load_bytes_def memset_fill intro!: nth_equalityI)
  then show ?thesis by (simp add: load64_def unle64_def unle32_def)
qed

lemma pages_apart:
  "PGSIZE dvd a \<Longrightarrow> PGSIZE dvd b \<Longrightarrow> a \<noteq> b \<Longrightarrow> a + PGSIZE \<le> b \<or> b + PGSIZE \<le> a"
proof (elim dvdE)
  fix j k assume "a = PGSIZE * j" "b = PGSIZE * k" "a \<noteq> b"
  then consider "Suc j \<le> k" | "Suc k \<le> j" by fastforce
  then show ?thesis
    by cases (use \<open>a = _\<close> \<open>b = _\<close> mult_le_mono2[of "Suc j" k PGSIZE] mult_le_mono2[of "Suc k" j PGSIZE] in simp)+
qed

section \<open>The free list\<close>

text \<open>The addresses on the chain from \<open>p\<close>, given the list of them.\<close>

primrec chain :: "mem \<Rightarrow> nat \<Rightarrow> nat list \<Rightarrow> bool" where
  "chain m p [] \<longleftrightarrow> p = 0"
| "chain m p (x # xs) \<longleftrightarrow> p = x \<and> x \<noteq> 0 \<and> chain m (unat (load64 x m)) xs"

definition page_ok :: "nat \<Rightarrow> nat \<Rightarrow> bool" where
  "page_ok kend v \<longleftrightarrow> v mod PGSIZE = 0 \<and> kend \<le> v \<and> v2p v < PHYSTOP \<and> 0 < v \<and> v < 2 ^ 64"

definition kinv :: "nat \<Rightarrow> nat list \<Rightarrow> 'a kmemst_scheme \<Rightarrow> bool" where
  "kinv kend ps s \<longleftrightarrow> chain (pmem s) (freelist s) ps \<and> distinct ps \<and> (\<forall>p \<in> set ps. page_ok kend p)"

lemma chain_cong:
  "(\<And>x. x \<in> set xs \<Longrightarrow> load64 x m = load64 x m') \<Longrightarrow> chain m p xs = chain m' p xs"
  by (induction xs arbitrary: p) auto

lemma chain_unique: "chain m p xs \<Longrightarrow> chain m p ys \<Longrightarrow> xs = ys"
proof (induction xs arbitrary: p ys)
  case Nil
  then show ?case by (cases ys) auto
next
  case (Cons x xs)
  then show ?case by (cases ys) auto
qed

lemma page_okD: "page_ok kend v \<Longrightarrow> PGSIZE dvd v" "page_ok kend v \<Longrightarrow> 0 < v" "page_ok kend v \<Longrightarrow> v < 2 ^ 64"
  by (auto simp: page_ok_def)

lemma kinv_freelist_bound: "kinv kend ps s \<Longrightarrow> freelist s < 2 ^ 64"
  by (cases ps) (auto simp: kinv_def dest: page_okD(3))

lemma load64_store64_page:
  "PGSIZE dvd x \<Longrightarrow> PGSIZE dvd y \<Longrightarrow> x \<noteq> y \<Longrightarrow> load64 x (store64 y w m) = load64 x m"
  using pages_apart[of x y] by (auto simp: PGSIZE_def intro: load64_store64_other)

lemma load64_memset_page:
  "PGSIZE dvd x \<Longrightarrow> PGSIZE dvd y \<Longrightarrow> x \<noteq> y \<Longrightarrow> load64 x (memset y c PGSIZE m) = load64 x m"
  using pages_apart[of x y] by (auto simp: PGSIZE_def intro: load64_memset_other)

lemma kfree_bad: "\<not> page_ok kend v \<Longrightarrow> 0 < v \<Longrightarrow> v < 2 ^ 64 \<Longrightarrow> kfree kend v s = Panic ''kfree''"
  by (auto simp: kfree_def page_ok_def)

lemma kfree_runs:
  assumes inv: "kinv kend ps s" and v: "page_ok kend v" "v \<notin> set ps"
  shows "runs (kfree kend v s) (\<lambda>_ t. kinv kend (v # ps) t \<and> use_lock t = use_lock s \<and>
    kmemst.more t = kmemst.more s \<and> (\<forall>x. x < v \<or> v + PGSIZE \<le> x \<longrightarrow> pmem t x = pmem s x))"
proof -
  let ?m = "store64 v (of_nat (freelist s)) (memset v 1 PGSIZE (pmem s))"
  have "chain ?m (freelist s) ps = chain (pmem s) (freelist s) ps"
  proof (rule chain_cong)
    fix x assume "x \<in> set ps"
    then have "PGSIZE dvd x" "x \<noteq> v" using inv v by (auto simp: kinv_def page_ok_def)
    then show "load64 x ?m = load64 x (pmem s)"
      using page_okD(1)[OF v(1)] by (simp add: load64_store64_page load64_memset_page)
  qed
  moreover have "unat (of_nat (freelist s) :: uintp) = freelist s"
    using kinv_freelist_bound[OF inv] by (simp add: unat_of_nat take_bit_nat_eq_self)
  ultimately have "chain ?m v (v # ps)"
    using inv page_okD(2)[OF v(1)] by (simp add: kinv_def)
  moreover have "x < v \<or> v + PGSIZE \<le> x \<Longrightarrow> ?m x = pmem s x" for x
    by (auto simp: store64_def store_bytes_def memset_fill PGSIZE_def)
  ultimately show ?thesis
    using inv v by (auto simp: kfree_def page_ok_def kinv_def Let_def)
qed

lemma kalloc_empty: "kinv kend [] s \<Longrightarrow> kalloc s = (0, s)"
  by (simp add: kinv_def kalloc_def)

lemma kalloc_page:
  "kinv kend (p # ps) s \<Longrightarrow>
   kalloc s = (p, s\<lparr>freelist := freelist (snd (kalloc s))\<rparr>) \<and> kinv kend ps (snd (kalloc s)) \<and> page_ok kend p
     \<and> p \<notin> set ps"
  by (auto simp: kinv_def kalloc_def Let_def)

lemma kern_top: "KERNBASE + PHYSTOP < 2 ^ 64"
  by (simp add: KERNBASE_def PHYSTOP_def)

lemma v2p_kern:
  assumes "KERNBASE \<le> v" "v < 2 ^ 64"
  shows "v2p v = v - KERNBASE"
proof -
  obtain d where "v = KERNBASE + d" using assms(1) nat_le_iff_add by blast
  moreover from this have "d < 2 ^ 64" using assms(2) by simp
  moreover have "KERNBASE + d + (2 ^ 64 - KERNBASE) = 2 ^ 64 + d" by (simp add: KERNBASE_def)
  ultimately show ?thesis unfolding v2p_def by (simp only: mod_add_self1) simp
qed

lemma freerange_from_runs:
  assumes "kinv kend ps s" "PGSIZE dvd p" "kend \<le> p" "KERNBASE < p" "vend \<le> KERNBASE + PHYSTOP"
    and "\<forall>q \<in> set ps. q < p \<or> vend \<le> q"
  shows "runs (freerange_from kend p vend s) (\<lambda>_ t.
    kinv kend (rev (map (\<lambda>k. p + k * PGSIZE) [0..<(vend - p) div PGSIZE]) @ ps) t \<and> use_lock t = use_lock s)"
  using assms
proof (induction kend p vend s arbitrary: ps rule: freerange_from.induct)
  case (1 kend p vend s)
  show ?case
  proof (cases "p + PGSIZE \<le> vend")
    case True
    have "p \<le> KERNBASE + PHYSTOP" using 1(6) True by simp
    then have "p < 2 ^ 64" using kern_top by (rule le_less_trans)
    moreover from this have "v2p p = p - KERNBASE" using 1(5) by (intro v2p_kern) simp_all
    ultimately have p: "page_ok kend p" using 1(3-6) True
      by (simp add: page_ok_def PHYSTOP_def PGSIZE_def)
    have fresh: "p \<notin> set ps" using 1(7) True by (auto simp: PGSIZE_def)
    have n: "(vend - p) div PGSIZE = Suc ((vend - (p + PGSIZE)) div PGSIZE)"
      using True by (simp add: PGSIZE_def)
    have "[0..<(vend - p) div PGSIZE] = 0 # map Suc [0..<(vend - (p + PGSIZE)) div PGSIZE]"
      unfolding n by (simp add: upt_conv_Cons map_Suc_upt)
    then have l: "rev (map (\<lambda>k. p + k * PGSIZE) [0..<(vend - p) div PGSIZE]) @ ps =
        rev (map (\<lambda>k. p + PGSIZE + k * PGSIZE) [0..<(vend - (p + PGSIZE)) div PGSIZE]) @ (p # ps)"
      by (simp add: comp_def add_ac)
    have step: "kinv kend (p # ps) t \<Longrightarrow> runs (freerange_from kend (p + PGSIZE) vend t) (\<lambda>_ u.
        kinv kend (rev (map (\<lambda>k. p + PGSIZE + k * PGSIZE) [0..<(vend - (p + PGSIZE)) div PGSIZE]) @ (p # ps)) u
        \<and> use_lock u = use_lock t)" for t :: "'a kmemst_scheme"
      using 1(3-7) True by (intro 1(1)[OF True]) (auto simp: PGSIZE_def)
    have "runs (kfree kend p s) (\<lambda>_ t. runs (freerange_from kend (p + PGSIZE) vend t) (\<lambda>_ u.
        kinv kend (rev (map (\<lambda>k. p + PGSIZE + k * PGSIZE) [0..<(vend - (p + PGSIZE)) div PGSIZE]) @ (p # ps)) u
        \<and> use_lock u = use_lock s))"
    proof (rule runs_mono[OF kfree_runs[OF 1(2) p fresh]], elim conjE)
      fix t :: "'a kmemst_scheme" assume "kinv kend (p # ps) t" "use_lock t = use_lock s"
      then show "runs (freerange_from kend (p + PGSIZE) vend t) (\<lambda>_ u.
          kinv kend (rev (map (\<lambda>k. p + PGSIZE + k * PGSIZE) [0..<(vend - (p + PGSIZE)) div PGSIZE]) @ (p # ps)) u
          \<and> use_lock u = use_lock s)" using step[of t] by simp
    qed
    then show ?thesis
      unfolding l freerange_from.simps[of kend p vend s] using True by simp
  next
    case False
    then have "(vend - p) div PGSIZE = 0" by (simp add: PGSIZE_def)
    with False 1(2) show ?thesis by (simp add: freerange_from.simps[of kend p vend s])
  qed
qed

section \<open>The interface of the allocator\<close>

text \<open>\<open>n\<close> allocations in a row.\<close>

primrec alloc_many :: "('s \<Rightarrow> nat \<times> 's) \<Rightarrow> nat \<Rightarrow> 's \<Rightarrow> nat list \<times> 's" where
  "alloc_many alloc 0 s = ([], s)"
| "alloc_many alloc (Suc n) s =
     (let (p, s) = alloc s; (ps, s) = alloc_many alloc n s in (p # ps, s))"

text \<open>
  What the users of the allocator rely on: pages come from a list of free ones, each good,
  and a page that is not free can be given back.
\<close>

locale page_alloc =
  fixes alloc :: "'s \<Rightarrow> nat \<times> 's"
    and free :: "nat \<Rightarrow> 's \<Rightarrow> (unit, 's) outcome"
    and inv :: "nat list \<Rightarrow> 's \<Rightarrow> bool"
    and ok :: "nat \<Rightarrow> bool"
  assumes alloc_none: "inv [] s \<Longrightarrow> alloc s = (0, s)"
    and alloc_some: "inv (p # ps) s \<Longrightarrow> fst (alloc s) = p \<and> inv ps (snd (alloc s))"
    and free_ok: "inv ps s \<Longrightarrow> ok p \<Longrightarrow> p \<notin> set ps \<Longrightarrow> runs (free p s) (\<lambda>_ t. inv (p # ps) t)"
    and inv_ok: "inv ps s \<Longrightarrow> distinct ps \<and> (\<forall>p \<in> set ps. ok p \<and> p \<noteq> 0)"
begin

lemma alloc_many_pages:
  "inv ps s \<Longrightarrow> fst (alloc_many alloc n s) = take n ps @ replicate (n - length ps) 0 \<and>
     inv (drop n ps) (snd (alloc_many alloc n s))"
proof (induction n arbitrary: ps s)
  case (Suc n)
  show ?case
  proof (cases ps)
    case Nil
    then show ?thesis using Suc.IH[of "[]" s] Suc.prems
      by (simp add: alloc_none case_prod_beta Let_def)
  next
    case (Cons q qs)
    then have "inv qs (snd (alloc s))" "fst (alloc s) = q" using Suc.prems alloc_some by auto
    then show ?thesis using Suc.IH[of qs "snd (alloc s)"] Cons
      by (simp add: case_prod_beta Let_def)
  qed
qed simp

lemma alloc_free_inverse:
  assumes "inv (p # ps) s"
  shows "runs (free p (snd (alloc s))) (\<lambda>_ t. inv (p # ps) t)"
  using alloc_some[OF assms] inv_ok[OF assms] by (intro free_ok) auto

lemma free_all:
  "inv ps s \<Longrightarrow> distinct qs \<Longrightarrow> set qs \<inter> set ps = {} \<Longrightarrow> (\<forall>q \<in> set qs. ok q) \<Longrightarrow>
   runs (ofor qs free s) (\<lambda>_ t. inv (rev qs @ ps) t)"
proof (induction qs arbitrary: ps s)
  case (Cons q qs)
  have "runs (free q s) (\<lambda>_ t. inv (q # ps) t)" using Cons.prems by (intro free_ok) auto
  then have "runs (free q s) (\<lambda>_ t. runs (ofor qs free t) (\<lambda>_ u. inv (rev qs @ q # ps) u))"
    by (rule runs_mono) (use Cons.prems in \<open>intro Cons.IH, auto\<close>)
  then show ?case by simp
qed simp

end

interpretation ka: page_alloc kalloc "kfree kend" "kinv kend" "page_ok kend" for kend
proof unfold_locales
  fix s :: "'a kmemst_scheme" assume "kinv kend [] s"
  then show "kalloc s = (0, s)" by (rule kalloc_empty)
next
  fix p ps and s :: "'a kmemst_scheme" assume i: "kinv kend (p # ps) s"
  show "fst (kalloc s) = p \<and> kinv kend ps (snd (kalloc s))"
    using kalloc_page[OF i] by (metis fst_conv)
next
  fix ps p and s :: "'a kmemst_scheme" assume "kinv kend ps s" "page_ok kend p" "p \<notin> set ps"
  from kfree_runs[OF this] show "runs (kfree kend p s) (\<lambda>_. kinv kend (p # ps))"
    by (rule runs_mono) auto
next
  fix ps and s :: "'a kmemst_scheme" assume "kinv kend ps s"
  then show "distinct ps \<and> (\<forall>p \<in> set ps. page_ok kend p \<and> p \<noteq> 0)"
    by (auto simp: kinv_def page_ok_def)
qed

section \<open>Properties\<close>

text \<open>
  The state before \<open>kinit1\<close>: zeroed memory and an empty free list.
\<close>

definition kboot :: kmemst where
  "kboot = \<lparr>pmem = (\<lambda>_. 0), use_lock = False, freelist = 0\<rparr>"

lemma kboot_inv: "kinv kend [] kboot"
  by (simp add: kinv_def kboot_def)

text \<open>
  C10: Boot: after \<open>kinit1\<close> and \<open>kinit2\<close> on two adjacent page-aligned ranges inside the
  kernel's window of physical memory, none of the frees panics and the free list is exactly
  all pages of both ranges, each once.
\<close>

theorem kinit_frees_all:
  assumes "PGSIZE dvd a" "PGSIZE dvd b" "kend \<le> a" "KERNBASE < a" "a \<le> b" "b \<le> c"
    and "c \<le> KERNBASE + PHYSTOP"
  shows "runs (obind (kinit1 kend a b kboot) (\<lambda>_ s. kinit2 kend b c s)) (\<lambda>_ t.
    kinv kend (rev (map (\<lambda>k. b + k * PGSIZE) [0..<(c - b) div PGSIZE]) @
               rev (map (\<lambda>k. a + k * PGSIZE) [0..<(b - a) div PGSIZE])) t \<and> use_lock t)"
proof -
  let ?A = "rev (map (\<lambda>k. a + k * PGSIZE) [0..<(b - a) div PGSIZE])"
  let ?B = "rev (map (\<lambda>k. b + k * PGSIZE) [0..<(c - b) div PGSIZE])"
  have r: "PGROUNDUP x = x" if "PGSIZE dvd x" for x
    using that by (auto simp: PGROUNDUP_def PGSIZE_def elim!: dvdE)
  have b: "b \<le> KERNBASE + PHYSTOP" "kend \<le> b" "KERNBASE < b" using assms by simp_all
  have "kinv kend [] (kboot\<lparr>use_lock := False\<rparr>)" by (simp add: kinv_def kboot_def)
  from freerange_from_runs[OF this assms(1,3,4) b(1)]
  have "runs (freerange_from kend a b (kboot\<lparr>use_lock := False\<rparr>)) (\<lambda>_ s. kinv kend ?A s)"
    by (rule runs_mono[OF _]) simp_all
  then have 1: "runs (kinit1 kend a b kboot) (\<lambda>_ s. kinv kend ?A s)"
    by (simp add: kinit1_def freerange_def r[OF assms(1)])
  have low: "q < b" if "q \<in> set ?A" for q
    using that assms(5) by (auto simp: PGSIZE_def)
  have 2: "runs (kinit2 kend b c s) (\<lambda>_ t. kinv kend (?B @ ?A) t \<and> use_lock t)"
    if "kinv kend ?A s" for s :: kmemst
  proof -
    have "runs (freerange_from kend b c s) (\<lambda>_ t. kinv kend (?B @ ?A) t)"
      by (rule runs_mono[OF freerange_from_runs[OF that assms(2) b(2,3) assms(7)]])
        (use low in blast)+
    then show ?thesis by (simp add: kinit2_def freerange_def r[OF assms(2)] kinv_def)
  qed
  show ?thesis using runs_mono[OF 1 2] by simp
qed

theorem kinit_frees_all_witness:
  "runs (obind (kinit1 0xFFFFFFFF80100000 0xFFFFFFFF80100000 0xFFFFFFFF80102000 kboot)
      (\<lambda>_ s. kinit2 0xFFFFFFFF80100000 0xFFFFFFFF80102000 0xFFFFFFFF80103000 s)) (\<lambda>_ t.
    kinv 0xFFFFFFFF80100000 [0xFFFFFFFF80102000, 0xFFFFFFFF80101000, 0xFFFFFFFF80100000] t \<and> use_lock t)"
  using kinit_frees_all[where a = "0xFFFFFFFF80100000" and b = "0xFFFFFFFF80102000"
    and c = "0xFFFFFFFF80103000" and kend = "0xFFFFFFFF80100000"]
  by (simp add: PGSIZE_def KERNBASE_def PHYSTOP_def upt_conv_Cons)

text \<open>
  C9: The allocator never hands out a page twice: \<open>n\<close> calls of \<open>kalloc\<close> return the first
  \<open>n\<close> pages of the free list, distinct and good, and 0 once it is empty; and \<open>kfree\<close> of the
  page just allocated restores the list.
\<close>

theorem kalloc_pages:
  assumes "kinv kend ps s"
  shows "fst (alloc_many kalloc n s) = take n ps @ replicate (n - length ps) 0
    \<and> distinct (take n ps)
    \<and> kinv kend (drop n ps) (snd (alloc_many kalloc n s))
    \<and> (ps \<noteq> [] \<longrightarrow> runs (kfree kend (hd ps) (snd (kalloc s))) (\<lambda>_ t. kinv kend ps t))"
  using ka.alloc_many_pages[OF assms, of n] ka.inv_ok[OF assms]
    ka.alloc_free_inverse[of kend "hd ps" "tl ps" s] assms
  by (cases ps) (auto simp: distinct_take simp del: take_Suc_Cons)

text \<open>A machine whose only free page is the first one above the kernel.\<close>

definition kone :: kmemst where
  "kone = \<lparr>pmem = (\<lambda>_. 0), use_lock = False, freelist = 0xFFFFFFFF80100000\<rparr>"

lemma kone_inv: "kinv 0xFFFFFFFF80100000 [0xFFFFFFFF80100000] kone"
proof -
  have "load_bytes a 8 (\<lambda>_. 0) = replicate 8 0" for a
    by (auto simp: load_bytes_def intro!: nth_equalityI)
  then show ?thesis
    by (simp add: kinv_def kone_def page_ok_def v2p_def PGSIZE_def KERNBASE_def PHYSTOP_def
      load64_def unle64_def unle32_def)
qed

theorem kalloc_pages_witness:
  "fst (alloc_many kalloc 2 kone) = [0xFFFFFFFF80100000, 0] \<and>
   runs (kfree 0xFFFFFFFF80100000 0xFFFFFFFF80100000 (snd (kalloc kone)))
     (\<lambda>_ t. kinv 0xFFFFFFFF80100000 [0xFFFFFFFF80100000] t)"
  using kalloc_pages[OF kone_inv, of 2] by simp

end
