(* ===== verification/Pipe.thy ===== *)
theory Pipe
  imports Fs_Inode Kalloc "HOL-Library.Sublist"
begin

text \<open>
  Pipes, \<^verbatim>\<open>kernel/pipe.c\<close>, and the kernel state that open files share: the file system
  state extended by the page allocator, the pipes (by the address of their page) and the
  file table. \<open>nread\<close> and \<open>nwrite\<close> are 32-bit counters that wrap around. A writer that finds
  the pipe full gives up the rest of its bytes to write when it is resumed, so that
  writers and readers interleave as they do in the kernel.
\<close>

section \<open>State\<close>

definition PIPESIZE :: nat where "PIPESIZE = 512"
definition NFILE :: nat where "NFILE = 100"

record pipe =
  p_data :: "uchar list"
  p_nread :: uint
  p_nwrite :: uint
  p_readopen :: bool
  p_writeopen :: bool

datatype ftype = FD_NONE | FD_PIPE | FD_INODE

record filest =
  f_type :: ftype
  f_ref :: int
  f_readable :: bool
  f_writable :: bool
  f_pipe :: nat
  f_ip :: nat
  f_off :: uint

record fstate = fsstate +
  kmem :: kmemst
  pipes :: "nat \<Rightarrow> pipe"
  ftable :: "filest list"

definition upd_pipe :: "nat \<Rightarrow> (pipe \<Rightarrow> pipe) \<Rightarrow> 'a fstate_scheme \<Rightarrow> 'a fstate_scheme" where
  "upd_pipe p f s = s\<lparr>pipes := (pipes s)(p := f (pipes s p))\<rparr>"

section \<open>The ring\<close>

definition pipe_full :: "pipe \<Rightarrow> bool" where
  "pipe_full p \<longleftrightarrow> p_nwrite p = p_nread p + of_nat PIPESIZE"

definition pipe_empty :: "pipe \<Rightarrow> bool" where
  "pipe_empty p \<longleftrightarrow> p_nread p = p_nwrite p"

definition pipe_put :: "uchar \<Rightarrow> pipe \<Rightarrow> pipe" where
  "pipe_put b p = p\<lparr>p_data := (p_data p)[unat (p_nwrite p) mod PIPESIZE := b],
     p_nwrite := p_nwrite p + 1\<rparr>"

definition pipe_get :: "pipe \<Rightarrow> uchar \<times> pipe" where
  "pipe_get p = (p_data p ! (unat (p_nread p) mod PIPESIZE), p\<lparr>p_nread := p_nread p + 1\<rparr>)"

section \<open>Operations\<close>

definition pipeclose :: "nat \<Rightarrow> nat \<Rightarrow> bool \<Rightarrow> 'a fstate_scheme \<Rightarrow> (unit, 'a fstate_scheme) outcome" where
  "pipeclose kend p writable s =
     (let s = (if writable then wakeup (ChNread p) (upd_pipe p (p_writeopen_update (\<lambda>_. False)) s)
               else wakeup (ChNwrite p) (upd_pipe p (p_readopen_update (\<lambda>_. False)) s)) in
      if \<not> p_readopen (pipes s p) \<and> \<not> p_writeopen (pipes s p) then
        (case kfree kend p (kmem s) of
           Ret _ k \<Rightarrow> Ret () (s\<lparr>kmem := k\<rparr>)
         | Panic m \<Rightarrow> Panic m
         | _ \<Rightarrow> Fault)
      else Ret () s)"

text \<open>
  The copy loop of \<open>pipewrite\<close> from the bytes that are left: all written; the reader is gone
  or the process was killed; or the pipe is full and the writer sleeps with the rest.
\<close>

datatype wres = Wrote | WErr | WBlocked "uchar list"

primrec pipewrite_from :: "bool \<Rightarrow> nat \<Rightarrow> uchar list \<Rightarrow> 'a fstate_scheme \<Rightarrow> wres \<times> 'a fstate_scheme" where
  "pipewrite_from killed p [] s = (Wrote, wakeup (ChNread p) s)"
| "pipewrite_from killed p (b # bs) s =
     (if pipe_full (pipes s p) then
        if \<not> p_readopen (pipes s p) \<or> killed then (WErr, s)
        else (WBlocked (b # bs), wakeup (ChNread p) s)
      else pipewrite_from killed p bs (upd_pipe p (pipe_put b) s))"

definition pipewrite :: "bool \<Rightarrow> nat \<Rightarrow> uchar list \<Rightarrow> 'a fstate_scheme \<Rightarrow> (nat option, 'a fstate_scheme) outcome" where
  "pipewrite killed p addr s =
     (case pipewrite_from killed p addr s of
        (Wrote, s) \<Rightarrow> Ret (Some (length addr)) s
      | (WErr, s) \<Rightarrow> Ret None s
      | (WBlocked rest, s) \<Rightarrow> Sleep (ChNwrite p) s)"

primrec piperead_copy :: "nat \<Rightarrow> pipe \<Rightarrow> uchar list \<times> pipe" where
  "piperead_copy 0 p = ([], p)"
| "piperead_copy (Suc n) p =
     (if pipe_empty p then ([], p)
      else let (b, p) = pipe_get p; (bs, p) = piperead_copy n p in (b # bs, p))"

definition piperead :: "bool \<Rightarrow> nat \<Rightarrow> nat \<Rightarrow> 'a fstate_scheme \<Rightarrow> (uchar list option, 'a fstate_scheme) outcome" where
  "piperead killed p n s =
     (if pipe_empty (pipes s p) \<and> p_writeopen (pipes s p) then
        if killed then Ret None s else Sleep (ChNread p) s
      else
        let (bs, q) = piperead_copy n (pipes s p) in
        Ret (Some bs) (wakeup (ChNwrite p) (upd_pipe p (\<lambda>_. q) s)))"

section \<open>The queue a pipe holds\<close>

definition p_len :: "pipe \<Rightarrow> nat" where
  "p_len p = unat (p_nwrite p - p_nread p)"

definition p_queue :: "pipe \<Rightarrow> uchar list" where
  "p_queue p = map (\<lambda>k. p_data p ! ((unat (p_nread p) + k) mod PIPESIZE)) [0..<p_len p]"

definition pipe_ok :: "pipe \<Rightarrow> bool" where
  "pipe_ok p \<longleftrightarrow> length (p_data p) = PIPESIZE \<and> p_len p \<le> PIPESIZE"

lemma pipe_empty_iff: "pipe_empty p \<longleftrightarrow> p_len p = 0"
  by (auto simp: pipe_empty_def p_len_def unat_eq_zero)

lemma pipe_full_iff: "pipe_full p \<longleftrightarrow> p_len p = PIPESIZE"
proof -
  have "p_nwrite p = p_nread p + of_nat PIPESIZE \<longleftrightarrow> p_nwrite p - p_nread p = of_nat PIPESIZE"
    by (metis add_diff_cancel_left' diff_add_cancel add.commute)
  then show ?thesis by (simp add: pipe_full_def p_len_def PIPESIZE_def word_unat_eq_iff)
qed

lemma unat_succ_mod: "unat (w + 1 :: uint) mod PIPESIZE = Suc (unat w) mod PIPESIZE"
proof -
  have "unat (w + 1) = Suc (unat w) mod 2 ^ 32"
    by (simp add: unat_word_ariths)
  moreover have "PIPESIZE dvd 2 ^ 32" by (simp add: PIPESIZE_def)
  ultimately show ?thesis by (simp add: mod_mod_cancel)
qed

lemma p_len_put: "pipe_ok p \<Longrightarrow> \<not> pipe_full p \<Longrightarrow> p_len (pipe_put b p) = Suc (p_len p)"
proof -
  assume "pipe_ok p" "\<not> pipe_full p"
  then have "p_len p < PIPESIZE" by (simp add: pipe_ok_def pipe_full_iff)
  then have "unat ((p_nwrite p - p_nread p) + 1) = Suc (p_len p)"
    unfolding p_len_def unat_word_ariths(1)[of _ 1] by (simp add: PIPESIZE_def)
  moreover have "p_nwrite (pipe_put b p) - p_nread (pipe_put b p) = (p_nwrite p - p_nread p) + 1"
    by (simp add: pipe_put_def)
  ultimately show ?thesis by (simp only: p_len_def[of "pipe_put b p"])
qed

lemma p_len_get: "\<not> pipe_empty p \<Longrightarrow> p_len p = Suc (p_len (snd (pipe_get p)))"
proof -
  assume "\<not> pipe_empty p"
  then have "p_nwrite p - p_nread p \<noteq> 0" by (simp add: pipe_empty_def)
  then have "unat (p_nwrite p - p_nread p - 1) = unat (p_nwrite p - p_nread p) - 1"
    by (simp add: unat_minus_one)
  moreover have "p_nwrite (snd (pipe_get p)) - p_nread (snd (pipe_get p)) = p_nwrite p - p_nread p - 1"
    by (simp add: pipe_get_def)
  moreover have "0 < unat (p_nwrite p - p_nread p)"
    using \<open>p_nwrite p - p_nread p \<noteq> 0\<close> by (simp add: unat_gt_0)
  ultimately show ?thesis unfolding p_len_def by simp
qed

lemma write_slot: "(unat (p_nread p) + p_len p) mod PIPESIZE = unat (p_nwrite p) mod PIPESIZE"
proof -
  have e: "p_nread p + (p_nwrite p - p_nread p) = p_nwrite p" by simp
  have "unat (p_nwrite p) = (unat (p_nread p) + p_len p) mod 2 ^ LENGTH(32)"
    using unat_word_ariths(1)[of "p_nread p" "p_nwrite p - p_nread p"] unfolding e p_len_def .
  moreover have "PIPESIZE dvd 2 ^ LENGTH(32)" by (simp add: PIPESIZE_def)
  ultimately show ?thesis by (simp only: mod_mod_cancel)
qed

lemma mod_distinct: "i < j \<Longrightarrow> j < i + n \<Longrightarrow> i mod n \<noteq> (j :: nat) mod n"
proof
  assume "i < j" "j < i + n" "i mod n = j mod n"
  then have "n dvd j - i" by (metis mod_eq_dvd_iff_nat less_imp_le)
  with \<open>i < j\<close> \<open>j < i + n\<close> show False by (auto dest: dvd_imp_le)
qed

lemma pipe_put_queue:
  assumes "pipe_ok p" "\<not> pipe_full p"
  shows "p_queue (pipe_put b p) = p_queue p @ [b]" "pipe_ok (pipe_put b p)"
proof -
  have l: "p_len p < PIPESIZE" using assms by (simp add: pipe_ok_def pipe_full_iff)
  let ?w = "unat (p_nwrite p) mod PIPESIZE"
  have w: "?w < PIPESIZE" by (simp add: PIPESIZE_def)
  have keep: "(p_data p)[?w := b] ! ((unat (p_nread p) + k) mod PIPESIZE) =
      p_data p ! ((unat (p_nread p) + k) mod PIPESIZE)" if "k < p_len p" for k
  proof -
    have "(unat (p_nread p) + k) mod PIPESIZE \<noteq> ?w"
      using mod_distinct[of "unat (p_nread p) + k" "unat (p_nread p) + p_len p" PIPESIZE] that l
      by (simp add: write_slot)
    then show ?thesis by simp
  qed
  have len: "p_len (pipe_put b p) = Suc (p_len p)" by (rule p_len_put[OF assms])
  have "p_queue (pipe_put b p) =
      map (\<lambda>k. (p_data p)[?w := b] ! ((unat (p_nread p) + k) mod PIPESIZE)) [0..<p_len p] @ [b]"
    using assms(1) w
    unfolding p_queue_def len by (simp add: pipe_put_def write_slot pipe_ok_def)
  also have "map (\<lambda>k. (p_data p)[?w := b] ! ((unat (p_nread p) + k) mod PIPESIZE)) [0..<p_len p] = p_queue p"
    unfolding p_queue_def by (rule map_cong) (simp_all add: keep)
  finally show "p_queue (pipe_put b p) = p_queue p @ [b]" .
  show "pipe_ok (pipe_put b p)"
    using assms len l by (simp add: pipe_ok_def) (simp add: pipe_put_def)
qed

lemma pipe_get_queue:
  assumes "pipe_ok p" "\<not> pipe_empty p"
  shows "p_queue p = fst (pipe_get p) # p_queue (snd (pipe_get p))" "pipe_ok (snd (pipe_get p))"
proof -
  have len: "p_len p = Suc (p_len (snd (pipe_get p)))" by (rule p_len_get[OF assms(2)])
  have slot: "(unat (p_nread p + 1) + k) mod PIPESIZE = (unat (p_nread p) + Suc k) mod PIPESIZE" for k
    by (metis unat_succ_mod add_Suc add_Suc_right mod_add_left_eq)
  have "p_queue p = p_data p ! (unat (p_nread p) mod PIPESIZE) #
      map (\<lambda>k. p_data p ! ((unat (p_nread p) + Suc k) mod PIPESIZE)) [0..<p_len (snd (pipe_get p))]"
    unfolding p_queue_def len by (simp add: upt_conv_Cons map_Suc_upt[symmetric] comp_def del: upt_Suc)
  then show "p_queue p = fst (pipe_get p) # p_queue (snd (pipe_get p))"
    by (simp add: p_queue_def pipe_get_def slot)
  show "pipe_ok (snd (pipe_get p))"
    using assms(1) len by (simp add: pipe_ok_def) (simp add: pipe_get_def)
qed

lemma piperead_copy_queue:
  "pipe_ok p \<Longrightarrow> p_queue p = fst (piperead_copy n p) @ p_queue (snd (piperead_copy n p)) \<and>
   pipe_ok (snd (piperead_copy n p)) \<and> length (fst (piperead_copy n p)) = min n (p_len p)"
proof (induction n arbitrary: p)
  case (Suc n)
  show ?case
  proof (cases "pipe_empty p")
    case False
    then show ?thesis using Suc.IH[OF pipe_get_queue(2)[OF Suc.prems False]]
        pipe_get_queue(1)[OF Suc.prems False] p_len_get[OF False]
      by (auto simp: case_prod_beta Let_def)
  qed (use Suc.prems in \<open>simp add: pipe_empty_iff\<close>)
qed simp

lemma pipes_wakeup [simp]: "pipes (wakeup c s) = pipes s"
  by (simp add: wakeup_def)

lemma pipewrite_from_queue:
  assumes "pipe_ok (pipes s p)"
  shows "\<exists>done rest. bs = done @ rest \<and>
    p_queue (pipes (snd (pipewrite_from killed p bs s)) p) = p_queue (pipes s p) @ done \<and>
    pipe_ok (pipes (snd (pipewrite_from killed p bs s)) p) \<and>
    (case fst (pipewrite_from killed p bs s) of
       Wrote \<Rightarrow> rest = [] | WErr \<Rightarrow> rest \<noteq> [] | WBlocked r \<Rightarrow> r = rest \<and> rest \<noteq> [])"
  using assms
proof (induction bs arbitrary: s)
  case (Cons b bs)
  show ?case
  proof (cases "pipe_full (pipes s p)")
    case False
    let ?s = "upd_pipe p (pipe_put b) s"
    have q: "pipes ?s p = pipe_put b (pipes s p)" by (simp add: upd_pipe_def)
    note put = pipe_put_queue[OF Cons.prems False, of b]
    have "pipe_ok (pipes ?s p)" using put by (simp add: q)
    from Cons.IH[OF this] obtain d r where
      "bs = d @ r" "p_queue (pipes (snd (pipewrite_from killed p bs ?s)) p) = p_queue (pipes ?s p) @ d"
      "pipe_ok (pipes (snd (pipewrite_from killed p bs ?s)) p)"
      "case fst (pipewrite_from killed p bs ?s) of
         Wrote \<Rightarrow> r = [] | WErr \<Rightarrow> r \<noteq> [] | WBlocked r' \<Rightarrow> r' = r \<and> r \<noteq> []" by blast
    moreover have "pipewrite_from killed p (b # bs) s = pipewrite_from killed p bs ?s"
      using False by simp
    ultimately show ?thesis by (intro exI[of _ "b # d"] exI[of _ r]) (simp add: q put)
  next
    case True
    then show ?thesis using Cons.prems by (intro exI[of _ "[]"] exI[of _ "b # bs"]) simp
  qed
qed simp

lemma pipewrite_from_room:
  "pipe_ok (pipes s p) \<Longrightarrow> p_len (pipes s p) + length bs \<le> PIPESIZE \<Longrightarrow>
   fst (pipewrite_from killed p bs s) = Wrote"
proof (induction bs arbitrary: s)
  case (Cons b bs)
  then have nf: "\<not> pipe_full (pipes s p)" by (simp add: pipe_full_iff)
  have "fst (pipewrite_from killed p bs (upd_pipe p (pipe_put b) s)) = Wrote"
    using Cons.prems pipe_put_queue(2)[OF Cons.prems(1) nf] p_len_put[OF Cons.prems(1) nf]
    by (intro Cons.IH) (simp_all add: upd_pipe_def)
  then show ?case using nf by simp
qed simp

section \<open>Readers and writers interleaved\<close>

text \<open>
  One pipe with its history: the bytes its writers have put in and the bytes its readers
  have taken out, over any sequence of calls. A write that blocks has put a part of its
  bytes in; its writer comes back with the rest, as a later step.
\<close>

inductive pipe_hist :: "nat \<Rightarrow> 'a fstate_scheme \<Rightarrow> 'a fstate_scheme \<Rightarrow> uchar list \<Rightarrow> uchar list \<Rightarrow> bool"
  for p s0 where
  hstart: "pipe_hist p s0 s0 [] []"
| hwrite: "pipe_hist p s0 s ws rs \<Longrightarrow> pipewrite_from killed p bs s = (r, t) \<Longrightarrow> done @ rest = bs \<Longrightarrow>
    r = (if rest = [] then Wrote else WBlocked rest) \<Longrightarrow> pipe_hist p s0 t (ws @ done) rs"
| hread: "pipe_hist p s0 s ws rs \<Longrightarrow> piperead killed p n s = Ret (Some bs) t \<Longrightarrow>
    pipe_hist p s0 t ws (rs @ bs)"

lemma piperead_queue:
  assumes "pipe_ok (pipes s p)" "piperead killed p n s = Ret (Some bs) t"
  shows "p_queue (pipes s p) = bs @ p_queue (pipes t p)" "pipe_ok (pipes t p)"
  using assms piperead_copy_queue[OF assms(1), of n]
  by (auto simp: piperead_def case_prod_beta Let_def upd_pipe_def split: if_splits)

lemma pipe_hist_queue:
  "pipe_hist p s0 s ws rs \<Longrightarrow> pipe_ok (pipes s0 p) \<Longrightarrow>
   pipe_ok (pipes s p) \<and> p_queue (pipes s0 p) @ ws = rs @ p_queue (pipes s p)"
proof (induction rule: pipe_hist.induct)
  case (hwrite s ws rs killed bs r t "done" rest)
  then have ok: "pipe_ok (pipes s p)" by simp
  from pipewrite_from_queue[OF ok, of bs killed] hwrite.hyps(2)
  obtain d e where de: "bs = d @ e" "p_queue (pipes t p) = p_queue (pipes s p) @ d" "pipe_ok (pipes t p)"
    "case r of Wrote \<Rightarrow> e = [] | WErr \<Rightarrow> e \<noteq> [] | WBlocked r \<Rightarrow> r = e \<and> e \<noteq> []" by auto
  then have "e = rest" using hwrite.hyps(4) by (auto split: if_splits)
  then have "d = done" using de(1) hwrite.hyps(3) by simp
  then show ?case using hwrite.IH hwrite.prems de by simp
next
  case (hread s ws rs killed n bs t)
  then show ?case using piperead_queue[of s p killed n bs t] by simp
qed simp

section \<open>Properties\<close>

text \<open>
  C7: A pipe is a FIFO under any interleaving of its readers and writers, across the
  wrap-around of its 32-bit counters: what readers have received is a prefix of what
  writers have put in, and what is missing is at most \<open>PIPESIZE\<close> bytes. A read never waits
  when there are bytes or no writer is left.
\<close>

theorem pipe_fifo:
  assumes "pipe_ok (pipes s0 p)" "pipe_empty (pipes s0 p)" "pipe_hist p s0 s ws rs"
  shows "ws = rs @ p_queue (pipes s p) \<and> length (p_queue (pipes s p)) \<le> PIPESIZE
    \<and> (p_queue (pipes s p) \<noteq> [] \<or> \<not> p_writeopen (pipes s p) \<longrightarrow>
        runs (piperead killed p n s) (\<lambda>r t. \<exists>bs. r = Some bs \<and> pipe_hist p s0 t ws (rs @ bs) \<and>
          length bs = min n (length (p_queue (pipes s p)))))"
proof -
  have q0: "p_queue (pipes s0 p) = []" using assms(2) by (simp add: p_queue_def pipe_empty_iff)
  have ok: "pipe_ok (pipes s p)" and ws: "ws = rs @ p_queue (pipes s p)"
    using pipe_hist_queue[OF assms(3,1)] q0 by auto
  have len: "length (p_queue (pipes s p)) = p_len (pipes s p)" by (simp add: p_queue_def)
  have "runs (piperead killed p n s) (\<lambda>r t. \<exists>bs. r = Some bs \<and> pipe_hist p s0 t ws (rs @ bs) \<and>
          length bs = min n (p_len (pipes s p)))"
    if "p_len (pipes s p) \<noteq> 0 \<or> \<not> p_writeopen (pipes s p)"
  proof -
    obtain bs q where c: "piperead_copy n (pipes s p) = (bs, q)" by fastforce
    then have r: "piperead killed p n s = Ret (Some bs) (wakeup (ChNwrite p) (upd_pipe p (\<lambda>_. q) s))"
      using that by (simp add: piperead_def pipe_empty_iff)
    moreover have "length bs = min n (p_len (pipes s p))"
      using piperead_copy_queue[OF ok, of n] c by simp
    moreover note pipe_hist.hread[OF assms(3) r]
    ultimately show ?thesis by simp
  qed
  then show ?thesis using ws ok by (auto simp: len pipe_ok_def p_queue_def)
qed

definition ex_pipe :: pipe where
  "ex_pipe = \<lparr>p_data = replicate 512 0, p_nread = -1, p_nwrite = -1, p_readopen = True, p_writeopen = True\<rparr>"

definition ex_pipes :: fstate where
  "ex_pipes = \<lparr>wakeq = [], memdisk = [], dwrites = [], bufs = [], lru = [],
     log = \<lparr>lstart = 0, lsize = 0, outstanding = 0, committing = False, ldev = 1, lh = \<lparr>lh_n = 0, lh_block = []\<rparr>\<rparr>,
     icache = [], kmem = kboot, pipes = (\<lambda>_. ex_pipe), ftable = []\<rparr>"

theorem pipe_fifo_witness:
  "\<exists>s. pipe_hist 4096 ex_pipes s [7, 8, 9] [] \<and>
     runs (piperead False 4096 2 s) (\<lambda>r t. r = Some [7, 8])"
proof -
  define s where "s = snd (pipewrite_from False 4096 [7, 8, 9] ex_pipes)"
  have ok: "pipe_ok (pipes ex_pipes 4096)" "pipe_empty (pipes ex_pipes 4096)"
    by (simp_all add: ex_pipes_def ex_pipe_def pipe_ok_def p_len_def pipe_empty_def PIPESIZE_def)
  have "fst (pipewrite_from False 4096 [7, 8, 9] ex_pipes) = Wrote"
    using ok by (intro pipewrite_from_room) (simp_all add: pipe_empty_iff PIPESIZE_def)
  then have e: "pipewrite_from False 4096 [7, 8, 9] ex_pipes = (Wrote, s)"
    unfolding s_def by (metis prod.collapse)
  have h: "pipe_hist 4096 ex_pipes s [7, 8, 9] []"
    using pipe_hist.hwrite[OF pipe_hist.hstart e, of "[7, 8, 9]" "[]"] by simp
  note f = pipe_fifo[OF ok h, of False 2]
  have q: "p_queue (pipes s 4096) = [7, 8, 9]" using conjunct1[OF f] by simp
  have "runs (piperead False 4096 2 s) (\<lambda>r t. \<exists>bs. r = Some bs \<and>
      pipe_hist 4096 ex_pipes t [7, 8, 9] ([] @ bs) \<and> length bs = 2)"
    using f unfolding q by (simp add: numeral_2_eq_2)
  then obtain bs t where r: "piperead False 4096 2 s = Ret (Some bs) t"
    "pipe_hist 4096 ex_pipes t [7, 8, 9] bs" "length bs = 2" unfolding runs_iff by auto
  have "[7, 8, 9] = bs @ p_queue (pipes t 4096)" using conjunct1[OF pipe_fifo[OF ok r(2)]] .
  then have "bs = take 2 [7, 8, 9]" using r(3) by (metis append_eq_conv_conj)
  with r(1) h show ?thesis by (intro exI[of _ s]) simp
qed

end
