(* ===== verification/File.thy ===== *)
theory File
  imports Pipe
begin

text \<open>
  Open files, \<^verbatim>\<open>kernel/file.c\<close>, and \<open>pipealloc\<close> of \<^verbatim>\<open>kernel/pipe.c\<close>, which builds on them.
  A file pointer is an index into \<open>ftable.file\<close>. The arguments \<open>killed\<close> (of the current
  process), \<open>kend\<close> (the end of the kernel image) and \<open>dv\<close> (the device switch) are what the
  code reads from globals that belong to other components.
\<close>

section \<open>Operations\<close>

abbreviation file_at :: "'a fstate_scheme \<Rightarrow> nat \<Rightarrow> filest" where
  "file_at s f \<equiv> ftable s ! f"

definition upd_file :: "nat \<Rightarrow> (filest \<Rightarrow> filest) \<Rightarrow> 'a fstate_scheme \<Rightarrow> 'a fstate_scheme" where
  "upd_file f g s = s\<lparr>ftable := (ftable s)[f := g (ftable s ! f)]\<rparr>"

definition filealloc :: "'a fstate_scheme \<Rightarrow> nat option \<times> 'a fstate_scheme" where
  "filealloc s =
     (case find_idx (\<lambda>f. f_ref f = 0) (ftable s) of
        Some f \<Rightarrow> (Some f, upd_file f (f_ref_update (\<lambda>_. 1)) s)
      | None \<Rightarrow> (None, s))"

definition filedup :: "nat \<Rightarrow> 'a fstate_scheme \<Rightarrow> (nat, 'a fstate_scheme) outcome" where
  "filedup f s =
     (if f_ref (file_at s f) < 1 then Panic ''filedup''
      else Ret f (upd_file f (f_ref_update (\<lambda>r. r + 1)) s))"

definition fileclose :: "nat \<Rightarrow> nat \<Rightarrow> 'a fstate_scheme \<Rightarrow> (unit, 'a fstate_scheme) outcome" where
  "fileclose kend f s =
     (if f_ref (file_at s f) < 1 then Panic ''fileclose''
      else
        let s = upd_file f (f_ref_update (\<lambda>r. r - 1)) s in
        if 0 < f_ref (file_at s f) then Ret () s
        else
          let ff = file_at s f; s = upd_file f (\<lambda>x. x\<lparr>f_ref := 0, f_type := FD_NONE\<rparr>) s in
          (case f_type ff of
             FD_PIPE \<Rightarrow> pipeclose kend (f_pipe ff) (f_writable ff) s
           | FD_INODE \<Rightarrow>
               obind (begin_op s) (\<lambda>_ s. obind (iput (f_ip ff) s) (\<lambda>_ s. end_op s))
           | FD_NONE \<Rightarrow> Ret () s))"

definition filestat :: "nat \<Rightarrow> 'a fstate_scheme \<Rightarrow> (stat option, 'a fstate_scheme) outcome" where
  "filestat f s =
     (if f_type (file_at s f) = FD_INODE then
        let i = f_ip (file_at s f) in
        obind (ilock i s) (\<lambda>_ s.
        let st = stati i s in
        obind (iunlock i s) (\<lambda>_ s. Ret (Some st) s))
      else Ret None s)"

definition fileread :: "'a fstate_scheme devsw \<Rightarrow> bool \<Rightarrow> nat \<Rightarrow> uint \<Rightarrow> 'a fstate_scheme \<Rightarrow>
    (uchar list option, 'a fstate_scheme) outcome" where
  "fileread dv killed f n s =
     (let fl = file_at s f in
      if \<not> f_readable fl then Ret None s
      else if f_type fl = FD_PIPE then piperead killed (f_pipe fl) (nat (sint n)) s
      else if f_type fl = FD_INODE then
        obind (ilock (f_ip fl) s) (\<lambda>_ s.
        obind (readi dv (f_ip fl) (f_off (file_at s f)) n s) (\<lambda>r s.
        let s = (case r of
                   Some bs \<Rightarrow> if bs \<noteq> [] then upd_file f (f_off_update (\<lambda>x. x + of_nat (length bs))) s else s
                 | None \<Rightarrow> s) in
        obind (iunlock (f_ip fl) s) (\<lambda>_ s. Ret r s)))
      else Panic ''fileread'')"

definition filewrite_max :: nat where
  "filewrite_max = ((LOGSIZE - 1 - 1 - 2) div 2) * 512"

text \<open>
  One transaction of \<open>filewrite\<close>: at most \<open>filewrite_max\<close> bytes, the result of \<open>writei\<close>.
\<close>

definition filewrite_chunk :: "'a fstate_scheme devsw \<Rightarrow> nat \<Rightarrow> uchar list \<Rightarrow> 'a fstate_scheme \<Rightarrow>
    (nat option, 'a fstate_scheme) outcome" where
  "filewrite_chunk dv f bs s =
     obind (begin_op s) (\<lambda>_ s.
     let i = f_ip (file_at s f) in
     obind (ilock i s) (\<lambda>_ s.
     obind (writei dv i (f_off (file_at s f)) bs s) (\<lambda>r s.
     let s = (case r of
                Some k \<Rightarrow> if 0 < k then upd_file f (f_off_update (\<lambda>x. x + of_nat k)) s else s
              | None \<Rightarrow> s) in
     obind (iunlock i s) (\<lambda>_ s.
     obind (end_op s) (\<lambda>_ s. Ret r s)))))"

function filewrite_loop :: "'a fstate_scheme devsw \<Rightarrow> nat \<Rightarrow> uchar list \<Rightarrow> 'a fstate_scheme \<Rightarrow>
    (bool, 'a fstate_scheme) outcome" where
  "filewrite_loop dv f addr s =
     (if addr = [] then Ret True s
      else
        let n1 = min (length addr) filewrite_max in
        obind (filewrite_chunk dv f (take n1 addr) s) (\<lambda>r s.
        case r of
          None \<Rightarrow> Ret False s
        | Some k \<Rightarrow>
            if k \<noteq> n1 then Panic ''short filewrite''
            else filewrite_loop dv f (drop n1 addr) s))"
  by pat_completeness auto
termination
proof (relation "measure (\<lambda>(dv, f, addr, s). length addr)")
  fix dv f n1 x k and addr :: "uchar list" and s xa :: "'a fstate_scheme" and r :: "nat option"
  assume "addr \<noteq> []" "n1 = min (length addr) filewrite_max"
  moreover have "0 < filewrite_max" by (simp add: filewrite_max_def LOGSIZE_def MAXOPBLOCKS_def)
  ultimately show "((dv, f, drop n1 addr, xa), dv, f, addr, s) \<in> measure (\<lambda>(dv, f, addr, s). length addr)"
    by simp
qed simp

declare filewrite_loop.simps [simp del]

definition filewrite :: "'a fstate_scheme devsw \<Rightarrow> bool \<Rightarrow> nat \<Rightarrow> uchar list \<Rightarrow> 'a fstate_scheme \<Rightarrow>
    (nat option, 'a fstate_scheme) outcome" where
  "filewrite dv killed f addr s =
     (let fl = file_at s f in
      if \<not> f_writable fl then Ret None s
      else if f_type fl = FD_PIPE then pipewrite killed (f_pipe fl) addr s
      else if f_type fl = FD_INODE then
        obind (filewrite_loop dv f addr s) (\<lambda>ok s.
        Ret (if ok then Some (length addr) else None) s)
      else Panic ''filewrite'')"

text \<open>
  \<open>pipealloc\<close> gives the two ends or undoes what it had allocated. The page from \<open>kalloc\<close>
  becomes a pipe; its data bytes are what the page held, which no operation reads before
  writing them.
\<close>

definition pipealloc_bad :: "nat \<Rightarrow> nat option \<Rightarrow> nat option \<Rightarrow> 'a fstate_scheme \<Rightarrow> (unit, 'a fstate_scheme) outcome" where
  "pipealloc_bad kend f0 f1 s =
     obind (case f0 of Some f \<Rightarrow> fileclose kend f s | None \<Rightarrow> Ret () s) (\<lambda>_ s.
     case f1 of Some f \<Rightarrow> fileclose kend f s | None \<Rightarrow> Ret () s)"

definition pipealloc :: "nat \<Rightarrow> 'a fstate_scheme \<Rightarrow> ((nat \<times> nat) option, 'a fstate_scheme) outcome" where
  "pipealloc kend s =
     (case filealloc s of
        (None, s) \<Rightarrow> Ret None s
      | (Some f0, s) \<Rightarrow>
          (case filealloc s of
             (None, s) \<Rightarrow> obind (pipealloc_bad kend (Some f0) None s) (\<lambda>_ s. Ret None s)
           | (Some f1, s) \<Rightarrow>
               let (p, k) = kalloc (kmem s); s = s\<lparr>kmem := k\<rparr> in
               if p = 0 then obind (pipealloc_bad kend (Some f0) (Some f1) s) (\<lambda>_ s. Ret None s)
               else
                 let s = upd_pipe p (\<lambda>_. \<lparr>p_data = load_bytes (p + 104) PIPESIZE (pmem k), p_nread = 0,
                       p_nwrite = 0, p_readopen = True, p_writeopen = True\<rparr>) s;
                     s = upd_file f0 (\<lambda>x. x\<lparr>f_type := FD_PIPE, f_readable := True,
                       f_writable := False, f_pipe := p\<rparr>) s;
                     s = upd_file f1 (\<lambda>x. x\<lparr>f_type := FD_PIPE, f_readable := False,
                       f_writable := True, f_pipe := p\<rparr>) s in
                 Ret (Some (f0, f1)) s))"

section \<open>Lemmas\<close>

lemma upd_file_sel [simp]:
  "kmem (upd_file f g s) = kmem s" "pipes (upd_file f g s) = pipes s"
  "length (ftable (upd_file f g s)) = length (ftable s)"
  "f < length (ftable s) \<Longrightarrow> file_at (upd_file f g s) f = g (file_at s f)"
  "h \<noteq> f \<Longrightarrow> file_at (upd_file f g s) h = file_at s h"
  by (simp_all add: upd_file_def)

lemma upd_pipe_sel [simp]:
  "kmem (upd_pipe p g s) = kmem s" "ftable (upd_pipe p g s) = ftable s"
  "pipes (upd_pipe p g s) p = g (pipes s p)" "q \<noteq> p \<Longrightarrow> pipes (upd_pipe p g s) q = pipes s q"
  by (simp_all add: upd_pipe_def)

lemma wakeup_sel [simp]: "kmem (wakeup c s) = kmem s" "ftable (wakeup c s) = ftable s"
  by (simp_all add: wakeup_def)

lemma filealloc_Some:
  assumes "filealloc s = (Some f, t)"
  shows "f < length (ftable s)" "f_ref (file_at s f) = 0" "t = upd_file f (f_ref_update (\<lambda>_. 1)) s"
  using assms by (auto simp: filealloc_def find_idx_Some split: option.splits)

lemma filealloc_None:
  "filealloc s = (None, t) \<longleftrightarrow> (\<forall>f < length (ftable s). f_ref (file_at s f) \<noteq> 0) \<and> t = s"
  by (auto simp: filealloc_def find_idx_None find_idx_Some split: option.splits)

lemma pipeclose_other_open:
  assumes "if writable then p_readopen (pipes s p) else p_writeopen (pipes s p)"
  shows "runs (pipeclose kend p writable s) (\<lambda>_ t. kmem t = kmem s \<and> ftable t = ftable s \<and>
    p_readopen (pipes t p) = (writable \<and> p_readopen (pipes s p)) \<and>
    p_writeopen (pipes t p) = (\<not> writable \<and> p_writeopen (pipes s p)))"
  using assms by (cases writable) (simp_all add: pipeclose_def Let_def)

lemma pipeclose_last:
  assumes "if writable then \<not> p_readopen (pipes s p) else \<not> p_writeopen (pipes s p)"
    and "kinv kend ps (kmem s)" "page_ok kend p" "p \<notin> set ps"
  shows "runs (pipeclose kend p writable s) (\<lambda>_ t. kinv kend (p # ps) (kmem t) \<and> ftable t = ftable s)"
proof -
  obtain k where k: "kfree kend p (kmem s) = Ret () k" "kinv kend (p # ps) k"
    using kfree_runs[OF assms(2-4)] by (auto simp: runs_iff)
  show ?thesis using assms(1) k by (cases writable) (simp_all add: pipeclose_def Let_def)
qed

lemma fileclose_more:
  "1 < f_ref (file_at s f) \<Longrightarrow> f < length (ftable s) \<Longrightarrow>
   fileclose kend f s = Ret () (upd_file f (f_ref_update (\<lambda>r. r - 1)) s)"
  by (simp add: fileclose_def Let_def)

lemma upd_file_comp: "upd_file f g (upd_file f h s) = upd_file f (\<lambda>x. g (h x)) s"
  by (cases "f < length (ftable s)") (simp_all add: upd_file_def list_update_beyond)

lemma fileclose_last_pipe:
  assumes "f_ref (file_at s f) = 1" "f < length (ftable s)" "f_type (file_at s f) = FD_PIPE"
  shows "fileclose kend f s = pipeclose kend (f_pipe (file_at s f)) (f_writable (file_at s f))
    (upd_file f (\<lambda>x. x\<lparr>f_ref := 0, f_type := FD_NONE\<rparr>) s)"
  using assms by (simp add: fileclose_def Let_def upd_file_comp)

lemma fileclose_last_none:
  assumes "f_ref (file_at s f) = 1" "f < length (ftable s)" "f_type (file_at s f) = FD_NONE"
  shows "fileclose kend f s = Ret () (upd_file f (\<lambda>x. x\<lparr>f_ref := 0, f_type := FD_NONE\<rparr>) s)"
  using assms by (simp add: fileclose_def Let_def upd_file_comp)

text \<open>Both ends of a fresh pipe.\<close>

definition pipe_ends :: "nat \<Rightarrow> nat \<Rightarrow> nat \<Rightarrow> 'a fstate_scheme \<Rightarrow> bool" where
  "pipe_ends p f0 f1 s \<longleftrightarrow>
     f0 \<noteq> f1 \<and> f0 < length (ftable s) \<and> f1 < length (ftable s)
     \<and> f_type (file_at s f0) = FD_PIPE \<and> f_type (file_at s f1) = FD_PIPE
     \<and> f_ref (file_at s f0) = 1 \<and> f_ref (file_at s f1) = 1
     \<and> f_readable (file_at s f0) \<and> \<not> f_writable (file_at s f0)
     \<and> \<not> f_readable (file_at s f1) \<and> f_writable (file_at s f1)
     \<and> f_pipe (file_at s f0) = p \<and> f_pipe (file_at s f1) = p
     \<and> pipe_ok (pipes s p) \<and> pipe_empty (pipes s p)
     \<and> p_readopen (pipes s p) \<and> p_writeopen (pipes s p)"

lemma pipealloc_ends:
  assumes "kinv kend (p # ps) (kmem s)" "filealloc s = (Some f0, s1)" "filealloc s1 = (Some f1, s2)"
  shows "runs (pipealloc kend s) (\<lambda>r t. r = Some (f0, f1) \<and> pipe_ends p f0 f1 t \<and>
    kinv kend ps (kmem t) \<and> (\<forall>f. f \<noteq> f0 \<longrightarrow> f \<noteq> f1 \<longrightarrow> file_at t f = file_at s f))"
proof -
  note a0 = filealloc_Some[OF assms(2)] and a1 = filealloc_Some[OF assms(3)]
  have f01: "f0 \<noteq> f1" "f1 < length (ftable s)" using a0 a1 by (auto simp: upd_file_def)
  have km: "kmem s2 = kmem s" using a0 a1 by simp
  obtain k where k: "kalloc (kmem s) = (p, k)" "kinv kend ps k" "p \<noteq> 0"
    using ka.alloc_some[OF assms(1)] ka.inv_ok[OF assms(1)] by (cases "kalloc (kmem s)") auto
  have ok: "pipe_ok \<lparr>p_data = load_bytes a PIPESIZE m, p_nread = 0, p_nwrite = 0,
      p_readopen = True, p_writeopen = True\<rparr>" for a m
    by (simp add: pipe_ok_def p_len_def load_bytes_def)
  show ?thesis
    using k f01 a0(1) a1(1)
    by (simp add: pipealloc_def assms(2,3) Let_def km pipe_ends_def ok pipe_empty_def)
      (simp add: a0(3) a1(3))
qed

lemma close_pipe_ends:
  assumes "pipe_ends p f0 f1 s" "kinv kend ps (kmem s)" "page_ok kend p" "p \<notin> set ps"
  shows "runs (obind (fileclose kend f0 s) (\<lambda>_ s. fileclose kend f1 s)) (\<lambda>_ t.
    kinv kend (p # ps) (kmem t) \<and> f_ref (file_at t f0) = 0 \<and> f_ref (file_at t f1) = 0 \<and>
    (\<forall>f. f \<noteq> f0 \<longrightarrow> f \<noteq> f1 \<longrightarrow> file_at t f = file_at s f))"
proof -
  let ?n = "\<lambda>x :: filest. x\<lparr>f_ref := 0, f_type := FD_NONE\<rparr>"
  let ?s = "upd_file f0 ?n s"
  from assms(1) have e: "f0 \<noteq> f1" "f0 < length (ftable s)" "f1 < length (ftable s)"
    "f_type (file_at s f0) = FD_PIPE" "f_type (file_at s f1) = FD_PIPE"
    "f_ref (file_at s f0) = 1" "f_ref (file_at s f1) = 1" "\<not> f_writable (file_at s f0)"
    "f_writable (file_at s f1)" "f_pipe (file_at s f0) = p" "f_pipe (file_at s f1) = p"
    "p_readopen (pipes s p)" "p_writeopen (pipes s p)" by (simp_all add: pipe_ends_def)
  have c0: "fileclose kend f0 s = pipeclose kend p False ?s" using e by (simp add: fileclose_last_pipe)
  have "runs (pipeclose kend p False ?s) (\<lambda>_ t. kmem t = kmem ?s \<and> ftable t = ftable ?s \<and>
      p_readopen (pipes t p) = False \<and> p_writeopen (pipes t p) = True)"
    using pipeclose_other_open[of False ?s p kend] e by simp
  then have "runs (fileclose kend f0 s) (\<lambda>_ t. kmem t = kmem s \<and> ftable t = ftable ?s \<and>
      \<not> p_readopen (pipes t p) \<and> p_writeopen (pipes t p))" by (simp add: c0)
  moreover have "runs (fileclose kend f1 t) (\<lambda>_ u. kinv kend (p # ps) (kmem u) \<and>
      f_ref (file_at u f0) = 0 \<and> f_ref (file_at u f1) = 0 \<and>
      (\<forall>f. f \<noteq> f0 \<longrightarrow> f \<noteq> f1 \<longrightarrow> file_at u f = file_at s f))"
    if t: "kmem t = kmem s" "ftable t = ftable ?s" "\<not> p_readopen (pipes t p)" for t :: "'a fstate_scheme"
  proof -
    have at: "file_at t f1 = file_at s f1" "f1 < length (ftable t)" using t(2) e by simp_all
    then have c1: "fileclose kend f1 t = pipeclose kend p True (upd_file f1 ?n t)"
      using e by (simp add: fileclose_last_pipe)
    have "runs (pipeclose kend p True (upd_file f1 ?n t)) (\<lambda>_ u. kinv kend (p # ps) (kmem u) \<and>
        ftable u = ftable (upd_file f1 ?n t))"
      using t assms(2-4) by (intro pipeclose_last) simp_all
    then show ?thesis unfolding c1
      by (rule runs_mono) (use e at t(2) in \<open>auto simp: upd_file_def\<close>)
  qed
  ultimately have "runs (fileclose kend f0 s) (\<lambda>_ t. runs (fileclose kend f1 t) (\<lambda>_ u.
      kinv kend (p # ps) (kmem u) \<and> f_ref (file_at u f0) = 0 \<and> f_ref (file_at u f1) = 0 \<and>
      (\<forall>f. f \<noteq> f0 \<longrightarrow> f \<noteq> f1 \<longrightarrow> file_at u f = file_at s f)))"
    by (elim runs_mono conjE)
  then show ?thesis by simp
qed

section \<open>Properties\<close>

text \<open>
  C11: A pipe's life: with a free page and two free file slots, \<open>pipealloc\<close> succeeds with a
  readable and a writable end of one empty pipe on a page taken from the allocator; closing
  both ends frees both slots and gives the page back, and no other file is touched.
\<close>

theorem pipealloc_close_roundtrip:
  assumes "kinv kend (p # ps) (kmem s)"
    and "filealloc s = (Some f0, s1)" "filealloc s1 = (Some f1, s2)"
  shows "runs (pipealloc kend s) (\<lambda>r t. r = Some (f0, f1) \<and> pipe_ends p f0 f1 t \<and>
      kinv kend ps (kmem t) \<and>
      runs (obind (fileclose kend f0 t) (\<lambda>_ s. fileclose kend f1 s)) (\<lambda>_ u.
        kinv kend (p # ps) (kmem u) \<and> f_ref (file_at u f0) = 0 \<and> f_ref (file_at u f1) = 0 \<and>
        (\<forall>f. f \<noteq> f0 \<longrightarrow> f \<noteq> f1 \<longrightarrow> file_at u f = file_at s f)))"
proof (rule runs_mono[OF pipealloc_ends[OF assms]])
  fix r t
  assume a: "r = Some (f0, f1) \<and> pipe_ends p f0 f1 t \<and> kinv kend ps (kmem t) \<and>
    (\<forall>f. f \<noteq> f0 \<longrightarrow> f \<noteq> f1 \<longrightarrow> file_at t f = file_at s f)"
  have p: "page_ok kend p" "p \<notin> set ps" using ka.inv_ok[OF assms(1)] by auto
  have "runs (obind (fileclose kend f0 t) (\<lambda>_ s. fileclose kend f1 s)) (\<lambda>_ u.
      kinv kend (p # ps) (kmem u) \<and> f_ref (file_at u f0) = 0 \<and> f_ref (file_at u f1) = 0 \<and>
      (\<forall>f. f \<noteq> f0 \<longrightarrow> f \<noteq> f1 \<longrightarrow> file_at u f = file_at s f))"
    by (rule runs_mono[OF close_pipe_ends[OF _ _ p]]) (use a in auto)
  with a show "r = Some (f0, f1) \<and> pipe_ends p f0 f1 t \<and> kinv kend ps (kmem t) \<and>
      runs (obind (fileclose kend f0 t) (\<lambda>_ s. fileclose kend f1 s)) (\<lambda>_ u.
        kinv kend (p # ps) (kmem u) \<and> f_ref (file_at u f0) = 0 \<and> f_ref (file_at u f1) = 0 \<and>
        (\<forall>f. f \<noteq> f0 \<longrightarrow> f \<noteq> f1 \<longrightarrow> file_at u f = file_at s f))" by blast
qed

definition ex_files :: fstate where
  "ex_files = ex_pipes\<lparr>kmem := kone, ftable := replicate 3 \<lparr>f_type = FD_NONE, f_ref = 0,
     f_readable = False, f_writable = False, f_pipe = 0, f_ip = 0, f_off = 0\<rparr>\<rparr>"

theorem pipealloc_close_roundtrip_witness:
  "runs (pipealloc 0xFFFFFFFF80100000 ex_files) (\<lambda>r t. r = Some (0, 1) \<and>
     runs (obind (fileclose 0xFFFFFFFF80100000 0 t) (\<lambda>_ s. fileclose 0xFFFFFFFF80100000 1 s)) (\<lambda>_ u.
       kinv 0xFFFFFFFF80100000 [0xFFFFFFFF80100000] (kmem u) \<and> f_ref (file_at u 0) = 0))"
proof -
  have k: "kinv 0xFFFFFFFF80100000 [0xFFFFFFFF80100000] (kmem ex_files)"
    by (simp add: ex_files_def kone_inv)
  have a0: "filealloc ex_files = (Some 0, upd_file 0 (f_ref_update (\<lambda>_. 1)) ex_files)"
    by (simp add: filealloc_def ex_files_def numeral_3_eq_3)
  have a1: "filealloc (upd_file 0 (f_ref_update (\<lambda>_. 1)) ex_files) =
      (Some 1, upd_file 1 (f_ref_update (\<lambda>_. 1)) (upd_file 0 (f_ref_update (\<lambda>_. 1)) ex_files))"
    by (simp add: filealloc_def ex_files_def upd_file_def numeral_3_eq_3)
  show ?thesis
    by (rule runs_mono[OF pipealloc_close_roundtrip[OF k a0 a1]]) (auto elim!: runs_mono simp del: runs_obind)
qed

text \<open>
  C12: When \<open>pipealloc\<close> cannot get two file slots or a page it returns -1 with no slot left
  taken: every file's reference count is what it was and the allocator is unchanged.
\<close>

theorem pipealloc_failure:
  assumes "kinv kend ps (kmem s)" "\<forall>f < length (ftable s). f_ref (file_at s f) = 0 \<longrightarrow> f_type (file_at s f) = FD_NONE"
    and "ps = [] \<or> fst (filealloc s) = None \<or> fst (filealloc (snd (filealloc s))) = None"
  shows "runs (pipealloc kend s) (\<lambda>r t. r = None \<and> kinv kend ps (kmem t) \<and>
    (\<forall>f < length (ftable s). f_ref (file_at t f) = f_ref (file_at s f)))"
proof (cases "filealloc s")
  case (Pair r0 s1)
  show ?thesis
  proof (cases r0)
    case None
    then have "s1 = s" using Pair filealloc_None[of s s1] by simp
    then show ?thesis using Pair None assms(1) by (simp add: pipealloc_def)
  next
    case (Some f0)
    note a0 = filealloc_Some[OF Pair[unfolded Some]]
    have t0: "f_type (file_at s f0) = FD_NONE" using a0 assms(2) by simp
    obtain r1 s2 where s2: "filealloc s1 = (r1, s2)" by fastforce
    show ?thesis
    proof (cases r1)
      case None
      then have "s2 = s1" using s2 filealloc_None[of s1 s2] by simp
      then show ?thesis using Pair Some None s2 a0 t0 assms(1)
        by (auto simp: pipealloc_def pipealloc_bad_def fileclose_last_none upd_file_def nth_list_update)
    next
      case (Some f1)
      note a1 = filealloc_Some[OF s2[unfolded Some]]
      have f01: "f1 \<noteq> f0" "f1 < length (ftable s)" using a0 a1 by (auto simp: upd_file_def)
      then have t1: "f_type (file_at s f1) = FD_NONE" using a0 a1 assms(2) by simp
      have "ps = []" using assms(3) Pair \<open>r0 = Some f0\<close> s2 Some by simp
      then have "kalloc (kmem s2) = (0, kmem s2)" using assms(1) a0 a1 by (simp add: kalloc_empty)
      then show ?thesis using Pair \<open>r0 = Some f0\<close> Some s2 a0 a1 t0 t1 f01 assms(1)
        by (auto simp: pipealloc_def pipealloc_bad_def fileclose_last_none upd_file_def nth_list_update)
    qed
  qed
qed

theorem pipealloc_failure_witness:
  "runs (pipealloc 0 (ex_files\<lparr>kmem := kboot\<rparr>)) (\<lambda>r t. r = None \<and>
    (\<forall>f < 3. f_ref (file_at t f) = 0))"
proof -
  have "runs (pipealloc 0 (ex_files\<lparr>kmem := kboot\<rparr>)) (\<lambda>r t. r = None \<and> kinv 0 [] (kmem t) \<and>
    (\<forall>f < length (ftable (ex_files\<lparr>kmem := kboot\<rparr>)). f_ref (file_at t f) = f_ref (file_at (ex_files\<lparr>kmem := kboot\<rparr>) f)))"
    by (rule pipealloc_failure) (simp_all add: kboot_inv ex_files_def)
  then show ?thesis by (rule runs_mono) (simp add: ex_files_def)
qed

end
