(* ===== verification/VM.thy ===== *)
theory VM
  imports File
begin

text \<open>
  Page tables and user memory: \<^verbatim>\<open>kernel/vm.c\<close> and \<open>setupkvm\<close> of \<^verbatim>\<open>kernel/vm64.c\<close>, for the 64-bit
  build. A page directory is the kernel address of its page; entries are the 64-bit words
  in it. Dereferencing the null pointer that an unchecked \<open>kalloc\<close> or \<open>walkpgdir\<close> returned is
  \<open>Fault\<close>. Virtual addresses are natural numbers below \<open>2 ^ 64\<close>.
\<close>

section \<open>Page table entries\<close>

definition PTE_P :: uintp where "PTE_P = 0x001"
definition PTE_W :: uintp where "PTE_W = 0x002"
definition PTE_U :: uintp where "PTE_U = 0x004"
definition PTE_PWT :: uintp where "PTE_PWT = 0x008"
definition PTE_PCD :: uintp where "PTE_PCD = 0x010"
definition PTE_PS :: uintp where "PTE_PS = 0x080"

definition PTE_ADDR :: "uintp \<Rightarrow> nat" where
  "PTE_ADDR pte = unat (pte AND NOT (mask 12))"

definition PTE_FLAGS :: "uintp \<Rightarrow> uintp" where
  "PTE_FLAGS pte = pte AND mask 12"

definition NPDENTRIES :: nat where "NPDENTRIES = 512"
definition NPTENTRIES :: nat where "NPTENTRIES = 512"
definition PDX :: "nat \<Rightarrow> nat" where "PDX va = va div 2 ^ 21 mod 512"
definition PTX :: "nat \<Rightarrow> nat" where "PTX va = va div 2 ^ 12 mod 512"

abbreviation present :: "uintp \<Rightarrow> bool" where "present e \<equiv> e AND PTE_P \<noteq> 0"

section \<open>Walking and mapping\<close>

definition walkpgdir :: "nat \<Rightarrow> nat \<Rightarrow> bool \<Rightarrow> 'a kmemst_scheme \<Rightarrow> nat option \<times> 'a kmemst_scheme" where
  "walkpgdir pgdir va alloc s =
     (let pde = pgdir + 8 * PDX va; e = load64 pde (pmem s) in
      if present e then (Some (p2v (PTE_ADDR e) + 8 * PTX va), s)
      else if \<not> alloc then (None, s)
      else
        let (pgtab, s) = kalloc s in
        if pgtab = 0 then (None, s)
        else
          let m = memset pgtab 0 PGSIZE (pmem s);
              m = store64 pde (of_nat (v2p pgtab) OR PTE_P OR PTE_W OR PTE_U) m in
          (Some (pgtab + 8 * PTX va), s\<lparr>pmem := m\<rparr>))"

text \<open>
  The loop of \<open>mappages\<close>, with the number of pages after this one instead of the last
  address: the loop ends when its address, which wraps, equals \<open>last\<close>.
\<close>

primrec mappages_from :: "nat \<Rightarrow> nat \<Rightarrow> nat \<Rightarrow> uintp \<Rightarrow> uintp \<Rightarrow> 'a kmemst_scheme \<Rightarrow> (bool, 'a kmemst_scheme) outcome" where
  "mappages_from pgdir a 0 pa perm s =
     (case walkpgdir pgdir a True s of
        (None, s) \<Rightarrow> Ret False s
      | (Some pte, s) \<Rightarrow>
          if present (load64 pte (pmem s)) then Panic ''remap''
          else Ret True (s\<lparr>pmem := store64 pte (pa OR perm OR PTE_P) (pmem s)\<rparr>))"
| "mappages_from pgdir a (Suc n) pa perm s =
     (case walkpgdir pgdir a True s of
        (None, s) \<Rightarrow> Ret False s
      | (Some pte, s) \<Rightarrow>
          if present (load64 pte (pmem s)) then Panic ''remap''
          else mappages_from pgdir ((a + PGSIZE) mod 2 ^ 64) n (pa + of_nat PGSIZE) perm
            (s\<lparr>pmem := store64 pte (pa OR perm OR PTE_P) (pmem s)\<rparr>))"

definition mappages :: "nat \<Rightarrow> nat \<Rightarrow> nat \<Rightarrow> uintp \<Rightarrow> uintp \<Rightarrow> 'a kmemst_scheme \<Rightarrow> (bool, 'a kmemst_scheme) outcome" where
  "mappages pgdir va sz pa perm s =
     (let a = PGROUNDDOWN va; last = PGROUNDDOWN ((va + sz + 2 ^ 64 - 1) mod 2 ^ 64) in
      mappages_from pgdir a (((last + 2 ^ 64 - a) mod 2 ^ 64) div PGSIZE) pa perm s)"

text \<open>The 64-bit \<open>setupkvm\<close>; \<open>kpdpt\<close> is the kernel's page directory pointer table.\<close>

definition setupkvm :: "nat \<Rightarrow> 'a kmemst_scheme \<Rightarrow> (nat, 'a kmemst_scheme) outcome" where
  "setupkvm kpdpt s =
     (let (pml4, s) = kalloc s; (pdpt, s) = kalloc s; (pgdir, s) = kalloc s in
      if pml4 = 0 \<or> pdpt = 0 \<or> pgdir = 0 then Fault
      else
        let m = memset pml4 0 PGSIZE (pmem s); m = memset pdpt 0 PGSIZE m; m = memset pgdir 0 PGSIZE m;
            m = store64 (pml4 + 8 * 511) (of_nat (v2p kpdpt) OR PTE_P OR PTE_W OR PTE_U) m;
            m = store64 pml4 (of_nat (v2p pdpt) OR PTE_P OR PTE_W OR PTE_U) m;
            m = store64 pdpt (of_nat (v2p pgdir) OR PTE_P OR PTE_W OR PTE_U) m;
            m = store64 (pgdir + 8 * 511) (of_nat pml4 OR PTE_P) m;
            m = store64 (pgdir + 8 * 510) (of_nat pdpt OR PTE_P) m in
        Ret pgdir (s\<lparr>pmem := m\<rparr>))"

section \<open>User memory\<close>

definition inituvm :: "nat \<Rightarrow> uchar list \<Rightarrow> 'a kmemst_scheme \<Rightarrow> (unit, 'a kmemst_scheme) outcome" where
  "inituvm pgdir init s =
     (if PGSIZE \<le> length init then Panic ''inituvm: more than a page''
      else
        let (mem, s) = kalloc s in
        if mem = 0 then Fault
        else
          let s = s\<lparr>pmem := memset mem 0 PGSIZE (pmem s)\<rparr> in
          obind (mappages pgdir 0 PGSIZE (of_nat (v2p mem)) (PTE_W OR PTE_U) s) (\<lambda>_ s.
          Ret () (s\<lparr>pmem := store_bytes mem init (pmem s)\<rparr>)))"

function loaduvm_from :: "'a fstate_scheme devsw \<Rightarrow> nat \<Rightarrow> nat \<Rightarrow> nat \<Rightarrow> uint \<Rightarrow> nat \<Rightarrow> nat \<Rightarrow> 'a fstate_scheme \<Rightarrow>
    (bool, 'a fstate_scheme) outcome" where
  "loaduvm_from dv pgdir addr ip offset sz i s =
     (if i < sz then
        (case fst (walkpgdir pgdir (addr + i) False (kmem s)) of
           None \<Rightarrow> Panic ''loaduvm: address should exist''
         | Some pte \<Rightarrow>
             let pa = PTE_ADDR (load64 pte (pmem (kmem s))) mod 2 ^ 32; n = min (sz - i) PGSIZE in
             obind (readi dv ip (offset + of_nat i) (of_nat n) s) (\<lambda>r s.
             case r of
               None \<Rightarrow> Ret False s
             | Some bs \<Rightarrow>
                 let s = s\<lparr>kmem := (kmem s)\<lparr>pmem := store_bytes (p2v pa) bs (pmem (kmem s))\<rparr>\<rparr> in
                 if length bs \<noteq> n then Ret False s
                 else loaduvm_from dv pgdir addr ip offset sz (i + PGSIZE) s))
      else Ret True s)"
  by pat_completeness auto
termination
  by (relation "measure (\<lambda>(dv, pgdir, addr, ip, offset, sz, i, s). sz - i)") (auto simp: PGSIZE_def)

declare loaduvm_from.simps [simp del]

definition loaduvm :: "'a fstate_scheme devsw \<Rightarrow> nat \<Rightarrow> nat \<Rightarrow> nat \<Rightarrow> uint \<Rightarrow> nat \<Rightarrow> 'a fstate_scheme \<Rightarrow>
    (bool, 'a fstate_scheme) outcome" where
  "loaduvm dv pgdir addr ip offset sz s =
     (if addr mod PGSIZE \<noteq> 0 then Panic ''loaduvm: addr must be page aligned''
      else loaduvm_from dv pgdir addr ip offset sz 0 s)"

function deallocuvm_from :: "nat \<Rightarrow> nat \<Rightarrow> nat \<Rightarrow> nat \<Rightarrow> 'a kmemst_scheme \<Rightarrow> (unit, 'a kmemst_scheme) outcome" where
  "deallocuvm_from kend pgdir oldsz a s =
     (if a < oldsz then
        (case fst (walkpgdir pgdir a False s) of
           None \<Rightarrow> deallocuvm_from kend pgdir oldsz (a + (NPTENTRIES - 1) * PGSIZE + PGSIZE) s
         | Some pte \<Rightarrow>
             let e = load64 pte (pmem s) in
             if present e then
               let pa = PTE_ADDR e in
               if pa = 0 then Panic ''kfree''
               else
                 obind (kfree kend (p2v pa) s) (\<lambda>_ s.
                 deallocuvm_from kend pgdir oldsz (a + PGSIZE) (s\<lparr>pmem := store64 pte 0 (pmem s)\<rparr>))
             else deallocuvm_from kend pgdir oldsz (a + PGSIZE) s)
      else Ret () s)"
  by pat_completeness auto
termination
  by (relation "measure (\<lambda>(kend, pgdir, oldsz, a, s). oldsz - a)") (auto simp: PGSIZE_def NPTENTRIES_def)

declare deallocuvm_from.simps [simp del]

definition deallocuvm :: "nat \<Rightarrow> nat \<Rightarrow> nat \<Rightarrow> nat \<Rightarrow> 'a kmemst_scheme \<Rightarrow> (nat, 'a kmemst_scheme) outcome" where
  "deallocuvm kend pgdir oldsz newsz s =
     (if oldsz \<le> newsz then Ret oldsz s
      else obind (deallocuvm_from kend pgdir oldsz (PGROUNDUP newsz) s) (\<lambda>_ s. Ret newsz s))"

function allocuvm_from :: "nat \<Rightarrow> nat \<Rightarrow> nat \<Rightarrow> nat \<Rightarrow> nat \<Rightarrow> 'a kmemst_scheme \<Rightarrow> (nat, 'a kmemst_scheme) outcome" where
  "allocuvm_from kend pgdir oldsz newsz a s =
     (if a < newsz then
        let (mem, s) = kalloc s in
        if mem = 0 then obind (deallocuvm kend pgdir newsz oldsz s) (\<lambda>_ s. Ret 0 s)
        else
          obind (mappages pgdir a PGSIZE (of_nat (v2p mem)) (PTE_W OR PTE_U)
            (s\<lparr>pmem := memset mem 0 PGSIZE (pmem s)\<rparr>)) (\<lambda>_ s.
          allocuvm_from kend pgdir oldsz newsz (a + PGSIZE) s)
      else Ret newsz s)"
  by pat_completeness auto
termination
  by (relation "measure (\<lambda>(kend, pgdir, oldsz, newsz, a, s). newsz - a)") (auto simp: PGSIZE_def)

declare allocuvm_from.simps [simp del]

definition allocuvm :: "nat \<Rightarrow> nat \<Rightarrow> nat \<Rightarrow> nat \<Rightarrow> 'a kmemst_scheme \<Rightarrow> (nat, 'a kmemst_scheme) outcome" where
  "allocuvm kend pgdir oldsz newsz s =
     (if newsz < oldsz then Ret oldsz s
      else allocuvm_from kend pgdir oldsz newsz (PGROUNDUP oldsz) s)"

definition freevm_entry :: "nat \<Rightarrow> nat \<Rightarrow> nat \<Rightarrow> 'a kmemst_scheme \<Rightarrow> (unit, 'a kmemst_scheme) outcome" where
  "freevm_entry kend pgdir i s =
     (let e = load64 (pgdir + 8 * i) (pmem s) in
      if present e then kfree kend (p2v (PTE_ADDR e)) s else Ret () s)"

definition freevm :: "nat \<Rightarrow> nat \<Rightarrow> 'a kmemst_scheme \<Rightarrow> (unit, 'a kmemst_scheme) outcome" where
  "freevm kend pgdir s =
     (if pgdir = 0 then Panic ''freevm: no pgdir''
      else
        obind (deallocuvm kend pgdir 0x3fa00000 0 s) (\<lambda>_ s.
        obind (ofor [0..<NPDENTRIES - 2] (freevm_entry kend pgdir) s) (\<lambda>_ s.
        kfree kend pgdir s)))"

definition clearpteu :: "nat \<Rightarrow> nat \<Rightarrow> 'a kmemst_scheme \<Rightarrow> (unit, 'a kmemst_scheme) outcome" where
  "clearpteu pgdir uva s =
     (case fst (walkpgdir pgdir uva False s) of
        None \<Rightarrow> Panic ''clearpteu''
      | Some pte \<Rightarrow>
          Ret () (s\<lparr>pmem := store64 pte (load64 pte (pmem s) AND NOT PTE_U) (pmem s)\<rparr>))"

text \<open>
  The loop of \<open>copyuvm\<close>; \<open>None\<close> is the jump to \<open>bad\<close>.
\<close>

function copyuvm_from :: "nat \<Rightarrow> nat \<Rightarrow> nat \<Rightarrow> nat \<Rightarrow> 'a kmemst_scheme \<Rightarrow> (bool, 'a kmemst_scheme) outcome" where
  "copyuvm_from pgdir d sz i s =
     (if i < sz then
        (case fst (walkpgdir pgdir i False s) of
           None \<Rightarrow> Panic ''copyuvm: pte should exist''
         | Some pte \<Rightarrow>
             let e = load64 pte (pmem s) in
             if \<not> present e then Panic ''copyuvm: page not present''
             else
               let pa = PTE_ADDR e; flags = PTE_FLAGS e; (mem, s) = kalloc s in
               if mem = 0 then Ret False s
               else
                 obind (mappages d i PGSIZE (of_nat (v2p mem)) flags
                   (s\<lparr>pmem := memmove mem (p2v pa) PGSIZE (pmem s)\<rparr>)) (\<lambda>ok s.
                 if ok then copyuvm_from pgdir d sz (i + PGSIZE) s else Ret False s))
      else Ret True s)"
  by pat_completeness auto
termination
  by (relation "measure (\<lambda>(pgdir, d, sz, i, s). sz - i)") (auto simp: PGSIZE_def)

declare copyuvm_from.simps [simp del]

definition copyuvm :: "nat \<Rightarrow> nat \<Rightarrow> nat \<Rightarrow> nat \<Rightarrow> 'a kmemst_scheme \<Rightarrow> (nat, 'a kmemst_scheme) outcome" where
  "copyuvm kend kpdpt pgdir sz s =
     obind (setupkvm kpdpt s) (\<lambda>d s.
     if d = 0 then Ret 0 s
     else
       obind (copyuvm_from pgdir d sz 0 s) (\<lambda>ok s.
       if ok then Ret d s else obind (freevm kend d s) (\<lambda>_ s. Ret 0 s)))"

definition uva2ka :: "nat \<Rightarrow> nat \<Rightarrow> 'a kmemst_scheme \<Rightarrow> (nat, 'a kmemst_scheme) outcome" where
  "uva2ka pgdir uva s =
     (case fst (walkpgdir pgdir uva False s) of
        None \<Rightarrow> Fault
      | Some pte \<Rightarrow>
          let e = load64 pte (pmem s) in
          if \<not> present e then Ret 0 s
          else if e AND PTE_U = 0 then Ret 0 s
          else Ret (p2v (PTE_ADDR e)) s)"

function copyout :: "nat \<Rightarrow> nat \<Rightarrow> uchar list \<Rightarrow> 'a kmemst_scheme \<Rightarrow> (bool, 'a kmemst_scheme) outcome" where
  "copyout pgdir va buf s =
     (if buf \<noteq> [] then
        let va0 = PGROUNDDOWN va mod 2 ^ 32; n = min (PGSIZE - va mod PGSIZE) (length buf) in
        obind (uva2ka pgdir va0 s) (\<lambda>pa0 s.
        if pa0 = 0 then Ret False s
        else copyout pgdir ((va0 + PGSIZE) mod 2 ^ 32) (drop n buf)
          (s\<lparr>pmem := store_bytes (pa0 + va mod PGSIZE) (take n buf) (pmem s)\<rparr>))
      else Ret True s)"
  by pat_completeness auto
termination
proof (relation "measure (\<lambda>(pgdir, va, buf, s). length buf)")
  fix pgdir va va0 n pa0 and buf :: "uchar list" and s xa :: "'a kmemst_scheme"
  assume "buf \<noteq> []" "n = min (PGSIZE - va mod PGSIZE) (length buf)"
  moreover have "0 < PGSIZE - va mod PGSIZE" by (simp add: PGSIZE_def)
  ultimately have "0 < n" "n \<le> length buf" by auto
  then show "((pgdir, (va0 + PGSIZE) mod 2 ^ 32, drop n buf,
      xa\<lparr>pmem := store_bytes (pa0 + va mod PGSIZE) (take n buf) (pmem xa)\<rparr>), pgdir, va, buf, s)
      \<in> measure (\<lambda>(pgdir, va, buf, s). length buf)" by auto
qed simp

declare copyout.simps [simp del]

end
