(* ===== verification/VM_Map.thy ===== *)
theory VM_Map
  imports VM
begin

text \<open>
  Correctness of the page-table code of \<open>VM\<close>: the address map a page directory denotes, the
  invariant that keeps page tables, user pages and free pages apart, and what
  \<open>walkpgdir\<close>, \<open>mappages\<close>, \<open>allocuvm\<close> and \<open>copyout\<close> do to the map and to user memory.
\<close>

section \<open>Entries\<close>

lemma page_ok_kern:
  assumes "page_ok kend v"
  shows "KERNBASE \<le> v" "v2p v = v - KERNBASE" "p2v (v2p v) = v"
proof -
  have v: "v < 2 ^ 64" "v2p v < PHYSTOP" using assms by (simp_all add: page_ok_def)
  show k: "KERNBASE \<le> v"
  proof (rule ccontr)
    assume "\<not> KERNBASE \<le> v"
    then have "v + (2 ^ 64 - KERNBASE) < 2 ^ 64" by (simp add: KERNBASE_def)
    then have "v2p v = v + (2 ^ 64 - KERNBASE)" unfolding v2p_def by (rule mod_less)
    then show False using v(2) by (simp add: KERNBASE_def PHYSTOP_def)
  qed
  then show 2: "v2p v = v - KERNBASE" using v by (intro v2p_kern)
  show "p2v (v2p v) = v" using k v(1) unfolding 2 p2v_def by simp
qed

lemma v2p_aligned: "page_ok kend v \<Longrightarrow> v2p v mod PGSIZE = 0"
proof -
  assume v: "page_ok kend v"
  have "KERNBASE mod PGSIZE = 0" "v mod PGSIZE = 0"
    using v by (simp_all add: KERNBASE_def PGSIZE_def page_ok_def)
  then show ?thesis using page_ok_kern(1,2)[OF v] by (simp add: mod_eq_0_iff_dvd)
qed

text \<open>Flag words: only bits below 12.\<close>

definition flagword :: "uintp \<Rightarrow> bool" where
  "flagword f \<longleftrightarrow> f AND NOT (mask 12) = 0"

lemma bit_flagword: "flagword f \<Longrightarrow> bit f k \<Longrightarrow> k < 12"
proof (rule ccontr)
  assume f: "flagword f" "bit f k" "\<not> k < 12"
  then have "bit (f AND NOT (mask 12)) k"
    using bit_imp_le_length[OF f(2)] by (simp add: bit_simps)
  with f(1) show False by (simp add: flagword_def)
qed

lemma flagword_or: "flagword f \<Longrightarrow> flagword g \<Longrightarrow> flagword (f OR g)"
  by (simp add: flagword_def bit.conj_disj_distrib2)

lemma flagword_consts [simp]: "flagword PTE_P" "flagword PTE_W" "flagword PTE_U"
  by (simp_all add: flagword_def PTE_P_def PTE_W_def PTE_U_def mask_eq_exp_minus_1)

lemma aligned_bit:
  assumes "p mod PGSIZE = 0" "bit p k"
  shows "12 \<le> k"
proof (rule ccontr)
  assume "\<not> 12 \<le> k"
  note assms(2)
  moreover have "p = push_bit 12 (drop_bit 12 p)"
    using assms(1) by (simp add: push_bit_eq_mult drop_bit_eq_div PGSIZE_def dvd_div_mult_self mod_eq_0_iff_dvd)
  ultimately show False using \<open>\<not> 12 \<le> k\<close> by (metis bit_push_bit_iff_nat)
qed

lemma PTE_ADDR_or:
  assumes "p mod PGSIZE = 0" "p < 2 ^ 64" "flagword f"
  shows "PTE_ADDR (of_nat p OR f) = p"
proof -
  have "(of_nat p OR f) AND NOT (mask 12) = (of_nat p :: uintp)"
  proof (rule bit_word_eqI)
    fix n assume "n < LENGTH(64)"
    moreover have "bit p n \<Longrightarrow> \<not> n < 12" using aligned_bit[OF assms(1)] by (meson not_le)
    moreover have "bit f n \<Longrightarrow> n < 12" using bit_flagword[OF assms(3)] .
    ultimately show "bit ((of_nat p OR f) AND NOT (mask 12)) n = bit (of_nat p :: uintp) n"
      by (auto simp: bit_simps)
  qed
  moreover have "unat (of_nat p :: uintp) = p"
    using assms(2) by (simp add: unat_of_nat take_bit_nat_eq_self)
  ultimately show ?thesis by (simp add: PTE_ADDR_def)
qed

lemma present_or [simp]: "present (x OR PTE_P)"
proof -
  have "bit ((x OR PTE_P) AND PTE_P) 0" by (simp add: bit_simps PTE_P_def)
  then show ?thesis by (cases "(x OR PTE_P) AND PTE_P = 0") simp_all
qed

lemma not_present_0 [simp]: "\<not> present 0" by simp

section \<open>Pages of memory\<close>

definition same_page :: "mem \<Rightarrow> mem \<Rightarrow> nat \<Rightarrow> bool" where
  "same_page m m' p \<longleftrightarrow> (\<forall>x. p \<le> x \<and> x < p + PGSIZE \<longrightarrow> m' x = m x)"

lemma same_page_refl [simp]: "same_page m m p"
  by (simp add: same_page_def)

lemma same_page_trans: "same_page m m' p \<Longrightarrow> same_page m' m'' p \<Longrightarrow> same_page m m'' p"
  by (simp add: same_page_def)

lemma load64_page: "same_page m m' p \<Longrightarrow> i < 512 \<Longrightarrow> load64 (p + 8 * i) m' = load64 (p + 8 * i) m"
  by (rule load64_cong) (simp add: same_page_def PGSIZE_def)

lemma load64_page0: "same_page m m' p \<Longrightarrow> load64 p m' = load64 p m"
  using load64_page[of m m' p 0] by simp

lemma store_other_page:
  "PGSIZE dvd p \<Longrightarrow> PGSIZE dvd q \<Longrightarrow> p \<noteq> q \<Longrightarrow> j < 512 \<Longrightarrow> same_page m (store64 (p + 8 * j) w m) q"
  using pages_apart[of p q] by (auto simp: same_page_def store64_def store_bytes_def PGSIZE_def)

lemma memset_other_page:
  "PGSIZE dvd p \<Longrightarrow> PGSIZE dvd q \<Longrightarrow> p \<noteq> q \<Longrightarrow> same_page m (memset p c PGSIZE m) q"
  using pages_apart[of p q] by (auto simp: same_page_def memset_fill)

lemma store_bytes_other_page:
  "PGSIZE dvd p \<Longrightarrow> PGSIZE dvd q \<Longrightarrow> p \<noteq> q \<Longrightarrow> o' + length bs \<le> PGSIZE \<Longrightarrow> same_page m (store_bytes (p + o') bs m) q"
  using pages_apart[of p q] by (auto simp: same_page_def store_bytes_def)

lemma load64_store64_entry: "load64 (p + 8 * k) (store64 (p + 8 * j) w m) = (if k = j then w else load64 (p + 8 * k) m)"
proof (cases "k = j")
  case False
  then have "p + 8 * k + 8 \<le> p + 8 * j \<or> p + 8 * j + 8 \<le> p + 8 * k" by linarith
  then show ?thesis using False by (simp add: load64_store64_other)
qed simp

lemma kinv_frame:
  assumes "kinv kend fs s" "\<And>p. p \<in> set fs \<Longrightarrow> same_page (pmem s) m p"
  shows "kinv kend fs (s\<lparr>pmem := m\<rparr>)"
proof -
  have "chain m (freelist s) fs = chain (pmem s) (freelist s) fs"
    by (rule chain_cong) (simp add: load64_page0 assms(2))
  then show ?thesis using assms(1) by (simp add: kinv_def)
qed

section \<open>The address map of a page directory\<close>

definition pde :: "mem \<Rightarrow> nat \<Rightarrow> nat \<Rightarrow> uintp" where
  "pde m d i = load64 (d + 8 * i) m"

definition tab :: "mem \<Rightarrow> nat \<Rightarrow> nat \<Rightarrow> nat" where
  "tab m d i = p2v (PTE_ADDR (pde m d i))"

definition lk :: "mem \<Rightarrow> nat \<Rightarrow> nat \<Rightarrow> uintp" where
  "lk m d va = (if present (pde m d (PDX va)) then load64 (tab m d (PDX va) + 8 * PTX va) m else 0)"

definition uva :: "nat \<Rightarrow> bool" where
  "uva va \<longleftrightarrow> va < 510 * 2 ^ 21"

text \<open>Page tables are proper pages, apart from each other, the directory and the free pages.\<close>

definition pt_ok :: "nat \<Rightarrow> nat list \<Rightarrow> nat \<Rightarrow> mem \<Rightarrow> bool" where
  "pt_ok kend fs d m \<longleftrightarrow>
     page_ok kend d \<and> d \<notin> set fs
     \<and> (\<forall>i < 510. present (pde m d i) \<longrightarrow> page_ok kend (tab m d i) \<and> tab m d i \<notin> set fs \<and> tab m d i \<noteq> d)
     \<and> (\<forall>i < 510. \<forall>j < 510. present (pde m d i) \<longrightarrow> present (pde m d j) \<longrightarrow> tab m d i = tab m d j \<longrightarrow> i = j)"

definition frame :: "mem \<Rightarrow> nat \<Rightarrow> nat \<Rightarrow> nat" where
  "frame m d va = p2v (PTE_ADDR (lk m d va))"

text \<open>A page that is neither free nor the directory nor a page table.\<close>

definition loose :: "nat \<Rightarrow> nat list \<Rightarrow> nat \<Rightarrow> mem \<Rightarrow> nat \<Rightarrow> bool" where
  "loose kend fs d m q \<longleftrightarrow> page_ok kend q \<and> q \<notin> set fs \<and> q \<noteq> d \<and>
     (\<forall>i < 510. present (pde m d i) \<longrightarrow> tab m d i \<noteq> q)"

definition up_ok :: "nat \<Rightarrow> nat list \<Rightarrow> nat \<Rightarrow> mem \<Rightarrow> bool" where
  "up_ok kend fs d m \<longleftrightarrow>
     (\<forall>va. uva va \<longrightarrow> present (lk m d va) \<longrightarrow> loose kend fs d m (frame m d va))
     \<and> (\<forall>a b. uva a \<longrightarrow> uva b \<longrightarrow> present (lk m d a) \<longrightarrow> present (lk m d b) \<longrightarrow>
          frame m d a = frame m d b \<longrightarrow> a div PGSIZE = b div PGSIZE)"

definition vm_ok :: "nat \<Rightarrow> nat list \<Rightarrow> nat \<Rightarrow> 'a kmemst_scheme \<Rightarrow> bool" where
  "vm_ok kend fs d s \<longleftrightarrow> kinv kend fs s \<and> pt_ok kend fs d (pmem s) \<and> up_ok kend fs d (pmem s)"

lemma PDX_PTX_less [simp]: "PDX va < 512" "PTX va < 512"
  by (simp_all add: PDX_def PTX_def)

lemma uva_PDX: "uva va \<Longrightarrow> PDX va < 510 \<and> PDX va = va div PGSIZE div 512"
proof -
  assume "uva va"
  then have "va div 2 ^ 21 < 510" by (simp add: uva_def div_less_iff_less_mult)
  moreover have "va div PGSIZE div 512 = va div 2 ^ 21" by (simp add: PGSIZE_def flip: div_mult2_eq)
  ultimately show ?thesis by (simp add: PDX_def)
qed

lemma PTX_page: "PTX va = va div PGSIZE mod 512"
  by (simp add: PTX_def PGSIZE_def)

lemma same_entry:
  assumes "uva a" "uva b"
  shows "PDX a = PDX b \<and> PTX a = PTX b \<longleftrightarrow> a div PGSIZE = b div PGSIZE"
proof
  assume "PDX a = PDX b \<and> PTX a = PTX b"
  then have "a div PGSIZE div 512 = b div PGSIZE div 512" "a div PGSIZE mod 512 = b div PGSIZE mod 512"
    using uva_PDX[OF assms(1)] uva_PDX[OF assms(2)] by (simp_all add: PTX_page)
  then show "a div PGSIZE = b div PGSIZE" by (metis div_mult_mod_eq)
next
  assume "a div PGSIZE = b div PGSIZE"
  then show "PDX a = PDX b \<and> PTX a = PTX b"
    using uva_PDX[OF assms(1)] uva_PDX[OF assms(2)] by (simp add: PTX_page)
qed

lemma pt_okD:
  assumes "pt_ok kend fs d m"
  shows "page_ok kend d" "d \<notin> set fs" "PGSIZE dvd d"
    and "i < 510 \<Longrightarrow> present (pde m d i) \<Longrightarrow> page_ok kend (tab m d i) \<and> tab m d i \<notin> set fs \<and> tab m d i \<noteq> d"
    and "i < 510 \<Longrightarrow> present (pde m d i) \<Longrightarrow> PGSIZE dvd tab m d i"
    and "i < 510 \<Longrightarrow> j < 510 \<Longrightarrow> present (pde m d i) \<Longrightarrow> present (pde m d j) \<Longrightarrow> tab m d i = tab m d j \<Longrightarrow> i = j"
  using assms page_okD(1) unfolding pt_ok_def by blast+

lemma looseD:
  assumes "loose kend fs d m q"
  shows "page_ok kend q" "q \<notin> set fs" "q \<noteq> d" "PGSIZE dvd q"
    "i < 510 \<Longrightarrow> present (pde m d i) \<Longrightarrow> tab m d i \<noteq> q"
  using assms page_okD(1) unfolding loose_def by blast+

text \<open>Memory that changes outside the directory and the tables has the same map.\<close>

lemma map_frame:
  assumes "same_page m m' d" "\<And>i. i < 510 \<Longrightarrow> present (pde m d i) \<Longrightarrow> same_page m m' (tab m d i)"
  shows "i < 512 \<Longrightarrow> pde m' d i = pde m d i" "i < 512 \<Longrightarrow> tab m' d i = tab m d i"
    "uva va \<Longrightarrow> lk m' d va = lk m d va"
proof -
  show p: "i < 512 \<Longrightarrow> pde m' d i = pde m d i" for i
    unfolding pde_def by (rule load64_page[OF assms(1)])
  then show t: "i < 512 \<Longrightarrow> tab m' d i = tab m d i" for i by (simp add: tab_def)
  assume "uva va"
  then have i: "PDX va < 510" using uva_PDX by blast
  show "lk m' d va = lk m d va"
    unfolding lk_def using p[of "PDX va"] t[of "PDX va"] load64_page[OF assms(2)[OF i]] by simp
qed

text \<open>Writing one entry of a page table.\<close>

lemma set_pte:
  fixes m d va w
  defines "m' \<equiv> store64 (tab m d (PDX va) + 8 * PTX va) w m"
  assumes ok: "pt_ok kend fs d m" and va: "uva va" "present (pde m d (PDX va))"
  shows "i < 512 \<Longrightarrow> pde m' d i = pde m d i" "i < 512 \<Longrightarrow> tab m' d i = tab m d i"
    "uva x \<Longrightarrow> lk m' d x = (if x div PGSIZE = va div PGSIZE then w else lk m d x)"
    "PGSIZE dvd q \<Longrightarrow> q \<noteq> tab m d (PDX va) \<Longrightarrow> same_page m m' q"
proof -
  have i: "PDX va < 510" using uva_PDX[OF va(1)] by simp
  note T = pt_okD(4,5)[OF ok i va(2)]
  show sp: "PGSIZE dvd q \<Longrightarrow> q \<noteq> tab m d (PDX va) \<Longrightarrow> same_page m m' q" for q
    unfolding m'_def using T by (intro store_other_page) auto
  have "same_page m m' d" using T by (intro sp pt_okD(3)[OF ok]) auto
  then show p: "i < 512 \<Longrightarrow> pde m' d i = pde m d i" for i
    unfolding pde_def by (rule load64_page)
  then show t: "i < 512 \<Longrightarrow> tab m' d i = tab m d i" for i by (simp add: tab_def)
  assume x: "uva x"
  have j: "PDX x < 510" using uva_PDX[OF x] by simp
  show "lk m' d x = (if x div PGSIZE = va div PGSIZE then w else lk m d x)"
  proof (cases "present (pde m d (PDX x))")
    case True
    have "load64 (tab m d (PDX x) + 8 * PTX x) m' =
        (if PDX x = PDX va \<and> PTX x = PTX va then w else load64 (tab m d (PDX x) + 8 * PTX x) m)"
    proof (cases "PDX x = PDX va")
      case True
      then show ?thesis unfolding m'_def by (simp add: load64_store64_entry)
    next
      case False
      then have "tab m d (PDX x) \<noteq> tab m d (PDX va)" using pt_okD(6)[OF ok j i True va(2)] by blast
      then show ?thesis using False load64_page[OF sp[OF pt_okD(5)[OF ok j True]]] by simp
    qed
    then show ?thesis using True same_entry[OF x va(1)] p[of "PDX x"] t[of "PDX x"] by (simp add: lk_def)
  next
    case False
    then have "PDX x \<noteq> PDX va" using va(2) by auto
    then have "x div PGSIZE \<noteq> va div PGSIZE" using same_entry[OF x va(1)] by blast
    then show ?thesis using False p[of "PDX x"] by (simp add: lk_def)
  qed
qed

section \<open>Walking with allocation\<close>

lemma present_or3 [simp]: "present (x OR PTE_P OR y)"
  using present_or[of "x OR y"] by (simp add: or.assoc or.commute or.left_commute)

lemma walk_present:
  "present (pde (pmem s) d (PDX va)) \<Longrightarrow>
   walkpgdir d va al s = (Some (tab (pmem s) d (PDX va) + 8 * PTX va), s)"
  by (simp add: walkpgdir_def pde_def tab_def Let_def)

lemma walk_none: "\<not> present (pde (pmem s) d (PDX va)) \<Longrightarrow> walkpgdir d va False s = (None, s)"
  by (simp add: walkpgdir_def pde_def Let_def)

text \<open>Linking a fresh, zeroed page table leaves the map as it was.\<close>

lemma link_table:
  fixes d p va m
  defines "m' \<equiv> store64 (d + 8 * PDX va) (of_nat (v2p p) OR PTE_P OR PTE_W OR PTE_U) (memset p 0 PGSIZE m)"
  assumes ok: "pt_ok kend (p # ps) d m" and p: "page_ok kend p" "p \<notin> set ps"
    and va: "uva va" "\<not> present (pde m d (PDX va))"
  shows "i < 512 \<Longrightarrow> pde m' d i = (if i = PDX va then of_nat (v2p p) OR PTE_P OR PTE_W OR PTE_U else pde m d i)"
    "tab m' d (PDX va) = p" "present (pde m' d (PDX va))"
    "uva x \<Longrightarrow> lk m' d x = lk m d x"
    "PGSIZE dvd q \<Longrightarrow> q \<noteq> p \<Longrightarrow> q \<noteq> d \<Longrightarrow> same_page m m' q"
    "pt_ok kend ps d m'"
proof -
  let ?e = "of_nat (v2p p) OR PTE_P OR PTE_W OR PTE_U :: uintp"
  have d: "PGSIZE dvd d" "p \<noteq> d" "page_ok kend d" "d \<notin> set ps" using pt_okD[OF ok] by auto
  have pd: "PGSIZE dvd p" using page_okD(1)[OF p(1)] .
  have i0: "PDX va < 510" using uva_PDX[OF va(1)] by simp
  show sp: "PGSIZE dvd q \<Longrightarrow> q \<noteq> p \<Longrightarrow> q \<noteq> d \<Longrightarrow> same_page m m' q" for q
    unfolding m'_def using d pd
    by (intro same_page_trans[OF memset_other_page store_other_page]) auto
  show P: "i < 512 \<Longrightarrow> pde m' d i = (if i = PDX va then ?e else pde m d i)" for i
    unfolding m'_def pde_def load64_store64_entry
    using load64_page[OF memset_other_page[OF pd d(1) d(2)]] by simp
  have "v2p p < 2 ^ 64" unfolding v2p_def by (rule mod_less_divisor) simp
  then have "PTE_ADDR (of_nat (v2p p) OR (PTE_P OR PTE_W OR PTE_U)) = v2p p"
    by (intro PTE_ADDR_or v2p_aligned[OF p(1)] flagword_or flagword_consts)
  then show T: "tab m' d (PDX va) = p"
    using P[of "PDX va"] page_ok_kern(3)[OF p(1)] by (simp add: tab_def)
  show pr: "present (pde m' d (PDX va))" using P[of "PDX va"] present_or3 by simp
  have tabs: "i < 510 \<Longrightarrow> i \<noteq> PDX va \<Longrightarrow> tab m' d i = tab m d i \<and> pde m' d i = pde m d i" for i
    using P[of i] by (simp add: tab_def)
  show "uva x \<Longrightarrow> lk m' d x = lk m d x"
  proof (cases "PDX x = PDX va")
    case True
    have "load64 (p + 8 * PTX x) m' = load64 (p + 8 * PTX x) (memset p 0 PGSIZE m)"
      unfolding m'_def using d pd by (intro load64_page[OF store_other_page]) auto
    also have "\<dots> = 0"
    proof (rule load64_memset_zero)
      show "p + 8 * PTX x + 8 \<le> p + PGSIZE"
        using Suc_leI[OF PDX_PTX_less(2)[of x]] by (simp add: PGSIZE_def)
    qed simp
    finally show ?thesis using True va(2) T pr by (simp add: lk_def)
  next
    case False
    assume "uva x"
    then have j: "PDX x < 510" using uva_PDX by blast
    show ?thesis
    proof (cases "present (pde m d (PDX x))")
      case True
      note q = pt_okD(4,5)[OF ok j True]
      have "load64 (tab m d (PDX x) + 8 * PTX x) m' = load64 (tab m d (PDX x) + 8 * PTX x) m"
        using q by (intro load64_page sp) auto
      then show ?thesis using True tabs[OF j False] by (simp add: lk_def)
    qed (use tabs[OF j False] in \<open>simp add: lk_def\<close>)
  qed
  have "i < 510 \<Longrightarrow> present (pde m' d i) \<Longrightarrow> page_ok kend (tab m' d i) \<and> tab m' d i \<notin> set ps \<and> tab m' d i \<noteq> d" for i
    using T tabs[of i] pt_okD(4)[OF ok, of i] p d by (cases "i = PDX va") auto
  moreover have "i = j" if ij: "i < 510" "j < 510" "present (pde m' d i)" "present (pde m' d j)" "tab m' d i = tab m' d j" for i j
  proof (rule ccontr)
    assume ne: "i \<noteq> j"
    have old: "tab m d k \<noteq> p \<and> present (pde m d k)" if "k < 510" "k \<noteq> PDX va" "present (pde m' d k)" for k
      using that tabs[of k] pt_okD(4)[OF ok that(1)] by auto
    consider "i = PDX va" "j \<noteq> PDX va" | "j = PDX va" "i \<noteq> PDX va" | "i \<noteq> PDX va" "j \<noteq> PDX va"
      using ne by blast
    then show False
    proof cases
      case 1
      then show ?thesis using old[of j] tabs[of j] ij T by metis
    next
      case 2
      then show ?thesis using old[of i] tabs[of i] ij T by metis
    next
      case 3
      then show ?thesis using old[of i] old[of j] tabs[of i] tabs[of j] ij ne pt_okD(6)[OF ok ij(1,2)] by metis
    qed
  qed
  ultimately show "pt_ok kend ps d m'" unfolding pt_ok_def using d by blast
qed

lemma walk_alloc:
  assumes ok: "vm_ok kend (p # ps) d s" and va: "uva va" "\<not> present (pde (pmem s) d (PDX va))"
  obtains t where "walkpgdir d va True s = (Some (p + 8 * PTX va), t)" "vm_ok kend ps d t"
    "present (pde (pmem t) d (PDX va))" "tab (pmem t) d (PDX va) = p"
    "\<And>x. uva x \<Longrightarrow> lk (pmem t) d x = lk (pmem s) d x"
    "\<And>q. loose kend (p # ps) d (pmem s) q \<Longrightarrow> same_page (pmem s) (pmem t) q \<and> loose kend ps d (pmem t) q"
    "kmemst.more t = kmemst.more s"
proof -
  have k: "kinv kend (p # ps) s" and pt: "pt_ok kend (p # ps) d (pmem s)" and up: "up_ok kend (p # ps) d (pmem s)"
    using ok by (simp_all add: vm_ok_def)
  have P: "page_ok kend p" "p \<notin> set ps" "p \<noteq> 0" "\<forall>q \<in> set ps. page_ok kend q" using ka.inv_ok[OF k] by auto
  define k' where "k' = s\<lparr>freelist := freelist (snd (kalloc s))\<rparr>"
  have e: "kalloc s = (p, k')" "kinv kend ps (snd (kalloc s))"
    using kalloc_page[OF k] unfolding k'_def by blast+
  have sel: "pmem k' = pmem s" "kmemst.more k' = kmemst.more s" by (simp_all add: k'_def)
  have "kinv kend ps k'" using e(2) unfolding e(1) by simp
  note k' = e(1) sel(1) this sel(2)
  let ?m = "store64 (d + 8 * PDX va) (of_nat (v2p p) OR PTE_P OR PTE_W OR PTE_U) (memset p 0 PGSIZE (pmem s))"
  let ?t = "k'\<lparr>pmem := ?m\<rparr>"
  note L = link_table[OF pt P(1,2) va]
  have w: "walkpgdir d va True s = (Some (p + 8 * PTX va), ?t)"
    using va(2) P(3) k'(1,2) by (simp add: walkpgdir_def pde_def Let_def)
  have kin: "kinv kend ps ?t"
  proof (rule kinv_frame[OF k'(3)])
    fix q assume q: "q \<in> set ps"
    then show "same_page (pmem k') ?m q"
      unfolding k'(2) using P pt_okD(2)[OF pt] by (intro L(5) page_okD(1)[of kend]) auto
  qed
  have loose: "same_page (pmem s) ?m q \<and> loose kend ps d ?m q" if q: "loose kend (p # ps) d (pmem s) q" for q
  proof
    show "same_page (pmem s) ?m q" using looseD[OF q] by (intro L(5)) auto
    have "tab ?m d i \<noteq> q" if "i < 510" "present (pde ?m d i)" for i
      using that L(1)[of i] L(2) looseD(2)[OF q] looseD(5)[OF q, of i]
      by (cases "i = PDX va") (auto simp: tab_def)
    then show "loose kend ps d ?m q" using looseD[OF q] by (auto simp: loose_def)
  qed
  have fr: "uva x \<Longrightarrow> frame ?m d x = frame (pmem s) d x" for x by (simp add: frame_def L(4))
  have "up_ok kend ps d ?m"
    unfolding up_ok_def
  proof (intro conjI allI impI)
    show "loose kend ps d ?m (frame ?m d x)" if "uva x" "present (lk ?m d x)" for x
    proof -
      have "loose kend (p # ps) d (pmem s) (frame (pmem s) d x)"
        using up that by (simp add: up_ok_def L(4))
      then show ?thesis using loose that(1) by (simp add: fr)
    qed
    show "a div PGSIZE = b div PGSIZE"
      if "uva a" "uva b" "present (lk ?m d a)" "present (lk ?m d b)" "frame ?m d a = frame ?m d b" for a b
      using up that unfolding up_ok_def by (metis L(4) fr)
  qed
  then have "vm_ok kend ps d ?t" using kin L(6) by (simp add: vm_ok_def)
  then show thesis using that[OF w] L(2-4) loose k'(4) by simp
qed

section \<open>Mapping one page\<close>

definition unmapped :: "mem \<Rightarrow> nat \<Rightarrow> nat \<Rightarrow> bool" where
  "unmapped m d f \<longleftrightarrow> (\<forall>x. uva x \<longrightarrow> present (lk m d x) \<longrightarrow> frame m d x \<noteq> f)"

lemma set_pte_vm:
  assumes ok: "vm_ok kend fs d s" and va: "uva va" "present (pde (pmem s) d (PDX va))"
    and f: "loose kend fs d (pmem s) f" "unmapped (pmem s) d f"
    and w: "PTE_ADDR w = v2p f"
    and m': "m' = store64 (tab (pmem s) d (PDX va) + 8 * PTX va) w (pmem s)"
  shows "vm_ok kend fs d (s\<lparr>pmem := m'\<rparr>)"
    "uva x \<Longrightarrow> lk m' d x = (if x div PGSIZE = va div PGSIZE then w else lk (pmem s) d x)"
    "loose kend fs d (pmem s) q \<Longrightarrow> same_page (pmem s) m' q \<and> loose kend fs d m' q"
proof -
  have k: "kinv kend fs s" and pt: "pt_ok kend fs d (pmem s)" and up: "up_ok kend fs d (pmem s)"
    using ok by (simp_all add: vm_ok_def)
  have i: "PDX va < 510" using uva_PDX[OF va(1)] by simp
  note S1 = set_pte(1)[OF pt va, of _ w, folded m'] and S4 = set_pte(4)[OF pt va, of _ w, folded m']
    and T = pt_okD(4)[OF pt i va(2)]
  show L: "uva x \<Longrightarrow> lk m' d x = (if x div PGSIZE = va div PGSIZE then w else lk (pmem s) d x)" for x
    using set_pte(3)[OF pt va, of x w, folded m'] .
  have tabs: "j < 510 \<Longrightarrow> tab m' d j = tab (pmem s) d j \<and> pde m' d j = pde (pmem s) d j" for j
    using S1[of j] set_pte(2)[OF pt va, of j w, folded m'] by simp
  show loose: "loose kend fs d (pmem s) q \<Longrightarrow> same_page (pmem s) m' q \<and> loose kend fs d m' q" for q
  proof -
    assume q: "loose kend fs d (pmem s) q"
    have "same_page (pmem s) m' q" by (rule S4[OF looseD(4)[OF q]]) (rule looseD(5)[OF q i va(2), symmetric])
    moreover have "loose kend fs d m' q" using q tabs by (simp add: loose_def)
    ultimately show ?thesis ..
  qed
  have "kinv kend fs (s\<lparr>pmem := m'\<rparr>)"
  proof (rule kinv_frame[OF k])
    fix p assume "p \<in> set fs"
    then have "page_ok kend p" "p \<noteq> tab (pmem s) d (PDX va)" using ka.inv_ok[OF k] T by blast+
    then show "same_page (pmem s) m' p" using page_okD(1) by (intro S4)
  qed
  moreover have "pt_ok kend fs d m'" using pt tabs by (simp add: pt_ok_def)
  moreover have fr: "frame m' d x = (if x div PGSIZE = va div PGSIZE then f else frame (pmem s) d x)" if "uva x" for x
    using L[OF that] w page_ok_kern(3)[OF looseD(1)[OF f(1)]] by (simp add: frame_def)
  have "up_ok kend fs d m'"
    unfolding up_ok_def
  proof (intro conjI allI impI)
    show "loose kend fs d m' (frame m' d x)" if x: "uva x" "present (lk m' d x)" for x
    proof (cases "x div PGSIZE = va div PGSIZE")
      case True
      then show ?thesis using fr[OF x(1)] loose[OF f(1)] by simp
    next
      case False
      then have "present (lk (pmem s) d x)" using x L[of x] by simp
      then have "loose kend fs d (pmem s) (frame (pmem s) d x)" using up x(1) unfolding up_ok_def by blast
      from loose[OF this] show ?thesis using fr[OF x(1)] False by simp
    qed
    show "a div PGSIZE = b div PGSIZE"
      if ab: "uva a" "uva b" "present (lk m' d a)" "present (lk m' d b)" "frame m' d a = frame m' d b" for a b
    proof -
      have old: "present (lk (pmem s) d x)" if "uva x" "present (lk m' d x)" "x div PGSIZE \<noteq> va div PGSIZE" for x
        using that L[of x] by simp
      consider "a div PGSIZE = va div PGSIZE" "b div PGSIZE = va div PGSIZE"
        | "a div PGSIZE = va div PGSIZE" "b div PGSIZE \<noteq> va div PGSIZE"
        | "a div PGSIZE \<noteq> va div PGSIZE" "b div PGSIZE = va div PGSIZE"
        | "a div PGSIZE \<noteq> va div PGSIZE" "b div PGSIZE \<noteq> va div PGSIZE" by blast
      then show ?thesis
      proof cases
        case 2
        then have "frame (pmem s) d b = f" using ab fr[OF ab(1)] fr[OF ab(2)] by simp
        then show ?thesis using f(2) ab(2) old[OF ab(2,4) 2(2)] unfolding unmapped_def by blast
      next
        case 3
        then have "frame (pmem s) d a = f" using ab fr[OF ab(1)] fr[OF ab(2)] by simp
        then show ?thesis using f(2) ab(1) old[OF ab(1,3) 3(1)] unfolding unmapped_def by blast
      next
        case 4
        then have "frame (pmem s) d a = frame (pmem s) d b" using ab fr[OF ab(1)] fr[OF ab(2)] by simp
        then show ?thesis using up old[OF ab(1,3) 4(1)] old[OF ab(2,4) 4(2)] ab(1,2) unfolding up_ok_def by blast
      qed simp
    qed
  qed
  ultimately show "vm_ok kend fs d (s\<lparr>pmem := m'\<rparr>)" by (simp add: vm_ok_def)
qed

lemma mappages_single:
  assumes "PGSIZE dvd va" "uva va"
  shows "mappages d va PGSIZE pa perm s = mappages_from d va 0 pa perm s"
proof -
  obtain k where k: "va = PGSIZE * k" using assms(1) by (auto elim: dvdE)
  have lt: "va + (PGSIZE - 1) < 2 ^ 64" using assms(2) by (simp add: uva_def PGSIZE_def)
  have "(va + PGSIZE + 2 ^ 64 - 1) mod 2 ^ 64 = (va + (PGSIZE - 1) + 2 ^ 64) mod 2 ^ 64"
    by (simp add: PGSIZE_def)
  also have "\<dots> = va + (PGSIZE - 1)" using lt by (simp only: mod_add_self2 mod_less)
  finally have "PGROUNDDOWN ((va + PGSIZE + 2 ^ 64 - 1) mod 2 ^ 64) = va"
    unfolding k PGROUNDDOWN_def by (simp add: PGSIZE_def)
  moreover have "PGROUNDDOWN va = va" using k by (simp add: PGROUNDDOWN_def PGSIZE_def)
  ultimately show ?thesis unfolding mappages_def Let_def by simp
qed

lemma v2p_bound: "v2p p < 2 ^ 64"
  unfolding v2p_def by (rule mod_less_divisor) simp

text \<open>From \<open>s\<close> with free pages \<open>fs\<close> to \<open>t\<close> with free pages \<open>fs'\<close>, the entry of one page became \<open>w\<close>.\<close>

definition page_mapped :: "nat \<Rightarrow> nat list \<Rightarrow> nat list \<Rightarrow> nat \<Rightarrow> nat \<Rightarrow> uintp \<Rightarrow> 'a kmemst_scheme \<Rightarrow> 'a kmemst_scheme \<Rightarrow> bool" where
  "page_mapped kend fs fs' d va w s t \<longleftrightarrow>
     vm_ok kend fs' d t
     \<and> (\<forall>q. loose kend fs d (pmem s) q \<longrightarrow> same_page (pmem s) (pmem t) q \<and> loose kend fs' d (pmem t) q)
     \<and> (\<forall>x. uva x \<longrightarrow> lk (pmem t) d x = (if x div PGSIZE = va div PGSIZE then w else lk (pmem s) d x))"

lemma page_mapped_entry:
  assumes "vm_ok kend fs d u" "uva va" "present (pde (pmem u) d (PDX va))" "loose kend fs d (pmem u) f"
    and nf: "unmapped (pmem u) d f" and w: "PTE_ADDR w = v2p f"
  shows "page_mapped kend fs fs d va w u (u\<lparr>pmem := store64 (tab (pmem u) d (PDX va) + 8 * PTX va) w (pmem u)\<rparr>)"
proof -
  note V = set_pte_vm[OF assms(1-4) nf w refl]
  have e: "pmem (u\<lparr>pmem := m\<rparr>) = m" for m by simp
  show ?thesis unfolding page_mapped_def e
  proof (intro conjI allI impI)
    fix q assume "loose kend fs d (pmem u) q"
    from V(3)[OF this] show "same_page (pmem u) (store64 (tab (pmem u) d (PDX va) + 8 * PTX va) w (pmem u)) q"
      "loose kend fs d (store64 (tab (pmem u) d (PDX va) + 8 * PTX va) w (pmem u)) q" by blast+
  qed (rule V(1), rule V(2))
qed

lemma page_mapped_pre:
  assumes "page_mapped kend fs' fs'' d va w u t"
    and "\<And>x. uva x \<Longrightarrow> lk (pmem u) d x = lk (pmem s) d x"
    and "\<And>q. loose kend fs d (pmem s) q \<Longrightarrow> same_page (pmem s) (pmem u) q \<and> loose kend fs' d (pmem u) q"
  shows "page_mapped kend fs fs'' d va w s t"
  unfolding page_mapped_def
proof (intro conjI allI impI)
  show "vm_ok kend fs'' d t" using assms(1) by (simp add: page_mapped_def)
  fix q assume q: "loose kend fs d (pmem s) q"
  show "same_page (pmem s) (pmem t) q" "loose kend fs'' d (pmem t) q"
    using assms(3)[OF q] assms(1) same_page_trans unfolding page_mapped_def by blast+
next
  fix x assume "uva x"
  then show "lk (pmem t) d x = (if x div PGSIZE = va div PGSIZE then w else lk (pmem s) d x)"
    using assms(1) assms(2)[of x] unfolding page_mapped_def by presburger
qed

lemma mappages_page:
  assumes ok: "vm_ok kend fs d s" and va: "uva va" "PGSIZE dvd va" "\<not> present (lk (pmem s) d va)"
    and f: "loose kend fs d (pmem s) f" "unmapped (pmem s) d f"
    and perm: "flagword perm" and mem: "fs \<noteq> []"
  shows "\<exists>t fs'. mappages d va PGSIZE (of_nat (v2p f)) perm s = Ret True t \<and> (fs' = fs \<or> fs' = tl fs) \<and>
    page_mapped kend fs fs' d va (of_nat (v2p f) OR perm OR PTE_P) s t"
proof -
  let ?w = "of_nat (v2p f) OR perm OR PTE_P :: uintp"
  have w: "PTE_ADDR ?w = v2p f"
    using v2p_aligned[OF looseD(1)[OF f(1)]]
    by (intro PTE_ADDR_or v2p_bound flagword_or perm flagword_consts)
  show ?thesis
  proof (cases "present (pde (pmem s) d (PDX va))")
    case True
    let ?pte = "tab (pmem s) d (PDX va) + 8 * PTX va"
    have "load64 ?pte (pmem s) = lk (pmem s) d va" using True by (simp add: lk_def)
    then have "mappages d va PGSIZE (of_nat (v2p f)) perm s = Ret True (s\<lparr>pmem := store64 ?pte ?w (pmem s)\<rparr>)"
      using va(3) by (simp add: mappages_single[OF va(2,1)] walk_present[OF True])
    with page_mapped_entry[OF ok va(1) True f w] show ?thesis by blast
  next
    case False
    obtain p ps where fs: "fs = p # ps" using mem by (cases fs) auto
    obtain u where u: "walkpgdir d va True s = (Some (p + 8 * PTX va), u)" "vm_ok kend ps d u"
      "present (pde (pmem u) d (PDX va))" "tab (pmem u) d (PDX va) = p"
      "\<And>x. uva x \<Longrightarrow> lk (pmem u) d x = lk (pmem s) d x"
      "\<And>q. loose kend (p # ps) d (pmem s) q \<Longrightarrow> same_page (pmem s) (pmem u) q \<and> loose kend ps d (pmem u) q"
      "kmemst.more u = kmemst.more s"
      by (rule walk_alloc[OF ok[unfolded fs] va(1) False]) blast
    have "load64 (p + 8 * PTX va) (pmem u) = lk (pmem s) d va"
      using u(3,4) u(5)[OF va(1)] by (simp add: lk_def)
    then have m: "mappages d va PGSIZE (of_nat (v2p f)) perm s = Ret True (u\<lparr>pmem := store64 (p + 8 * PTX va) ?w (pmem u)\<rparr>)"
      unfolding mappages_single[OF va(2,1)] mappages_from.simps u(1) prod.case option.case
      using va(3) by simp
    have fu: "loose kend ps d (pmem u) f" using u(6) f(1) unfolding fs by blast
    have nf: "unmapped (pmem u) d f"
      using f(2) u(5) by (simp add: unmapped_def frame_def)
    have "page_mapped kend ps ps d va ?w u (u\<lparr>pmem := store64 (p + 8 * PTX va) ?w (pmem u)\<rparr>)"
      using page_mapped_entry[OF u(2) va(1) u(3) fu nf w] unfolding u(4) .
    from page_mapped_pre[OF this u(5) u(6)] show ?thesis using m unfolding fs list.sel by blast
  qed
qed

section \<open>User memory\<close>

definition user_page :: "uintp \<Rightarrow> bool" where
  "user_page e \<longleftrightarrow> present e \<and> e AND PTE_U \<noteq> 0"

definition uread :: "mem \<Rightarrow> nat \<Rightarrow> nat \<Rightarrow> uchar" where
  "uread m d x = m (frame m d x + x mod PGSIZE)"

lemma uread_same: "same_page m m' (frame m d x) \<Longrightarrow> lk m' d x = lk m d x \<Longrightarrow> uread m' d x = uread m d x"
  by (simp add: uread_def frame_def same_page_def PGSIZE_def)

lemma frame_loose: "vm_ok kend fs d s \<Longrightarrow> uva x \<Longrightarrow> present (lk (pmem s) d x) \<Longrightarrow> loose kend fs d (pmem s) (frame (pmem s) d x)"
  unfolding vm_ok_def up_ok_def by blast

text \<open>Writing to a loose page: the map stays, and so do all other pages.\<close>

definition only_page :: "mem \<Rightarrow> mem \<Rightarrow> nat \<Rightarrow> bool" where
  "only_page m m' f \<longleftrightarrow> (\<forall>q. PGSIZE dvd q \<longrightarrow> q \<noteq> f \<longrightarrow> same_page m m' q)"

lemma vm_poke:
  assumes ok: "vm_ok kend fs d s" and f: "loose kend fs d (pmem s) f"
    and only: "only_page (pmem s) m' f"
  shows "vm_ok kend fs d (s\<lparr>pmem := m'\<rparr>)" "uva x \<Longrightarrow> lk m' d x = lk (pmem s) d x"
    "loose kend fs d m' q \<longleftrightarrow> loose kend fs d (pmem s) q"
proof -
  have k: "kinv kend fs s" and pt: "pt_ok kend fs d (pmem s)" and up: "up_ok kend fs d (pmem s)"
    using ok by (simp_all add: vm_ok_def)
  have m': "PGSIZE dvd q \<Longrightarrow> q \<noteq> f \<Longrightarrow> same_page (pmem s) m' q" for q
    using only by (simp add: only_page_def)
  have d: "same_page (pmem s) m' d" using looseD(3)[OF f] by (intro m' pt_okD(3)[OF pt]) simp
  have tb: "same_page (pmem s) m' (tab (pmem s) d i)" if "i < 510" "present (pde (pmem s) d i)" for i
    using looseD(5)[OF f that] by (intro m' pt_okD(5)[OF pt that])
  note F = map_frame[OF d tb]
  show L: "uva x \<Longrightarrow> lk m' d x = lk (pmem s) d x" for x by (rule F(3))
  have pd: "i < 510 \<Longrightarrow> pde m' d i = pde (pmem s) d i \<and> tab m' d i = tab (pmem s) d i" for i
    using F(1)[of i] F(2)[of i] by simp
  show lo: "loose kend fs d m' q \<longleftrightarrow> loose kend fs d (pmem s) q" for q
    using pd by (simp add: loose_def)
  have "kinv kend fs (s\<lparr>pmem := m'\<rparr>)"
  proof (rule kinv_frame[OF k])
    fix p assume "p \<in> set fs"
    then have "page_ok kend p" "p \<noteq> f" using ka.inv_ok[OF k] looseD(2)[OF f] by blast+
    then show "same_page (pmem s) m' p" by (intro m' page_okD(1))
  qed
  moreover have "pt_ok kend fs d m'" using pt pd by (simp add: pt_ok_def)
  moreover have "up_ok kend fs d m'"
    unfolding up_ok_def lo
  proof (intro conjI allI impI)
    show "loose kend fs d (pmem s) (frame m' d x)" if "uva x" "present (lk m' d x)" for x
      using up that unfolding up_ok_def frame_def L[OF that(1)] by blast
    show "a div PGSIZE = b div PGSIZE"
      if "uva a" "uva b" "present (lk m' d a)" "present (lk m' d b)" "frame m' d a = frame m' d b" for a b
      using up that unfolding up_ok_def frame_def L[OF that(1)] L[OF that(2)] by blast
  qed
  ultimately show "vm_ok kend fs d (s\<lparr>pmem := m'\<rparr>)" by (simp add: vm_ok_def)
qed

text \<open>A page taken from the allocator is loose and mapped nowhere.\<close>

lemma vm_kalloc:
  assumes ok: "vm_ok kend (p # ps) d s"
  obtains k where "kalloc s = (p, k)" "pmem k = pmem s" "p \<noteq> 0" "vm_ok kend ps d k"
    "loose kend ps d (pmem s) p" "unmapped (pmem s) d p"
    "\<And>q. loose kend (p # ps) d (pmem s) q \<Longrightarrow> loose kend ps d (pmem s) q"
proof -
  have k: "kinv kend (p # ps) s" and pt: "pt_ok kend (p # ps) d (pmem s)" and up: "up_ok kend (p # ps) d (pmem s)"
    using ok by (simp_all add: vm_ok_def)
  have P: "page_ok kend p" "p \<notin> set ps" "p \<noteq> 0" using ka.inv_ok[OF k] by auto
  define k' where "k' = s\<lparr>freelist := freelist (snd (kalloc s))\<rparr>"
  have e: "kalloc s = (p, k')" "kinv kend ps (snd (kalloc s))"
    using kalloc_page[OF k] unfolding k'_def by blast+
  have m: "pmem k' = pmem s" by (simp add: k'_def)
  have k2: "kinv kend ps k'" using e(2) unfolding e(1) by simp
  have lo: "loose kend (p # ps) d (pmem s) q \<Longrightarrow> loose kend ps d (pmem s) q" for q
    by (simp add: loose_def)
  have "loose kend ps d (pmem s) p"
    using P pt_okD(2)[OF pt] pt_okD(4)[OF pt] by (auto simp: loose_def)
  moreover have "unmapped (pmem s) d p"
    using up unfolding unmapped_def up_ok_def loose_def by (metis list.set_intros(1))
  moreover have "pt_ok kend ps d (pmem s)" using pt by (simp add: pt_ok_def)
  moreover have "up_ok kend ps d (pmem s)" using up lo unfolding up_ok_def by blast
  ultimately show thesis using that[OF e(1) m P(3)] k2 lo by (simp add: vm_ok_def m)
qed

lemma W_U_flags: "flagword (PTE_W OR PTE_U)" "user_page (x OR (PTE_W OR PTE_U) OR PTE_P)"
proof -
  show "flagword (PTE_W OR PTE_U)" by (intro flagword_or flagword_consts)
  have "bit ((x OR (PTE_W OR PTE_U) OR PTE_P) AND PTE_U) 2" by (simp add: bit_simps PTE_U_def)
  then have "(x OR (PTE_W OR PTE_U) OR PTE_P) AND PTE_U \<noteq> 0"
    by (cases "(x OR (PTE_W OR PTE_U) OR PTE_P) AND PTE_U = 0") simp_all
  then show "user_page (x OR (PTE_W OR PTE_U) OR PTE_P)"
    using present_or[of "x OR (PTE_W OR PTE_U)"] by (simp add: user_page_def or.assoc)
qed

text \<open>One iteration of \<open>allocuvm\<close>.\<close>

lemma allocuvm_page:
  assumes ok: "vm_ok kend (p # q # ps) d s" and va: "uva va" "PGSIZE dvd va" "\<not> present (lk (pmem s) d va)"
  obtains k t fs' where "kalloc s = (p, k)" "p \<noteq> 0"
    "mappages d va PGSIZE (of_nat (v2p p)) (PTE_W OR PTE_U) (k\<lparr>pmem := memset p 0 PGSIZE (pmem k)\<rparr>) = Ret True t"
    "fs' = q # ps \<or> fs' = ps" "vm_ok kend fs' d t"
    "\<And>x. uva x \<Longrightarrow> x div PGSIZE = va div PGSIZE \<Longrightarrow> user_page (lk (pmem t) d x) \<and> uread (pmem t) d x = 0"
    "\<And>x. uva x \<Longrightarrow> x div PGSIZE \<noteq> va div PGSIZE \<Longrightarrow> lk (pmem t) d x = lk (pmem s) d x \<and>
       (present (lk (pmem s) d x) \<longrightarrow> uread (pmem t) d x = uread (pmem s) d x)"
proof -
  obtain k where k: "kalloc s = (p, k)" "pmem k = pmem s" "p \<noteq> 0" "vm_ok kend (q # ps) d k"
    "loose kend (q # ps) d (pmem s) p" "unmapped (pmem s) d p"
    "\<And>r. loose kend (p # q # ps) d (pmem s) r \<Longrightarrow> loose kend (q # ps) d (pmem s) r"
    using vm_kalloc[OF ok] by blast
  let ?m = "memset p 0 PGSIZE (pmem k)"
  have pd: "PGSIZE dvd p" using looseD(4)[OF k(5)] .
  have sp: "same_page (pmem k) ?m r" if "PGSIZE dvd r" "r \<noteq> p" for r
    using that pd by (intro memset_other_page) auto
  then have "only_page (pmem k) ?m p" by (simp add: only_page_def)
  note P = vm_poke[OF k(4) k(5)[folded k(2)] this]
  have un: "unmapped ?m d p" using k(6) P(2) by (simp add: unmapped_def frame_def k(2))
  have np: "\<not> present (lk ?m d va)" using va(3) P(2)[OF va(1)] by (simp add: k(2))
  have lp: "loose kend (q # ps) d ?m p" using P(3) k(5) by (simp add: k(2))
  let ?w = "of_nat (v2p p) OR (PTE_W OR PTE_U) OR PTE_P :: uintp"
  obtain t fs' where t: "mappages d va PGSIZE (of_nat (v2p p)) (PTE_W OR PTE_U) (k\<lparr>pmem := ?m\<rparr>) = Ret True t"
    "fs' = q # ps \<or> fs' = ps" "page_mapped kend (q # ps) fs' d va ?w (k\<lparr>pmem := ?m\<rparr>) t"
  proof -
    have e: "pmem (k\<lparr>pmem := ?m\<rparr>) = ?m" by simp
    show thesis
      using mappages_page[OF P(1) va(1,2), unfolded e, OF np lp un W_U_flags(1)] that
      unfolding list.sel by blast
  qed
  have ok': "vm_ok kend fs' d t"
    and lo: "\<And>r. loose kend (q # ps) d ?m r \<Longrightarrow> same_page ?m (pmem t) r"
    and lk: "\<And>x. uva x \<Longrightarrow> lk (pmem t) d x = (if x div PGSIZE = va div PGSIZE then ?w else lk ?m d x)"
    using t(3) by (simp_all add: page_mapped_def)
  have "PTE_ADDR (of_nat (v2p p) OR (PTE_W OR PTE_U OR PTE_P)) = v2p p"
    using v2p_aligned[OF looseD(1)[OF lp]] by (intro PTE_ADDR_or v2p_bound flagword_or flagword_consts)
  then have fr: "p2v (PTE_ADDR ?w) = p" using page_ok_kern(3)[OF looseD(1)[OF lp]] by (simp add: or.assoc)
  have new: "user_page (lk (pmem t) d x) \<and> uread (pmem t) d x = 0" if "uva x" "x div PGSIZE = va div PGSIZE" for x
  proof -
    have l: "lk (pmem t) d x = ?w" using lk[OF that(1)] that(2) by simp
    then have "uread (pmem t) d x = pmem t (p + x mod PGSIZE)" by (simp add: uread_def frame_def fr)
    also have "\<dots> = ?m (p + x mod PGSIZE)"
      using lo[OF lp] by (simp add: same_page_def PGSIZE_def)
    also have "\<dots> = 0" by (simp add: memset_fill PGSIZE_def)
    finally show ?thesis using l W_U_flags(2) by simp
  qed
  have old: "lk (pmem t) d x = lk (pmem s) d x \<and>
      (present (lk (pmem s) d x) \<longrightarrow> uread (pmem t) d x = uread (pmem s) d x)"
    if x: "uva x" "x div PGSIZE \<noteq> va div PGSIZE" for x
  proof -
    have l: "lk (pmem t) d x = lk (pmem s) d x" "lk ?m d x = lk (pmem s) d x"
      using lk[OF x(1)] x(2) P(2)[OF x(1)] by (simp_all add: k(2))
    have "uread (pmem t) d x = uread (pmem s) d x" if pr: "present (lk (pmem s) d x)"
    proof -
      have f: "loose kend (p # q # ps) d (pmem s) (frame (pmem s) d x)" by (rule frame_loose[OF ok x(1) pr])
      have fe: "frame ?m d x = frame (pmem s) d x" using l(2) by (simp add: frame_def)
      have "frame (pmem s) d x \<noteq> p" using looseD(2)[OF f] by auto
      then have "same_page (pmem s) ?m (frame (pmem s) d x)" using sp[OF looseD(4)[OF f]] by (simp add: k(2))
      moreover have "same_page ?m (pmem t) (frame (pmem s) d x)"
        using lo P(3) k(7)[OF f] by (simp add: k(2))
      ultimately have "same_page (pmem s) (pmem t) (frame (pmem s) d x)" by (rule same_page_trans)
      then show ?thesis using l(1) by (rule uread_same)
    qed
    with l(1) show ?thesis by blast
  qed
  show thesis using that[OF k(1,3) t(1,2) ok' new old] .
qed

text \<open>What growing a process from \<open>a\<close> (a page boundary) to \<open>n\<close> does to its memory.\<close>

definition grown :: "nat \<Rightarrow> nat \<Rightarrow> nat \<Rightarrow> mem \<Rightarrow> mem \<Rightarrow> bool" where
  "grown d a n m m' \<longleftrightarrow> (\<forall>x. uva x \<longrightarrow>
     (if a \<le> x \<and> PGROUNDDOWN x < n then user_page (lk m' d x) \<and> uread m' d x = 0
      else lk m' d x = lk m d x \<and> (present (lk m d x) \<longrightarrow> uread m' d x = uread m d x)))"

lemma PGROUNDDOWN_ge: "PGSIZE dvd a \<Longrightarrow> a \<le> x \<Longrightarrow> a \<le> PGROUNDDOWN x"
proof -
  assume "PGSIZE dvd a" "a \<le> x"
  then obtain k where "a = PGSIZE * k" by (auto elim: dvdE)
  then have k: "a = k * PGSIZE" "k * PGSIZE \<le> x" using \<open>a \<le> x\<close> by (simp_all add: mult.commute)
  then have "k \<le> x div PGSIZE" by (simp add: less_eq_div_iff_mult_less_eq PGSIZE_def)
  then show ?thesis unfolding k(1) PGROUNDDOWN_def by simp
qed

lemma grown_step:
  assumes g: "grown d (a + PGSIZE) n m1 m2" and a: "PGSIZE dvd a" "a < n"
    and new: "\<And>x. uva x \<Longrightarrow> x div PGSIZE = a div PGSIZE \<Longrightarrow> user_page (lk m1 d x) \<and> uread m1 d x = 0"
    and old: "\<And>x. uva x \<Longrightarrow> x div PGSIZE \<noteq> a div PGSIZE \<Longrightarrow> lk m1 d x = lk m d x \<and>
       (present (lk m d x) \<longrightarrow> uread m1 d x = uread m d x)"
  shows "grown d a n m m2"
  unfolding grown_def
proof (intro allI impI)
  fix x assume x: "uva x"
  obtain k where k: "a = PGSIZE * k" using a(1) by (auto elim: dvdE)
  have page: "x div PGSIZE = a div PGSIZE \<longleftrightarrow> a \<le> x \<and> x < a + PGSIZE"
    unfolding k by (auto simp: PGSIZE_def)
  have rd: "PGROUNDDOWN x < n" if "x < a + PGSIZE" "a \<le> x"
    using that a(2) page unfolding PGROUNDDOWN_def k by (auto simp: PGSIZE_def)
  have G: "if a + PGSIZE \<le> x \<and> PGROUNDDOWN x < n then user_page (lk m2 d x) \<and> uread m2 d x = 0
      else lk m2 d x = lk m1 d x \<and> (present (lk m1 d x) \<longrightarrow> uread m2 d x = uread m1 d x)"
    using g x by (simp add: grown_def)
  show "if a \<le> x \<and> PGROUNDDOWN x < n then user_page (lk m2 d x) \<and> uread m2 d x = 0
      else lk m2 d x = lk m d x \<and> (present (lk m d x) \<longrightarrow> uread m2 d x = uread m d x)"
  proof (cases "x div PGSIZE = a div PGSIZE")
    case True
    then have "a \<le> x" "x < a + PGSIZE" using page by auto
    then show ?thesis using G new[OF x True] rd by (simp add: user_page_def)
  next
    case False
    then have "a \<le> x \<longleftrightarrow> a + PGSIZE \<le> x" using page by auto
    then show ?thesis using G old[OF x False] by (simp split: if_splits)
  qed
qed

lemma allocuvm_from_grows:
  assumes "vm_ok kend fs d s" "PGSIZE dvd a" "n \<le> 510 * 2 ^ 21"
    and "\<And>x. uva x \<Longrightarrow> a \<le> x \<Longrightarrow> PGROUNDDOWN x < n \<Longrightarrow> \<not> present (lk (pmem s) d x)"
    and "2 * ((n - a + (PGSIZE - 1)) div PGSIZE) \<le> length fs"
  shows "\<exists>t fs'. allocuvm_from kend d oldsz n a s = Ret n t \<and> vm_ok kend fs' d t \<and> grown d a n (pmem s) (pmem t)"
  using assms
proof (induction kend d oldsz n a s arbitrary: fs rule: allocuvm_from.induct)
  case (1 kend d oldsz n a s)
  show ?case
  proof (cases "a < n")
    case False
    have n: "(a \<le> x \<and> PGROUNDDOWN x < n) = False" for x
      using False PGROUNDDOWN_ge[OF 1(3), of x] by auto
    have "grown d a n (pmem s) (pmem s)" unfolding grown_def n by simp
    then show ?thesis using False 1(2) by (auto simp: allocuvm_from.simps[of kend d oldsz n a s])
  next
    case True
    have np: "(n - a + (PGSIZE - 1)) div PGSIZE = Suc ((n - (a + PGSIZE) + (PGSIZE - 1)) div PGSIZE)"
    proof (cases "a + PGSIZE \<le> n")
      case True
      then have "n - a + (PGSIZE - 1) = (n - (a + PGSIZE) + (PGSIZE - 1)) + PGSIZE" by simp
      also have "\<dots> div PGSIZE = Suc ((n - (a + PGSIZE) + (PGSIZE - 1)) div PGSIZE)"
        unfolding Suc_eq_plus1 by (rule div_add_self2) (simp add: PGSIZE_def)
      finally show ?thesis .
    next
      case False
      then show ?thesis using True by (simp add: PGSIZE_def div_if) linarith
    qed
    obtain p q ps where fs: "fs = p # q # ps"
      using 1(6) np by (cases fs; cases "tl fs") auto
    have va: "uva a" "\<not> present (lk (pmem s) d a)"
      using True 1(4) 1(5)[of a] 1(3) by (auto simp: uva_def PGROUNDDOWN_def PGSIZE_def)
    obtain k t fs' where st: "kalloc s = (p, k)" "p \<noteq> 0"
      "mappages d a PGSIZE (of_nat (v2p p)) (PTE_W OR PTE_U) (k\<lparr>pmem := memset p 0 PGSIZE (pmem k)\<rparr>) = Ret True t"
      "fs' = q # ps \<or> fs' = ps" "vm_ok kend fs' d t"
      "\<And>x. uva x \<Longrightarrow> x div PGSIZE = a div PGSIZE \<Longrightarrow> user_page (lk (pmem t) d x) \<and> uread (pmem t) d x = 0"
      "\<And>x. uva x \<Longrightarrow> x div PGSIZE \<noteq> a div PGSIZE \<Longrightarrow> lk (pmem t) d x = lk (pmem s) d x \<and>
         (present (lk (pmem s) d x) \<longrightarrow> uread (pmem t) d x = uread (pmem s) d x)"
      by (rule allocuvm_page[OF 1(2)[unfolded fs] va(1) 1(3) va(2)]) blast
    have e: "allocuvm_from kend d oldsz n a s = allocuvm_from kend d oldsz n (a + PGSIZE) t"
      using True st(1-3) by (simp add: allocuvm_from.simps[of kend d oldsz n a s])
    have un: "\<not> present (lk (pmem t) d x)" if "uva x" "a + PGSIZE \<le> x" "PGROUNDDOWN x < n" for x
    proof -
      have "x div PGSIZE \<noteq> a div PGSIZE" using that(2) 1(3) by (auto simp: PGSIZE_def elim!: dvdE)
      then show ?thesis using st(7)[OF that(1)] 1(5)[OF that(1)] that by simp
    qed
    have len: "2 * ((n - (a + PGSIZE) + (PGSIZE - 1)) div PGSIZE) \<le> length fs'"
      using 1(6) st(4) unfolding np fs by auto
    have dv: "PGSIZE dvd a + PGSIZE" using 1(3) by simp
    obtain t' fs'' where "allocuvm_from kend d oldsz n (a + PGSIZE) t = Ret n t'" "vm_ok kend fs'' d t'"
      "grown d (a + PGSIZE) n (pmem t) (pmem t')"
      using 1(1)[OF True st(1)[symmetric] refl st(2) st(5) dv 1(4) un len] by blast
    moreover have "grown d a n (pmem s) (pmem t')"
      by (rule grown_step[OF calculation(3) 1(3) True st(6,7)])
    ultimately show ?thesis using e by auto
  qed
qed

section \<open>Copying out to user memory\<close>

lemma lk_same_page: "uva a \<Longrightarrow> uva b \<Longrightarrow> a div PGSIZE = b div PGSIZE \<Longrightarrow> lk m d a = lk m d b"
  using same_entry[of a b] by (simp add: lk_def)

lemma uva2ka_user:
  assumes "vm_ok kend fs d s" "uva x" "user_page (lk (pmem s) d x)"
  shows "uva2ka d x s = Ret (frame (pmem s) d x) s" "frame (pmem s) d x \<noteq> 0"
proof -
  have pr: "present (lk (pmem s) d x)" using assms(3) by (simp add: user_page_def)
  then have p: "present (pde (pmem s) d (PDX x))" by (auto simp: lk_def)
  have "load64 (tab (pmem s) d (PDX x) + 8 * PTX x) (pmem s) = lk (pmem s) d x"
    using p by (simp add: lk_def)
  then show "uva2ka d x s = Ret (frame (pmem s) d x) s"
    using assms(3) by (simp add: uva2ka_def walk_present[OF p] user_page_def frame_def Let_def)
  show "frame (pmem s) d x \<noteq> 0"
    using page_okD(2)[OF looseD(1)[OF frame_loose[OF assms(1,2) pr]]] by simp
qed

text \<open>A write of \<open>bs\<close> inside the page of \<open>va\<close>.\<close>

lemma poke_user:
  assumes ok: "vm_ok kend fs d s" and va: "uva va" "user_page (lk (pmem s) d va)"
    and fit: "va mod PGSIZE + length bs \<le> PGSIZE"
    and m': "m' = store_bytes (frame (pmem s) d va + va mod PGSIZE) bs (pmem s)"
  shows "vm_ok kend fs d (s\<lparr>pmem := m'\<rparr>)" "uva x \<Longrightarrow> lk m' d x = lk (pmem s) d x"
    "uva x \<Longrightarrow> present (lk (pmem s) d x) \<Longrightarrow>
     uread m' d x = (if va \<le> x \<and> x < va + length bs then bs ! (x - va) else uread (pmem s) d x)"
proof -
  let ?f = "frame (pmem s) d va"
  have pr: "present (lk (pmem s) d va)" using va(2) by (simp add: user_page_def)
  note f = frame_loose[OF ok va(1) pr]
  have only: "only_page (pmem s) m' ?f"
    unfolding only_page_def m' using looseD(4)[OF f] fit by (blast intro: store_bytes_other_page)
  note P = vm_poke[OF ok f only]
  show "vm_ok kend fs d (s\<lparr>pmem := m'\<rparr>)" by (rule P(1))
  show L: "uva x \<Longrightarrow> lk m' d x = lk (pmem s) d x" for x by (rule P(2))
  assume x: "uva x" "present (lk (pmem s) d x)"
  have fr: "frame m' d x = frame (pmem s) d x" using L[OF x(1)] by (simp add: frame_def)
  show "uread m' d x = (if va \<le> x \<and> x < va + length bs then bs ! (x - va) else uread (pmem s) d x)"
  proof (cases "x div PGSIZE = va div PGSIZE")
    case True
    then have fx: "frame (pmem s) d x = ?f" using lk_same_page[OF x(1) va(1) True] by (simp add: frame_def)
    have e: "x = va div PGSIZE * PGSIZE + x mod PGSIZE" "va = va div PGSIZE * PGSIZE + va mod PGSIZE"
      using True by (metis div_mult_mod_eq)+
    then have "va \<le> x \<longleftrightarrow> va mod PGSIZE \<le> x mod PGSIZE"
      "x < va + length bs \<longleftrightarrow> x mod PGSIZE < va mod PGSIZE + length bs"
      "va \<le> x \<Longrightarrow> x - va = x mod PGSIZE - va mod PGSIZE" by linarith+
    moreover have "uread m' d x = m' (?f + x mod PGSIZE)" "uread (pmem s) d x = pmem s (?f + x mod PGSIZE)"
      by (simp_all only: uread_def fr fx)
    ultimately show ?thesis by (simp add: m' store_bytes_def)
  next
    case False
    have "same_page (pmem s) m' (frame (pmem s) d x)"
    proof -
      have "frame (pmem s) d x \<noteq> ?f"
        using ok x va(1) pr False unfolding vm_ok_def up_ok_def by blast
      then show ?thesis using only looseD(4)[OF frame_loose[OF ok x]] by (simp add: only_page_def)
    qed
    moreover have "\<not> (va \<le> x \<and> x < va + length bs)"
    proof
      assume a: "va \<le> x \<and> x < va + length bs"
      then have "PGSIZE * (va div PGSIZE) \<le> x" "x < PGSIZE * Suc (va div PGSIZE)"
        using fit mult_div_mod_eq[of PGSIZE va] unfolding mult_Suc_right by linarith+
      then have "x div PGSIZE = va div PGSIZE" by (rule div_nat_eqI)
      with False show False ..
    qed
    ultimately show ?thesis using uread_same[OF _ L[OF x(1)]] by (simp only: if_False)
  qed
qed

lemma copyout_user:
  assumes "vm_ok kend fs d s" "va + length buf \<le> 510 * 2 ^ 21"
    and "\<And>x. va \<le> x \<Longrightarrow> x < va + length buf \<Longrightarrow> user_page (lk (pmem s) d x)"
  shows "\<exists>t. copyout d va buf s = Ret True t \<and> vm_ok kend fs d t \<and>
    (\<forall>x. uva x \<longrightarrow> lk (pmem t) d x = lk (pmem s) d x \<and> (present (lk (pmem s) d x) \<longrightarrow>
      uread (pmem t) d x = (if va \<le> x \<and> x < va + length buf then buf ! (x - va) else uread (pmem s) d x)))"
  using assms
proof (induction d va buf s rule: copyout.induct)
  case (1 d va buf s)
  show ?case
  proof (cases "buf = []")
    case True
    then show ?thesis using 1(2) by (intro exI[of _ s]) (auto simp: copyout.simps[of d va "[]" s])
  next
    case False
    let ?n = "min (PGSIZE - va mod PGSIZE) (length buf)"
    let ?va0 = "PGROUNDDOWN va mod 2 ^ 32"
    let ?s = "s\<lparr>pmem := store_bytes (frame (pmem s) d va + va mod PGSIZE) (take ?n buf) (pmem s)\<rparr>"
    have len: "0 < length buf" "va < va + length buf" using False by simp_all
    have va: "uva va" "user_page (lk (pmem s) d va)" using 1(3) 1(4)[of va] len unfolding uva_def by linarith+
    have rd: "PGROUNDDOWN va \<le> va" "PGROUNDDOWN va div PGSIZE = va div PGSIZE"
      by (simp_all add: PGROUNDDOWN_def PGSIZE_def)
    have "PGROUNDDOWN va < 2 ^ 32" using rd(1) va(1) by (simp add: uva_def)
    then have va0: "?va0 = PGROUNDDOWN va" by simp
    have u0: "uva ?va0" using rd(1) va(1) unfolding va0 by (simp add: uva_def)
    have l0: "lk m d ?va0 = lk m d va" for m using lk_same_page[OF u0 va(1)] rd(2) va0 by simp
    have up0: "user_page (lk (pmem s) d ?va0)" unfolding l0 by (rule va(2))
    note k = uva2ka_user[OF 1(2) u0 up0]
    have fr: "frame (pmem s) d ?va0 = frame (pmem s) d va" unfolding frame_def l0 ..
    have n: "0 < ?n" "?n \<le> length buf" "va mod PGSIZE + length (take ?n buf) \<le> PGSIZE"
      using len mod_less_divisor[of PGSIZE va] by (auto simp: PGSIZE_def)
    note P = poke_user[OF 1(2) va n(3) refl]
    have nxt: "(?va0 + PGSIZE) mod 2 ^ 32 = PGROUNDDOWN va + PGSIZE"
      unfolding va0 using rd(1) va(1) by (simp add: uva_def PGSIZE_def)
    have step: "copyout d va buf s = copyout d ((?va0 + PGSIZE) mod 2 ^ 32) (drop ?n buf) ?s"
      unfolding copyout.simps[of d va buf s] 
      using False k(2) unfolding Let_def k(1) obind.simps fr by simp
    have rest: "drop ?n buf = [] \<or> PGROUNDDOWN va + PGSIZE = va + ?n"
    proof -
      have "va = PGROUNDDOWN va + va mod PGSIZE" by (simp add: PGROUNDDOWN_def)
      then show ?thesis using mod_less_divisor[of PGSIZE va] by (auto simp: PGSIZE_def min_def)
    qed
    obtain s1 k where s1: "vm_ok kend fs d s1" "\<And>x. uva x \<Longrightarrow> lk (pmem s1) d x = lk (pmem s) d x"
      "\<And>x. uva x \<Longrightarrow> present (lk (pmem s) d x) \<Longrightarrow>
         uread (pmem s1) d x = (if va \<le> x \<and> x < va + k then buf ! (x - va) else uread (pmem s) d x)"
      "k = ?n" "s1 = ?s"
    proof (rule that[of ?s ?n])
      fix x assume x: "uva x" "present (lk (pmem s) d x)"
      have "take ?n buf ! (x - va) = buf ! (x - va)" if "va \<le> x" "x < va + ?n"
        using that by (intro nth_take) linarith
      then show "uread (pmem ?s) d x = (if va \<le> x \<and> x < va + ?n then buf ! (x - va) else uread (pmem s) d x)"
        using P(3)[OF x] n(2) by auto
    qed (use P(1,2) in auto)
    have kn: "0 < k" "k \<le> length buf" using n(1,2) s1(4) by simp_all
    note step' = step[folded s1(4), folded s1(5)[folded s1(4)]]
    show ?thesis
    proof (cases "drop k buf = []")
      case True
      then have nl: "k = length buf" using kn by simp
      have "copyout d va buf s = Ret True s1"
        unfolding step' True by (simp add: copyout.simps)
      then show ?thesis using s1(1-3) unfolding nl by (intro exI[of _ s1]) simp
    next
      case False
      then have e: "(?va0 + PGSIZE) mod 2 ^ 32 = va + k" using rest nxt s1(4) by simp
      have l: "va + k + length (drop k buf) = va + length buf" using kn by simp
      have up: "user_page (lk (pmem s1) d x)" if "va + k \<le> x" "x < va + k + length (drop k buf)" for x
      proof -
        have "va \<le> x" "x < va + length buf" using that l by linarith+
        moreover from this have "uva x" using 1(3) unfolding uva_def by linarith
        ultimately show ?thesis using 1(4)[of x] s1(2)[of x] by simp
      qed
      obtain t where t: "copyout d (va + k) (drop k buf) s1 = Ret True t" "vm_ok kend fs d t"
        "\<And>x. uva x \<Longrightarrow> lk (pmem t) d x = lk (pmem s1) d x \<and> (present (lk (pmem s1) d x) \<longrightarrow>
            uread (pmem t) d x = (if va + k \<le> x \<and> x < va + k + length (drop k buf)
              then drop k buf ! (x - (va + k)) else uread (pmem s1) d x))"
        using 1(1)[OF \<open>buf \<noteq> []\<close> refl refl k(2), of s, unfolded fr, folded s1(4), folded s1(5)[folded s1(4)], unfolded e]
          s1(1) 1(3) up l by auto
      have "uread (pmem t) d x = (if va \<le> x \<and> x < va + length buf then buf ! (x - va) else uread (pmem s) d x)"
        if x: "uva x" "present (lk (pmem s) d x)" for x
      proof -
        have "drop k buf ! (x - (va + k)) = buf ! (x - va)" if "va + k \<le> x"
          using that kn by (simp add: nth_drop)
        then show ?thesis using t(3)[OF x(1)] s1(2)[OF x(1)] s1(3)[OF x] x(2) l by auto
      qed
      then show ?thesis using t(1,2) t(3) s1(2) unfolding step' e by (intro exI[of _ t]) simp
    qed
  qed
qed

section \<open>Properties\<close>


text \<open>A zeroed page is a directory with no mapping; a machine with three free pages and one.\<close>

lemma vm_ok_fresh:
  assumes "kinv kend (d # fs) s"
  shows "vm_ok kend fs d ((snd (kalloc s))\<lparr>pmem := memset d 0 PGSIZE (pmem s)\<rparr>)"
    "lk (memset d 0 PGSIZE m) d x = 0"
proof -
  let ?m = "memset d 0 PGSIZE (pmem s)"
  have P: "page_ok kend d" "d \<notin> set fs" "\<forall>q \<in> set fs. page_ok kend q" using ka.inv_ok[OF assms] by auto
  have z: "pde (memset d 0 PGSIZE m) d i = 0" if "i < 512" for i m
    unfolding pde_def using that by (intro load64_memset_zero) (simp_all add: PGSIZE_def)
  then show lk: "lk (memset d 0 PGSIZE m) d x = 0" for m x by (simp add: lk_def)
  have "kinv kend fs ((snd (kalloc s))\<lparr>pmem := ?m\<rparr>)"
  proof (rule kinv_frame[OF conjunct2[OF ka.alloc_some[OF assms]]])
    fix q assume "q \<in> set fs"
    moreover have "pmem (snd (kalloc s)) = pmem s" by (simp add: kalloc_def Let_def)
    ultimately show "same_page (pmem (snd (kalloc s))) ?m q"
      using P page_okD(1) by (metis memset_other_page)
  qed
  moreover have "pt_ok kend fs d ?m" using P z by (simp add: pt_ok_def)
  moreover have "up_ok kend fs d ?m" by (simp add: up_ok_def lk)
  ultimately show "vm_ok kend fs d ((snd (kalloc s))\<lparr>pmem := ?m\<rparr>)" by (simp add: vm_ok_def)
qed

abbreviation ex_kend :: nat where "ex_kend \<equiv> 0xFFFFFFFF80100000"
abbreviation ex_pgdir :: nat where "ex_pgdir \<equiv> 0xFFFFFFFF80103000"

definition ex_kmem :: kmemst where
  "ex_kmem = (case freerange ex_kend ex_kend 0xFFFFFFFF80104000 kboot of Ret _ s \<Rightarrow> s | _ \<Rightarrow> kboot)"

definition ex_vm :: kmemst where
  "ex_vm = (snd (kalloc ex_kmem))\<lparr>pmem := memset ex_pgdir 0 PGSIZE (pmem ex_kmem)\<rparr>"

lemma ex_kmem_inv: "kinv ex_kend [ex_pgdir, 0xFFFFFFFF80102000, 0xFFFFFFFF80101000, ex_kend] ex_kmem"
proof -
  have "runs (freerange_from ex_kend ex_kend 0xFFFFFFFF80104000 kboot) (\<lambda>_ t.
      kinv ex_kend (rev (map (\<lambda>k. ex_kend + k * PGSIZE) [0..<(0xFFFFFFFF80104000 - ex_kend) div PGSIZE]) @ []) t
      \<and> use_lock t = use_lock kboot)"
    by (rule freerange_from_runs[OF kboot_inv]) (simp_all add: PGSIZE_def KERNBASE_def PHYSTOP_def)
  moreover have "PGROUNDUP ex_kend = ex_kend" by (simp add: PGROUNDUP_def PGSIZE_def)
  ultimately have "kinv ex_kend (rev (map (\<lambda>k. ex_kend + k * PGSIZE) [0..<(0xFFFFFFFF80104000 - ex_kend) div PGSIZE]) @ []) ex_kmem"
    unfolding ex_kmem_def freerange_def runs_iff by auto
  then show ?thesis by (simp add: PGSIZE_def upt_conv_Cons)
qed

lemma ex_vm_ok: "vm_ok ex_kend [0xFFFFFFFF80102000, 0xFFFFFFFF80101000, ex_kend] ex_pgdir ex_vm"
    "lk (pmem ex_vm) ex_pgdir x = 0"
  using vm_ok_fresh[OF ex_kmem_inv] by (simp_all add: ex_vm_def)


text \<open>
  C19: \<open>copyout\<close> to user-accessible memory succeeds across page boundaries: afterwards the
  process reads exactly the copied bytes in the target range and its old bytes elsewhere,
  with all mappings unchanged.
\<close>

theorem copyout_correct:
  assumes "vm_ok kend fs d s" "va + length buf \<le> 510 * 2 ^ 21"
    and "\<forall>x. va \<le> x \<longrightarrow> x < va + length buf \<longrightarrow> user_page (lk (pmem s) d x)"
  shows "\<exists>t. copyout d va buf s = Ret True t \<and> vm_ok kend fs d t \<and>
    (\<forall>x. uva x \<longrightarrow> lk (pmem t) d x = lk (pmem s) d x \<and> (present (lk (pmem s) d x) \<longrightarrow>
      uread (pmem t) d x = (if va \<le> x \<and> x < va + length buf then buf ! (x - va) else uread (pmem s) d x)))"
  using assms(3) by (intro copyout_user[OF assms(1,2)]) blast

theorem copyout_correct_witness:
  "\<exists>s t :: kmemst. copyout ex_pgdir 4 [7] s = Ret True t \<and> uread (pmem t) ex_pgdir 4 = 7 \<and> uread (pmem t) ex_pgdir 3 = 0"
proof -
  have z: "\<not> present (lk (pmem ex_vm) ex_pgdir x)" for x by (simp add: ex_vm_ok(2))
  obtain s :: kmemst and fs where s: "vm_ok ex_kend fs ex_pgdir s" "grown ex_pgdir 0 5 (pmem ex_vm) (pmem s)"
    using allocuvm_from_grows[OF ex_vm_ok(1), of 0 5 0] z by (auto simp: PGSIZE_def)
  have u: "user_page (lk (pmem s) ex_pgdir x) \<and> uread (pmem s) ex_pgdir x = 0" if "x < 5" for x
    using s(2) that unfolding grown_def by (auto simp: uva_def PGROUNDDOWN_def PGSIZE_def)
  obtain t where t: "copyout ex_pgdir 4 [7] s = Ret True t"
    "\<forall>x. uva x \<longrightarrow> lk (pmem t) ex_pgdir x = lk (pmem s) ex_pgdir x \<and> (present (lk (pmem s) ex_pgdir x) \<longrightarrow>
      uread (pmem t) ex_pgdir x = (if 4 \<le> x \<and> x < 4 + length [7] then [7] ! (x - 4) else uread (pmem s) ex_pgdir x))"
    using copyout_correct[OF s(1), of 4 "[7]"] u by auto
  have "uva 4" "uva 3" "present (lk (pmem s) ex_pgdir 4)" "present (lk (pmem s) ex_pgdir 3)"
    using u[of 4] u[of 3] by (simp_all add: uva_def user_page_def)
  with t(2) have "uread (pmem t) ex_pgdir 4 = 7" "uread (pmem t) ex_pgdir 3 = uread (pmem s) ex_pgdir 3"
    by force+
  with t(1) u[of 3] show ?thesis by auto
qed

end
