(* ===== verification/Console.thy ===== *)
theory Console
  imports File
begin

text \<open>
  The console: formatted output, the character display and the serial port it is copied
  to, and line-edited input (\<^verbatim>\<open>kernel/console.c\<close>, \<^verbatim>\<open>kernel/uart.c\<close>). The display memory
  and the cursor register are the model's \<open>crt\<close> and \<open>crt_pos\<close>; the bytes sent to the
  serial port are the list \<open>com1\<close>. A call of \<open>consputc\<close> takes a C \<open>int\<close>.
\<close>

section \<open>State\<close>

definition INPUT_BUF :: nat where "INPUT_BUF = 128"
definition BACKSPACE :: int where "BACKSPACE = 0x100"
definition CONSOLE :: nat where "CONSOLE = 1"

record inputbuf =
  in_buf :: "uchar list"
  in_r :: uint
  in_w :: uint
  in_e :: uint

record consst =
  panicked :: bool
  locking :: bool
  uart :: bool
  com1 :: "uchar list"
  crt :: "nat \<Rightarrow> ushort"
  crt_pos :: nat

record constate = fstate +
  cons :: consst
  input :: inputbuf

section \<open>Characters out\<close>

text \<open>
  The wait of \<open>uartputc\<close> for the transmitter is bounded and has no effect on what is
  sent. In \<open>cgaputc\<close> the cursor registers hold 16 bits; a clearing count below zero would
  be a \<open>memset\<close> far outside the display.
\<close>

definition uartputc :: "int \<Rightarrow> consst \<Rightarrow> consst" where
  "uartputc c s = (if \<not> uart s then s else s\<lparr>com1 := com1 s @ [of_int c]\<rparr>)"

definition scroll_up :: "nat \<Rightarrow> (nat \<Rightarrow> ushort) \<Rightarrow> nat \<Rightarrow> ushort" where
  "scroll_up pos d = (\<lambda>i. if pos \<le> i \<and> i < 24 * 80 then 0
    else if i < 23 * 80 then d (i + 80) else d i)"

definition cgaputc :: "int \<Rightarrow> consst \<Rightarrow> (unit, consst) outcome" where
  "cgaputc c s =
    (let pos = crt_pos s;
         (d, pos) = (if c = 10 then (crt s, pos + (80 - pos mod 80))
           else if c = BACKSPACE then (crt s, if 0 < pos then pos - 1 else pos)
           else ((crt s)(pos := ucast (of_int c :: uchar) OR 0x0700), pos + 1))
     in if 24 \<le> pos div 80 then
          (if 24 * 80 < pos - 80 then Fault
           else Ret () (s\<lparr>crt := (scroll_up (pos - 80) d)(pos - 80 := 0x0720),
                         crt_pos := (pos - 80) mod 2 ^ 16\<rparr>))
        else Ret () (s\<lparr>crt := d(pos := 0x0720), crt_pos := pos mod 2 ^ 16\<rparr>))"

definition consputc :: "int \<Rightarrow> consst \<Rightarrow> (unit, consst) outcome" where
  "consputc c s =
    (if panicked s then Panic ''frozen''
     else cgaputc c (if c = BACKSPACE then uartputc 8 (uartputc 32 (uartputc 8 s)) else uartputc c s))"

definition consputs :: "int list \<Rightarrow> consst \<Rightarrow> (unit, consst) outcome" where
  "consputs cs s = ofor cs consputc s"

section \<open>Formatted output\<close>

text \<open>
  The conversions as the characters they pass to \<open>consputc\<close>, in order. A \<open>char\<close> is signed,
  so a byte from 128 on arrives as a negative \<open>int\<close>. \<open>printint\<close> is called with base 10 and
  16; its loop collects the digits from the lowest, and writes them from the last.
\<close>

definition digits :: "uchar list" where
  "digits = map of_char ''0123456789abcdef''"

definition char_int :: "uchar \<Rightarrow> int" where
  "char_int b = sint b"

primrec printptr_from :: "nat \<Rightarrow> uintp \<Rightarrow> uchar list" where
  "printptr_from 0 x = []"
| "printptr_from (Suc i) x = digits ! unat (drop_bit 60 x) # printptr_from i (push_bit 4 x)"

definition printptr :: "uintp \<Rightarrow> uchar list" where
  "printptr x = printptr_from 16 x"

function printint_loop :: "nat \<Rightarrow> nat \<Rightarrow> uchar list" where
  "printint_loop base x = digits ! (x mod base) #
    (if base \<le> 1 \<or> x div base = 0 then [] else printint_loop base (x div base))"
  by auto
termination
  by (relation "measure snd") (auto simp: div_greater_zero_iff intro!: div_less_dividend)

declare printint_loop.simps [simp del]

definition printint :: "uint \<Rightarrow> nat \<Rightarrow> bool \<Rightarrow> uchar list" where
  "printint xx base sign =
    (let sign = (sign \<and> sint xx < 0);
         x = (if sign then - xx else xx);
         buf = printint_loop base (unat x) @ (if sign then [of_char CHR ''-''] else [])
     in rev buf)"

datatype carg = CInt uint | CPtr uintp | CStr "uchar list option"

text \<open>
  \<open>cprintf\<close>: the format and the strings are the bytes before their terminating zero. An
  argument that is missing or of another kind than the conversion reads is undefined in C.
\<close>

definition null_str :: "uchar list" where
  "null_str = map of_char ''(null)''"

fun cprintf_chars :: "uchar list \<Rightarrow> carg list \<Rightarrow> uchar list option" where
  "cprintf_chars [] args = Some []"
| "cprintf_chars (c # fmt) args =
    (if c \<noteq> of_char CHR ''%'' then map_option ((#) c) (cprintf_chars fmt args)
     else case fmt of [] \<Rightarrow> Some []
       | d # rest \<Rightarrow>
         if d = of_char CHR ''d'' then
           (case args of CInt v # args \<Rightarrow> map_option ((@) (printint v 10 True)) (cprintf_chars rest args)
            | _ \<Rightarrow> None)
         else if d = of_char CHR ''x'' then
           (case args of CInt v # args \<Rightarrow> map_option ((@) (printint v 16 False)) (cprintf_chars rest args)
            | _ \<Rightarrow> None)
         else if d = of_char CHR ''p'' then
           (case args of CPtr v # args \<Rightarrow> map_option ((@) (printptr v)) (cprintf_chars rest args)
            | _ \<Rightarrow> None)
         else if d = of_char CHR ''s'' then
           (case args of CStr v # args \<Rightarrow>
              map_option ((@) (case v of None \<Rightarrow> null_str | Some t \<Rightarrow> t)) (cprintf_chars rest args)
            | _ \<Rightarrow> None)
         else if d = of_char CHR ''%'' then map_option ((#) d) (cprintf_chars rest args)
         else map_option (\<lambda>out. of_char CHR ''%'' # d # out) (cprintf_chars rest args))"

definition cprintf :: "uchar list \<Rightarrow> carg list \<Rightarrow> consst \<Rightarrow> (unit, consst) outcome" where
  "cprintf fmt args s = (case cprintf_chars fmt args of None \<Rightarrow> Fault
     | Some cs \<Rightarrow> consputs (map char_int cs) s)"

text \<open>
  \<open>panic\<close> prints the processor, the message (as a format) and the callers, and then freezes the
  console; the state is the one the machine stays in.
\<close>

definition panic :: "uint \<Rightarrow> uchar list \<Rightarrow> uintp list \<Rightarrow> consst \<Rightarrow> (unit, consst) outcome" where
  "panic cpu msg callers s =
    obind (cprintf (map of_char ''cpu%d: panic: '') [CInt cpu] (s\<lparr>locking := False\<rparr>)) (\<lambda>_ s.
    obind (cprintf msg [] s) (\<lambda>_ s.
    obind (cprintf [10] [] s) (\<lambda>_ s.
    obind (ofor callers (\<lambda>pc. cprintf (map of_char '' %p'') [CPtr pc]) s) (\<lambda>_ s.
    Ret () (s\<lparr>panicked := True\<rparr>)))))"

section \<open>Characters in\<close>

text \<open>
  One character of \<open>consoleintr\<close>: the new input buffer, the characters echoed, and whether
  readers are woken. Control-Z reloads an empty interrupt table, which resets the machine.
\<close>

abbreviation in_slot :: "uint \<Rightarrow> nat" where
  "in_slot i \<equiv> unat i mod INPUT_BUF"

function kill_line :: "inputbuf \<Rightarrow> nat \<times> inputbuf" where
  "kill_line i =
    (if in_e i \<noteq> in_w i \<and> in_buf i ! in_slot (in_e i - 1) \<noteq> 10
     then (let (n, i') = kill_line (i\<lparr>in_e := in_e i - 1\<rparr>) in (Suc n, i'))
     else (0, i))"
  by auto

lemma unat_step_down: "e \<noteq> w \<Longrightarrow> unat (e - 1 - w :: uint) < unat (e - w)"
proof -
  assume "e \<noteq> w"
  then have "e - w \<noteq> 0" by simp
  then have "unat (e - w - 1) < unat (e - w)" by (simp add: unat_minus_one unat_gt_0)
  then show ?thesis by (simp add: algebra_simps)
qed

termination kill_line
  by (relation "measure (\<lambda>i. unat (in_e i - in_w i))") (auto simp: unat_step_down)

declare kill_line.simps [simp del]

definition console_edit :: "int \<Rightarrow> inputbuf \<Rightarrow> inputbuf \<times> int list \<times> bool" where
  "console_edit c i =
    (if c = 21 then (let (n, i') = kill_line i in (i', replicate n BACKSPACE, False))
     else if c = 8 \<or> c = 127 then
       (if in_e i \<noteq> in_w i then (i\<lparr>in_e := in_e i - 1\<rparr>, [BACKSPACE], False) else (i, [], False))
     else if c \<noteq> 0 \<and> unat (in_e i - in_r i) < INPUT_BUF then
       (let c = (if c = 13 then 10 else c);
            i = i\<lparr>in_buf := (in_buf i)[in_slot (in_e i) := of_int c], in_e := in_e i + 1\<rparr>
        in if c = 10 \<or> c = 4 \<or> in_e i = in_r i + of_nat INPUT_BUF
           then (i\<lparr>in_w := in_e i\<rparr>, [c], True) else (i, [c], False))
     else (i, [], False))"

text \<open>
  \<open>consoleintr\<close> over the characters that successive calls of \<open>getc\<close> return until it returns a
  negative number; \<open>procdump\<close> is the listing of processes on control-P.
\<close>

definition with_cons :: "(consst \<Rightarrow> (unit, consst) outcome) \<Rightarrow> 'a constate_scheme \<Rightarrow>
    (unit, 'a constate_scheme) outcome" where
  "with_cons f s = (case f (cons s) of Ret _ c \<Rightarrow> Ret () (s\<lparr>cons := c\<rparr>)
     | Panic m \<Rightarrow> Panic m | Sleep c _ \<Rightarrow> Fault | Fault \<Rightarrow> Fault)"

definition consolechar :: "('a constate_scheme \<Rightarrow> (unit, 'a constate_scheme) outcome) \<Rightarrow> int \<Rightarrow>
    'a constate_scheme \<Rightarrow> (unit, 'a constate_scheme) outcome" where
  "consolechar procdump c s =
    (if c = 26 then Fault
     else if c = 16 then procdump s
     else (let (i, echo, wake) = console_edit c (input s)
           in obind (with_cons (consputs echo) (s\<lparr>input := i\<rparr>)) (\<lambda>_ s.
              Ret () (if wake then wakeup ChInput s else s))))"

primrec consoleintr :: "('a constate_scheme \<Rightarrow> (unit, 'a constate_scheme) outcome) \<Rightarrow> int list \<Rightarrow>
    'a constate_scheme \<Rightarrow> (unit, 'a constate_scheme) outcome" where
  "consoleintr procdump [] s = Ret () s"
| "consoleintr procdump (c # cs) s = (if c < 0 then Ret () s
     else obind (consolechar procdump c s) (\<lambda>_ s. consoleintr procdump cs s))"

definition uartgetc :: "bool \<Rightarrow> uchar option \<Rightarrow> int" where
  "uartgetc present rx = (if \<not> present then -1 else case rx of None \<Rightarrow> -1 | Some d \<Rightarrow> uint d)"

definition uartintr :: "('a constate_scheme \<Rightarrow> (unit, 'a constate_scheme) outcome) \<Rightarrow> uchar list \<Rightarrow>
    'a constate_scheme \<Rightarrow> (unit, 'a constate_scheme) outcome" where
  "uartintr procdump received s =
    consoleintr procdump (map (\<lambda>d. uartgetc (uart (cons s)) d) (map Some received @ [None])) s"

section \<open>The console as a device\<close>

datatype cres = CDone | CWait

primrec consoleread_from :: "nat \<Rightarrow> bool \<Rightarrow> inputbuf \<Rightarrow> cres \<times> uchar list \<times> inputbuf" where
  "consoleread_from 0 begun i = (CDone, [], i)"
| "consoleread_from (Suc n) begun i =
    (if in_r i = in_w i then (CWait, [], i)
     else let c = in_buf i ! in_slot (in_r i); i' = i\<lparr>in_r := in_r i + 1\<rparr>
          in if c = 4 then (CDone, [], if begun then i else i')
             else if c = 10 then (CDone, [c], i')
             else (let (k, cs, j) = consoleread_from n True i' in (k, c # cs, j)))"

definition consoleread :: "bool \<Rightarrow> 'a constate_scheme devread" where
  "consoleread killed ip n s =
    obind (iunlock ip s) (\<lambda>_ s.
      let (k, cs, i) = consoleread_from (nat (sint n)) False (input s); s = s\<lparr>input := i\<rparr>
      in if k = CWait \<and> \<not> killed then Sleep ChInput s
         else obind (ilock ip s) (\<lambda>_ s. Ret (if k = CWait then None else Some cs) s))"

definition consolewrite :: "'a constate_scheme devwrite" where
  "consolewrite ip src s =
    obind (iunlock ip s) (\<lambda>_ s.
    obind (with_cons (consputs (map uint src)) s) (\<lambda>_ s.
    obind (ilock ip s) (\<lambda>_ s. Ret (Some (length src)) s)))"

definition console_devsw :: "bool \<Rightarrow> 'a constate_scheme devsw" where
  "console_devsw killed =
    \<lparr>dev_read = (\<lambda>m. if m = CONSOLE then Some (consoleread killed) else None),
     dev_write = (\<lambda>m. if m = CONSOLE then Some consolewrite else None)\<rparr>"

definition consoleinit :: "consst \<Rightarrow> consst" where
  "consoleinit s = s\<lparr>locking := True\<rparr>"

section \<open>The input buffer as two byte strings\<close>

text \<open>
  The abstract input: the bytes that readers may take and the line being edited.
\<close>

definition ring :: "uchar list \<Rightarrow> uint \<Rightarrow> nat \<Rightarrow> uchar list" where
  "ring d i n = map (\<lambda>k. d ! in_slot (i + of_nat k)) [0..<n]"

definition committed_input :: "inputbuf \<Rightarrow> uchar list" where
  "committed_input i = ring (in_buf i) (in_r i) (unat (in_w i - in_r i))"

definition edited_line :: "inputbuf \<Rightarrow> uchar list" where
  "edited_line i = ring (in_buf i) (in_w i) (unat (in_e i - in_w i))"

definition input_ok :: "inputbuf \<Rightarrow> bool" where
  "input_ok i \<longleftrightarrow> length (in_buf i) = INPUT_BUF \<and>
    unat (in_w i - in_r i) + unat (in_e i - in_w i) \<le> INPUT_BUF \<and> 10 \<notin> set (edited_line i)"

definition line_spec :: "int \<Rightarrow> uchar list \<times> uchar list \<Rightarrow> uchar list \<times> uchar list" where
  "line_spec c = (\<lambda>(ready, line).
    if c = 21 then (ready, [])
    else if c = 8 \<or> c = 127 then (ready, butlast line)
    else if c = 0 \<or> INPUT_BUF \<le> length ready + length line then (ready, line)
    else let c = (if c = 13 then 10 else c); line = line @ [of_int c]
         in if c = 10 \<or> c = 4 \<or> length ready + length line = INPUT_BUF then (ready @ line, [])
            else (ready, line))"

lemma length_ring [simp]: "length (ring d i n) = n"
  by (simp add: ring_def)

lemma ring_0 [simp]: "ring d i 0 = []"
  by (simp add: ring_def)

lemma ring_snoc: "ring d i (Suc n) = ring d i n @ [d ! in_slot (i + of_nat n)]"
  by (simp add: ring_def)

lemma ring_Cons: "ring d i (Suc n) = d ! in_slot i # ring d (i + 1) n"
  unfolding ring_def by (simp add: upt_conv_Cons map_Suc_upt[symmetric] comp_def add.assoc del: upt_Suc)

lemma ring_append: "ring d i (m + n) = ring d i m @ ring d (i + of_nat m) n"
  by (induction n) (simp_all add: ring_snoc add.assoc)

lemma in_slot_add: "in_slot (i + of_nat k) = (unat i + k) mod INPUT_BUF"
proof -
  have d: "INPUT_BUF dvd 2 ^ LENGTH(32)" by (simp add: INPUT_BUF_def)
  have "unat (i + of_nat k) mod INPUT_BUF = (unat i + unat (of_nat k :: uint)) mod INPUT_BUF"
    unfolding unat_word_ariths(1) by (rule mod_mod_cancel[OF d])
  also have "\<dots> = (unat i + k) mod INPUT_BUF"
    unfolding unat_of_nat by (metis d mod_add_right_eq mod_mod_cancel take_bit_eq_mod)
  finally show ?thesis .
qed

lemma ring_update_outside:
  "n \<le> m \<Longrightarrow> m < INPUT_BUF \<Longrightarrow> ring (d[in_slot (i + of_nat m) := b]) i n = ring d i n"
  unfolding ring_def
proof (rule map_cong[OF refl])
  fix k assume "n \<le> m" "m < INPUT_BUF" "k \<in> set [0..<n]"
  then have "in_slot (i + of_nat k) \<noteq> in_slot (i + of_nat m)"
    unfolding in_slot_add by (intro mod_distinct) auto
  then show "d[in_slot (i + of_nat m) := b] ! in_slot (i + of_nat k) = d ! in_slot (i + of_nat k)"
    by simp
qed

lemma unat_succ_less: "unat x < INPUT_BUF \<Longrightarrow> unat (x + 1 :: uint) = Suc (unat x)"
  unfolding unat_word_ariths(1)[of _ 1] by (simp add: INPUT_BUF_def)

lemma whole_length:
  assumes "input_ok i"
  shows "unat (in_e i - in_r i) = unat (in_w i - in_r i) + unat (in_e i - in_w i)"
proof -
  have e: "in_e i - in_r i = (in_w i - in_r i) + (in_e i - in_w i)" by simp
  have "unat (in_w i - in_r i) + unat (in_e i - in_w i) < 2 ^ LENGTH(32)"
    using assms by (simp add: input_ok_def INPUT_BUF_def)
  then show ?thesis unfolding e unat_word_ariths(1) by (rule mod_less)
qed

lemma lengths: "length (committed_input i) = unat (in_w i - in_r i)"
    "length (edited_line i) = unat (in_e i - in_w i)"
  by (simp_all add: committed_input_def edited_line_def)

lemma whole_ring:
  assumes "input_ok i"
  shows "ring (in_buf i) (in_r i) (unat (in_e i - in_r i)) = committed_input i @ edited_line i"
  unfolding whole_length[OF assms] ring_append committed_input_def edited_line_def by simp

lemma line_empty_iff: "in_e i = in_w i \<longleftrightarrow> edited_line i = []"
proof -
  have "in_e i = in_w i \<longleftrightarrow> unat (in_e i - in_w i) = 0" by (simp add: unat_eq_zero)
  then show ?thesis by (simp flip: lengths(2))
qed

lemma line_back:
  assumes "input_ok i" "in_e i \<noteq> in_w i"
  defines "j \<equiv> i\<lparr>in_e := in_e i - 1\<rparr>"
  shows "edited_line i = edited_line j @ [in_buf i ! in_slot (in_e i - 1)]"
    "committed_input j = committed_input i" "input_ok j"
proof -
  have nz: "in_e i - in_w i \<noteq> 0" using assms(2) by simp
  have e: "in_e i - 1 - in_w i = in_e i - in_w i - 1" by simp
  have len: "unat (in_e i - in_w i) = Suc (unat (in_e i - 1 - in_w i))"
    unfolding e using nz by (simp add: unat_minus_one unat_gt_0)
  show line: "edited_line i = edited_line j @ [in_buf i ! in_slot (in_e i - 1)]"
    unfolding edited_line_def j_def using len by (simp add: ring_snoc)
  show "committed_input j = committed_input i" by (simp add: committed_input_def j_def)
  show "input_ok j" using assms(1) len line by (auto simp: input_ok_def j_def)
qed

lemma kill_line_all:
  "input_ok i \<Longrightarrow> input_ok (snd (kill_line i)) \<and> edited_line (snd (kill_line i)) = [] \<and>
    committed_input (snd (kill_line i)) = committed_input i \<and> fst (kill_line i) = length (edited_line i)"
proof (induction i rule: kill_line.induct)
  case (1 i)
  show ?case
  proof (cases "in_e i = in_w i")
    case True
    then show ?thesis using 1(2) line_empty_iff[of i] by (subst (1 2 3 4) kill_line.simps) simp
  next
    case False
    note b = line_back[OF 1(2) False]
    have "in_buf i ! in_slot (in_e i - 1) \<noteq> 10" using 1(2) b(1) by (auto simp: input_ok_def)
    moreover note 1(1)[OF conjI[OF False calculation] b(3)]
    ultimately show ?thesis
      using False b by (subst (1 2 3 4) kill_line.simps) (simp add: case_prod_beta)
  qed
qed

definition put_input :: "uchar \<Rightarrow> inputbuf \<Rightarrow> inputbuf" where
  "put_input b i = i\<lparr>in_buf := (in_buf i)[in_slot (in_e i) := b], in_e := in_e i + 1\<rparr>"

lemma put_input_line:
  assumes "input_ok i" "unat (in_e i - in_r i) < INPUT_BUF"
  shows "edited_line (put_input b i) = edited_line i @ [b]"
    "committed_input (put_input b i) = committed_input i"
    "unat (in_e (put_input b i) - in_r i) = Suc (unat (in_e i - in_r i))"
    "b \<noteq> 10 \<Longrightarrow> input_ok (put_input b i)"
proof -
  let ?E = "unat (in_e i - in_w i)" and ?W = "unat (in_w i - in_r i)"
  have we: "?W + ?E < INPUT_BUF" using assms whole_length by simp
  have e: "in_w i + of_nat ?E = in_e i" by simp
  have r: "in_r i + of_nat (?W + ?E) = in_e i" unfolding whole_length[OF assms(1), symmetric] by simp
  have slot: "in_slot (in_e i) < length (in_buf i)" using assms(1) by (simp add: input_ok_def INPUT_BUF_def)
  have len: "unat (in_e i + 1 - in_w i) = Suc ?E"
  proof -
    have e1: "in_e i + 1 - in_w i = (in_e i - in_w i) + 1" by simp
    show ?thesis unfolding e1 using unat_succ_less[of "in_e i - in_w i"] we by simp
  qed
  show line: "edited_line (put_input b i) = edited_line i @ [b]"
    using ring_update_outside[of ?E ?E "in_buf i" "in_w i" b] we slot
    by (simp add: edited_line_def put_input_def len ring_snoc e)
  show "committed_input (put_input b i) = committed_input i"
    using ring_update_outside[of ?W "?W + ?E" "in_buf i" "in_r i" b] we
    unfolding r by (simp add: committed_input_def put_input_def)
  have "in_e (put_input b i) - in_r i = (in_e i - in_r i) + 1" by (simp add: put_input_def)
  then show "unat (in_e (put_input b i) - in_r i) = Suc (unat (in_e i - in_r i))"
    using unat_succ_less[OF assms(2)] by (simp only:)
  show "input_ok (put_input b i)" if "b \<noteq> 10"
    using assms(1) that we len line by (simp add: input_ok_def) (simp add: put_input_def len)
qed

definition commit_input :: "inputbuf \<Rightarrow> inputbuf" where
  "commit_input i = i\<lparr>in_w := in_e i\<rparr>"

lemma commit_input_line:
  assumes "unat (in_e i - in_r i) = unat (in_w i - in_r i) + unat (in_e i - in_w i)"
    "unat (in_e i - in_r i) \<le> INPUT_BUF" "length (in_buf i) = INPUT_BUF"
  shows "edited_line (commit_input i) = []" "input_ok (commit_input i)"
    "committed_input (commit_input i) = committed_input i @ edited_line i"
proof -
  show e: "edited_line (commit_input i) = []" by (simp add: commit_input_def edited_line_def)
  show "input_ok (commit_input i)" using assms(2,3) e by (simp add: input_ok_def) (simp add: commit_input_def)
  show "committed_input (commit_input i) = committed_input i @ edited_line i"
    by (simp add: committed_input_def edited_line_def commit_input_def assms(1) ring_append)
qed

lemma put_input_fields [simp]: "in_w (put_input b i) = in_w i" "in_r (put_input b i) = in_r i"
    "length (in_buf (put_input b i)) = length (in_buf i)"
  by (simp_all add: put_input_def)

lemma commit_put_line:
  assumes "input_ok i" "unat (in_e i - in_r i) < INPUT_BUF"
  shows "edited_line (commit_input (put_input b i)) = []" "input_ok (commit_input (put_input b i))"
    "committed_input (commit_input (put_input b i)) = committed_input i @ edited_line i @ [b]"
proof -
  note p = put_input_line[OF assms]
  have "unat (in_e (put_input b i) - in_w i) = Suc (unat (in_e i - in_w i))"
    using arg_cong[OF p(1)[of b], of length] by (simp add: lengths)
  then have w: "unat (in_e (put_input b i) - in_r (put_input b i)) =
      unat (in_w (put_input b i) - in_r (put_input b i)) + unat (in_e (put_input b i) - in_w (put_input b i))"
    using p(3) whole_length[OF assms(1)] by simp
  have le: "unat (in_e (put_input b i) - in_r (put_input b i)) \<le> INPUT_BUF"
    using p(3) assms(2) by simp
  have l: "length (in_buf (put_input b i)) = INPUT_BUF" using assms(1) by (simp add: input_ok_def)
  note c = commit_input_line[OF w le l]
  show "edited_line (commit_input (put_input b i)) = []" by (rule c)
  show "input_ok (commit_input (put_input b i))" by (rule c)
  show "committed_input (commit_input (put_input b i)) = committed_input i @ edited_line i @ [b]"
    using c(3) p(1,2) by simp
qed

lemma console_edit_put:
  "c \<notin> {0, 8, 21, 127} \<Longrightarrow> unat (in_e i - in_r i) < INPUT_BUF \<Longrightarrow> console_edit c i =
    (let c = (if c = 13 then 10 else c); j = put_input (of_int c) i
     in if c = 10 \<or> c = 4 \<or> in_e j = in_r j + of_nat INPUT_BUF then (commit_input j, [c], True)
        else (j, [c], False))"
  by (simp add: console_edit_def put_input_def commit_input_def Let_def)

lemma full_iff: "e = r + of_nat INPUT_BUF \<longleftrightarrow> unat (e - r :: uint) = INPUT_BUF"
proof -
  have "e = r + of_nat INPUT_BUF \<longleftrightarrow> e - r = of_nat INPUT_BUF" by (auto simp: algebra_simps)
  then show ?thesis by (simp add: INPUT_BUF_def word_unat_eq_iff)
qed

lemma of_int_byte_eq:
  assumes "0 \<le> c" "c < 256" "0 \<le> d" "d < 256" shows "(of_int c :: uchar) = of_int d \<longleftrightarrow> c = d"
proof -
  have "uint (of_int c :: uchar) = c" "uint (of_int d :: uchar) = d"
    using assms by (simp_all add: uint_word_of_int)
  then show ?thesis by metis
qed

lemma console_edit_spec:
  assumes ok: "input_ok i" and c: "0 \<le> c" "c < 256"
  defines "j \<equiv> fst (console_edit c i)"
  shows "input_ok j \<and> (committed_input j, edited_line j) = line_spec c (committed_input i, edited_line i)"
proof -
  consider "c = 21" | "c = 8 \<or> c = 127" | "c \<notin> {21, 8, 127}" "c = 0 \<or> INPUT_BUF \<le> unat (in_e i - in_r i)"
    | "c \<notin> {0, 21, 8, 127}" "unat (in_e i - in_r i) < INPUT_BUF" by fastforce
  then show ?thesis
  proof cases
    case 1
    then show ?thesis using kill_line_all[OF ok]
      by (simp add: j_def console_edit_def line_spec_def case_prod_beta)
  next
    case 2
    show ?thesis
    proof (cases "in_e i = in_w i")
      case True
      then show ?thesis using 2 ok line_empty_iff[of i] by (auto simp: j_def console_edit_def line_spec_def)
    next
      case False
      then show ?thesis using 2 line_back[OF ok False] by (auto simp: j_def console_edit_def line_spec_def)
    qed
  next
    case 3
    then show ?thesis using ok whole_length[OF ok]
      by (auto simp: j_def console_edit_def line_spec_def lengths)
  next
    case 4
    define d where "d = (if c = 13 then 10 else c)"
    let ?p = "put_input (of_int d) i"
    note p = put_input_line[OF ok 4(2), of "of_int d"]
    have len: "length (committed_input i) + length (edited_line i) = unat (in_e i - in_r i)"
      using whole_length[OF ok] by (simp add: lengths)
    have full: "in_e ?p = in_r ?p + of_nat INPUT_BUF \<longleftrightarrow> Suc (unat (in_e i - in_r i)) = INPUT_BUF"
      unfolding full_iff using p(3) by simp
    have ed: "console_edit c i = (if d = 10 \<or> d = 4 \<or> Suc (unat (in_e i - in_r i)) = INPUT_BUF
        then (commit_input ?p, [d], True) else (?p, [d], False))"
      using console_edit_put[OF _ 4(2), of c] 4(1) full by (simp add: d_def Let_def)
    have sp: "line_spec c (committed_input i, edited_line i) =
        (if d = 10 \<or> d = 4 \<or> Suc (unat (in_e i - in_r i)) = INPUT_BUF
         then (committed_input i @ edited_line i @ [of_int d], [])
         else (committed_input i, edited_line i @ [of_int d]))"
      using 4 len by (simp add: line_spec_def d_def Let_def)
    show ?thesis
    proof (cases "d = 10 \<or> d = 4 \<or> Suc (unat (in_e i - in_r i)) = INPUT_BUF")
      case True
      then show ?thesis unfolding sp j_def ed using commit_put_line[OF ok 4(2), of "of_int d"] by simp
    next
      case False
      then have "(of_int d :: uchar) \<noteq> of_int 10" using c of_int_byte_eq[of d 10] by (auto simp: d_def)
      then show ?thesis unfolding sp j_def ed using False p by simp
    qed
  qed
qed

text \<open>What a read takes of the bytes that are ready.\<close>

fun read_spec :: "nat \<Rightarrow> bool \<Rightarrow> uchar list \<Rightarrow> cres \<times> uchar list \<times> uchar list" where
  "read_spec 0 begun q = (CDone, [], q)"
| "read_spec (Suc n) begun [] = (CWait, [], [])"
| "read_spec (Suc n) begun (c # q) =
    (if c = 4 then (CDone, [], if begun then c # q else q)
     else if c = 10 then (CDone, [c], q)
     else (let (k, cs, r) = read_spec n True q in (k, c # cs, r)))"

lemma take_input:
  assumes "input_ok i" "in_r i \<noteq> in_w i"
  defines "j \<equiv> i\<lparr>in_r := in_r i + 1\<rparr>"
  shows "committed_input i = in_buf i ! in_slot (in_r i) # committed_input j"
    "edited_line j = edited_line i" "input_ok j"
proof -
  have nz: "in_w i - in_r i \<noteq> 0" using assms(2) by simp
  have e: "in_w i - (in_r i + 1) = in_w i - in_r i - 1" by simp
  have len: "unat (in_w i - in_r i) = Suc (unat (in_w i - (in_r i + 1)))"
    unfolding e using nz by (simp add: unat_minus_one unat_gt_0)
  show "committed_input i = in_buf i ! in_slot (in_r i) # committed_input j"
    unfolding committed_input_def len by (simp add: j_def ring_Cons)
  show l: "edited_line j = edited_line i" by (simp add: edited_line_def j_def)
  show "input_ok j" using assms(1) len l by (simp add: input_ok_def) (simp add: j_def)
qed

lemma ready_empty_iff: "in_r i = in_w i \<longleftrightarrow> committed_input i = []"
proof -
  have "in_r i = in_w i \<longleftrightarrow> unat (in_w i - in_r i) = 0" by (auto simp: unat_eq_zero)
  then show ?thesis by (simp flip: lengths(1))
qed

lemma consoleread_from_spec:
  assumes "input_ok i" "consoleread_from n begun i = (k, cs, j)"
  shows "read_spec n begun (committed_input i) = (k, cs, committed_input j) \<and>
    edited_line j = edited_line i \<and> input_ok j"
  using assms
proof (induction n arbitrary: begun i k cs j)
  case (Suc n)
  show ?case
  proof (cases "in_r i = in_w i")
    case True
    then show ?thesis using Suc.prems ready_empty_iff[of i] by simp
  next
    case False
    note t = take_input[OF Suc.prems(1) False]
    show ?thesis
    proof (cases "in_buf i ! in_slot (in_r i) \<in> {4, 10}")
      case True
      then show ?thesis using Suc.prems False t by (auto simp: Let_def split: if_splits)
    next
      case plain: False
      obtain k' cs' j' where r: "consoleread_from n True (i\<lparr>in_r := in_r i + 1\<rparr>) = (k', cs', j')"
        using prod_cases3 by blast
      then have "k = k'" "cs = in_buf i ! in_slot (in_r i) # cs'" "j = j'"
        using Suc.prems(2) False plain by (auto simp: Let_def)
      then show ?thesis using Suc.IH[OF t(3) r] plain t(1,2) by (simp add: Let_def)
    qed
  qed
qed simp

text \<open>Keys and reads in any order, on the buffer and on the pair of byte strings.\<close>

datatype in_event = Typed uchar | Taken nat

primrec in_run :: "in_event list \<Rightarrow> inputbuf \<Rightarrow> (cres \<times> uchar list) list \<times> inputbuf" where
  "in_run [] i = ([], i)"
| "in_run (e # es) i = (case e of
      Typed c \<Rightarrow> in_run es (fst (console_edit (uint c) i))
    | Taken n \<Rightarrow> (let (k, cs, j) = consoleread_from n False i; (out, i') = in_run es j
                  in ((k, cs) # out, i')))"

primrec in_spec :: "in_event list \<Rightarrow> uchar list \<times> uchar list \<Rightarrow>
    (cres \<times> uchar list) list \<times> uchar list \<times> uchar list" where
  "in_spec [] q = ([], q)"
| "in_spec (e # es) q = (case e of
      Typed c \<Rightarrow> in_spec es (line_spec (uint c) q)
    | Taken n \<Rightarrow> (let (k, cs, r) = read_spec n False (fst q); (out, q') = in_spec es (r, snd q)
                  in ((k, cs) # out, q')))"

section \<open>The display\<close>

definition on_display :: "consst \<Rightarrow> bool" where
  "on_display s \<longleftrightarrow> crt_pos s < 24 * 80"

lemma uartputc_fields [simp]: "crt (uartputc c s) = crt s" "crt_pos (uartputc c s) = crt_pos s"
    "panicked (uartputc c s) = panicked s" "uart (uartputc c s) = uart s" "locking (uartputc c s) = locking s"
  by (simp_all add: uartputc_def)

lemma cgaputc_runs:
  assumes "on_display s"
  shows "runs (cgaputc c s) (\<lambda>_ t. on_display t \<and> (\<forall>i \<ge> 24 * 80. crt t i = crt s i) \<and>
    panicked t = panicked s \<and> uart t = uart s \<and> com1 t = com1 s)"
proof -
  have p: "crt_pos s < 1920" using assms by (simp add: on_display_def)
  have r: "crt_pos s + (80 - crt_pos s mod 80) \<le> 1920"
  proof -
    have "crt_pos s div 80 < 24" using p by (simp add: less_mult_imp_div_less)
    moreover have "crt_pos s + (80 - crt_pos s mod 80) = 80 * (crt_pos s div 80) + 80"
      by (metis add.assoc le_add_diff_inverse less_imp_le mod_less_divisor mult_div_mod_eq
          zero_less_numeral)
    ultimately show ?thesis by linarith
  qed
  have d: "24 \<le> q div 80 \<longleftrightarrow> 1920 \<le> q" for q :: nat
    by (simp add: less_eq_div_iff_mult_less_eq)
  show ?thesis
    using p r by (simp add: cgaputc_def Let_def on_display_def scroll_up_def d BACKSPACE_def) arith
qed

definition sent :: "int \<Rightarrow> uchar list" where
  "sent c = (if c = BACKSPACE then [8, 32, 8] else [of_int c])"

lemma consputc_runs:
  assumes "on_display s" "\<not> panicked s"
  shows "runs (consputc c s) (\<lambda>_ t. on_display t \<and> (\<forall>i \<ge> 24 * 80. crt t i = crt s i) \<and>
    \<not> panicked t \<and> uart t = uart s \<and> com1 t = com1 s @ (if uart s then sent c else []))"
proof -
  define u where "u = (if c = BACKSPACE then uartputc 8 (uartputc 32 (uartputc 8 s)) else uartputc c s)"
  have "on_display u" "com1 u = com1 s @ (if uart s then sent c else [])" "crt u = crt s"
    "panicked u = panicked s" "uart u = uart s"
    using assms(1) by (simp_all add: u_def on_display_def sent_def uartputc_def)
  moreover have "consputc c s = cgaputc c u" using assms(2) by (simp add: consputc_def u_def)
  ultimately show ?thesis using cgaputc_runs[of u c] assms(2) by (auto simp: runs_iff)
qed

lemma consputs_runs:
  assumes "on_display s" "\<not> panicked s"
  shows "runs (consputs cs s) (\<lambda>_ t. on_display t \<and> (\<forall>i \<ge> 24 * 80. crt t i = crt s i) \<and>
    \<not> panicked t \<and> uart t = uart s \<and> com1 t = com1 s @ (if uart s then concat (map sent cs) else []))"
  using assms
proof (induction cs arbitrary: s)
  case (Cons c cs)
  from consputc_runs[OF Cons.prems, of c] obtain t where
    t: "consputc c s = Ret () t" "on_display t" "\<forall>i \<ge> 24 * 80. crt t i = crt s i" "\<not> panicked t"
      "uart t = uart s" "com1 t = com1 s @ (if uart s then sent c else [])"
    by (auto simp: runs_iff)
  have "consputs (c # cs) s = consputs cs t" using t(1) by (simp add: consputs_def)
  then show ?case using Cons.IH[OF t(2,4)] t by (auto simp: runs_iff)
qed (simp add: consputs_def)

section \<open>Numbers printed\<close>

definition digit_val :: "uchar \<Rightarrow> nat" where
  "digit_val d = (case find_idx (\<lambda>c. c = d) digits of Some k \<Rightarrow> k | None \<Rightarrow> 0)"

definition number :: "nat \<Rightarrow> uchar list \<Rightarrow> nat" where
  "number base ds = foldl (\<lambda>v d. v * base + digit_val d) 0 ds"

lemma digit_val_all: "list_all (\<lambda>k. digit_val (digits ! k) = k) [0..<16]"
  by code_simp

lemma digit_val_digits [simp]: "k < 16 \<Longrightarrow> digit_val (digits ! k) = k"
  using digit_val_all by (simp add: list_all_iff)

lemma number_snoc: "number b (ds @ [d]) = number b ds * b + digit_val d"
  by (simp add: number_def)

lemma number_Cons: "number b (d # ds) = digit_val d * b ^ length ds + number b ds"
proof (induction ds rule: rev_induct)
  case (snoc e ds)
  then show ?case unfolding append_Cons[symmetric] number_snoc by (simp add: algebra_simps)
qed (simp add: number_def)

lemma printint_loop_number:
  "1 < b \<Longrightarrow> b \<le> 16 \<Longrightarrow> number b (rev (printint_loop b x)) = x"
proof (induction b x rule: printint_loop.induct)
  case (1 b x)
  have m: "x mod b < 16" using 1(2,3) by (meson le_trans less_le_trans mod_less_divisor zero_less_one less_trans)
  show ?case
  proof (cases "x div b = 0")
    case True
    then have "x mod b = x" using 1(2) by (simp add: div_eq_0_iff)
    then show ?thesis using True m
      by (subst printint_loop.simps) (simp add: number_def)
  next
    case False
    then have "number b (rev (printint_loop b (x div b))) = x div b" using 1 by simp
    then show ?thesis using False 1(2) m
      by (subst printint_loop.simps) (simp add: number_snoc)
  qed
qed

lemma printint_loop_length:
  "1 < b \<Longrightarrow> x < b ^ Suc k \<Longrightarrow> length (printint_loop b x) \<le> Suc k"
proof (induction k arbitrary: x)
  case 0
  then have "x div b = 0" by (simp add: div_eq_0_iff)
  then show ?case by (subst printint_loop.simps) simp
next
  case (Suc k)
  have "x div b < b ^ Suc k" using Suc.prems by (simp add: less_mult_imp_div_less mult.commute)
  then show ?case using Suc.IH[OF Suc.prems(1)] by (subst printint_loop.simps) simp
qed

lemma length_printptr_from [simp]: "length (printptr_from i x) = i"
  by (induction i arbitrary: x) simp_all

lemma printptr_from_number:
  "i \<le> 16 \<Longrightarrow> number 16 (printptr_from i x) = unat x div 2 ^ (64 - 4 * i)"
proof (induction i arbitrary: x)
  case 0
  have "unat x < 2 ^ 64" using unsigned_less[of x] by simp
  then show ?case by (simp add: number_def)
next
  case (Suc i)
  define top lo where "top = unat x div 2 ^ 60" and "lo = unat x mod 2 ^ 60"
  have x: "unat x = top * 2 ^ 60 + lo" by (simp add: top_def lo_def)
  have lo: "lo < 2 ^ 60" by (simp add: lo_def)
  have "unat x < 2 ^ 64" using unsigned_less[of x] by simp
  then have top: "top < 16" by (simp add: top_def less_mult_imp_div_less)
  have sh: "unat (push_bit 4 x) = 16 * lo"
  proof -
    have "unat (push_bit 4 x) = (unat x * 16) mod 2 ^ 64"
      by (simp add: push_bit_eq_mult unat_word_ariths(2))
    also have "unat x * 16 = top * 2 ^ 64 + 16 * lo" by (simp add: x)
    also have "\<dots> mod 2 ^ 64 = 16 * lo" using lo by simp
    finally show ?thesis .
  qed
  have e1: "64 - 4 * i = 4 + (60 - 4 * i)" and e2: "64 - 4 * Suc i = 60 - 4 * i" using Suc.prems by simp_all
  have p60: "(2 :: nat) ^ 60 = 2 ^ (4 * i) * 2 ^ (60 - 4 * i)"
    using Suc.prems by (simp flip: power_add)
  have d: "unat (drop_bit 60 x) = top" unfolding top_def unat_drop_bit_eq by (rule drop_bit_eq_div)
  have "number 16 (printptr_from (Suc i) x) = top * 16 ^ i + 16 * lo div 2 ^ (64 - 4 * i)"
    using Suc.IH[of "push_bit 4 x"] Suc.prems sh d top by (simp add: number_Cons)
  also have "16 * lo div 2 ^ (64 - 4 * i) = lo div 2 ^ (60 - 4 * i)"
    unfolding e1 power_add by simp
  also have "top * 16 ^ i + lo div 2 ^ (60 - 4 * i) = (top * 2 ^ 60 + lo) div 2 ^ (60 - 4 * i)"
    unfolding p60 by (simp add: mult.assoc[symmetric] power_mult)
  finally show ?case unfolding e2 x .
qed

lemma sint_via_uint: "sint (x :: uint) = uint x - 2 ^ 32 * of_bool (bit (uint x) 31)"
proof -
  have "uint x < 2 ^ 32" using unsigned_less[of x] by simp
  then show ?thesis
    unfolding sint_uint by (simp add: signed_take_bit_eq_take_bit_minus take_bit_eq_mod)
qed

lemma uint_nonneg: "\<not> sint (x :: uint) < 0 \<Longrightarrow> uint x = sint x"
  using sint_via_uint[of x] unsigned_less[of x] by (cases "bit (uint x) 31") auto

lemma uint_neg:
  assumes "sint (x :: uint) < 0" shows "int (unat (- x)) = - sint x"
proof -
  have lt: "uint x < 2 ^ 32" using unsigned_less[of x] by simp
  note s = sint_via_uint[of x]
  then have "sint x = uint x - 2 ^ 32" using assms uint_ge_0[of x] by (cases "bit (uint x) 31") auto
  moreover have nz: "0 < uint x" using assms uint_ge_0[of x] by (cases "x = 0") (auto simp: less_le uint_0_iff)
  then have "uint (- x) = 2 ^ 32 - uint x"
    using lt by (simp add: uint_word_ariths zmod_zminus1_eq_if)
  ultimately show ?thesis by simp
qed

section \<open>Properties\<close>


definition ex_input :: inputbuf where
  "ex_input = \<lparr>in_buf = replicate 128 0, in_r = -2, in_w = -2, in_e = -2\<rparr>"

lemma ex_input_ok: "input_ok ex_input"
  by (simp add: input_ok_def ex_input_def INPUT_BUF_def edited_line_def)


text \<open>
  C21: Writing any sequence of characters to the console terminates normally, keeps the cursor
  inside the 24 rows of the display, never touches display memory beyond them, and sends the
  same characters to the serial port when there is one, an erase as backspace, space,
  backspace.
\<close>

theorem consputs_in_display:
  assumes "on_display s" "\<not> panicked s"
  shows "runs (consputs cs s) (\<lambda>_ t. on_display t \<and> (\<forall>i. 24 * 80 \<le> i \<longrightarrow> crt t i = crt s i) \<and>
    com1 t = com1 s @ (if uart s then concat (map sent cs) else []))"
  by (rule runs_mono[OF consputs_runs[OF assms]]) blast

definition ex_cons :: consst where
  "ex_cons = \<lparr>panicked = False, locking = True, uart = True, com1 = [], crt = (\<lambda>_. 0), crt_pos = 1919\<rparr>"

lemma consputs_in_display_witness:
  "runs (consputs [65, 10, BACKSPACE] ex_cons) (\<lambda>_ t. on_display t \<and> com1 t = [65, 10, 8, 32, 8])"
proof -
  have "on_display ex_cons" "\<not> panicked ex_cons" by (simp_all add: ex_cons_def on_display_def)
  from consputs_in_display[OF this, of "[65, 10, BACKSPACE]"] show ?thesis
    by (auto simp: runs_iff ex_cons_def sent_def BACKSPACE_def)
qed


end
