(* ===== verification/Kbd.thy ===== *)
theory Kbd
  imports Console
begin

text \<open>
  The keyboard: scan codes of the PC keyboard to characters (\<^verbatim>\<open>include/kbd.h\<close>,
  \<^verbatim>\<open>kernel/kbd.c\<close>). The byte in the controller's data port is an argument, \<open>None\<close> when its
  status port shows no data; the static variable \<open>shift\<close> is passed and returned.
\<close>

section \<open>Tables\<close>

definition SHIFT :: uint where "SHIFT = 1"
definition CTL :: uint where "CTL = 2"
definition ALT :: uint where "ALT = 4"
definition CAPSLOCK :: uint where "CAPSLOCK = 8"
definition NUMLOCK :: uint where "NUMLOCK = 16"
definition SCROLLLOCK :: uint where "SCROLLLOCK = 32"
definition E0ESC :: uint where "E0ESC = 64"

definition shiftcode :: "uchar \<Rightarrow> uint" where
  "shiftcode d = (if d = 0x1D then CTL else if d = 0x2A then SHIFT else if d = 0x36 then SHIFT
    else if d = 0x38 then ALT else if d = 0x9D then CTL else if d = 0xB8 then ALT else 0)"

definition togglecode :: "uchar \<Rightarrow> uint" where
  "togglecode d = (if d = 0x3A then CAPSLOCK else if d = 0x45 then NUMLOCK
    else if d = 0x46 then SCROLLLOCK else 0)"

definition keys :: "string \<Rightarrow> uchar list" where
  "keys = map of_char"

definition ctl_keys :: "string \<Rightarrow> uchar list" where
  "ctl_keys = map (\<lambda>c. of_char c - 64)"

definition special_keys :: "(uchar \<times> uchar) list" where
  "special_keys = [(0xC8, 0xE2), (0xD0, 0xE3), (0xC9, 0xE6), (0xD1, 0xE7), (0xCB, 0xE4), (0xCD, 0xE5),
    (0x97, 0xE0), (0xCF, 0xE1), (0xD2, 0xE8), (0xD3, 0xE9)]"

definition key_map :: "uchar list \<Rightarrow> (uchar \<times> uchar) list \<Rightarrow> uchar \<Rightarrow> uchar" where
  "key_map low special d = (case map_of special d of Some c \<Rightarrow> c
    | None \<Rightarrow> if unat d < length low then low ! unat d else 0)"

definition normalmap :: "uchar \<Rightarrow> uchar" where
  "normalmap = key_map
    ([0, 0x1B] @ keys ''1234567890-='' @ [8, 9] @ keys ''qwertyuiop[]'' @ [10, 0] @
     keys ''asdfghjkl;'' @ [39, 96, 0, 92] @ keys ''zxcvbnm,./'' @ [0] @ keys ''*'' @ [0, 32] @
     replicate 13 0 @ keys ''789-456+1230.'')
    ([(0x9C, 10), (0xB5, 47)] @ special_keys)"

definition shiftmap :: "uchar \<Rightarrow> uchar" where
  "shiftmap = key_map
    ([0, 27] @ keys ''!@#$%^&*()_+'' @ [8, 9] @ keys ''QWERTYUIOP{}'' @ [10, 0] @
     keys ''ASDFGHJKL:'' @ [34, 126, 0, 124] @ keys ''ZXCVBNM<>?'' @ [0] @ keys ''*'' @ [0, 32] @
     replicate 13 0 @ keys ''789-456+1230.'')
    ([(0x9C, 10), (0xB5, 47)] @ special_keys)"

definition ctlmap :: "uchar \<Rightarrow> uchar" where
  "ctlmap = key_map
    (replicate 16 0 @ ctl_keys ''QWERTYUIOP'' @ [0, 0, 13, 0] @ ctl_keys ''ASDFGHJKL'' @ [0, 0, 0, 0] @
     [92 - 64] @ ctl_keys ''ZXCVBNM'' @ [0, 0] @ ctl_keys ''/'' @ [0, 0])
    ([(0x9C, 13), (0xB5, 47 - 64)] @ special_keys)"

section \<open>Reading a key\<close>

definition charcode :: "uint \<Rightarrow> uchar \<Rightarrow> uchar" where
  "charcode k = (if k = 0 then normalmap else if k = 1 then shiftmap else ctlmap)"

definition swap_case :: "uchar \<Rightarrow> uchar" where
  "swap_case c = (if 97 \<le> c \<and> c \<le> 122 then c - 32 else if 65 \<le> c \<and> c \<le> 90 then c + 32 else c)"

definition kbdgetc :: "uchar option \<Rightarrow> uint \<Rightarrow> int \<times> uint" where
  "kbdgetc port shift = (case port of None \<Rightarrow> (-1, shift)
    | Some d \<Rightarrow>
      if d = 0xE0 then (0, shift OR E0ESC)
      else if d AND 0x80 \<noteq> 0 then
        (let d = (if shift AND E0ESC \<noteq> 0 then d else d AND 0x7F)
         in (0, shift AND NOT (shiftcode d OR E0ESC)))
      else
        (let (d, shift) = (if shift AND E0ESC \<noteq> 0 then (d OR 0x80, shift AND NOT E0ESC) else (d, shift));
             shift = (shift OR shiftcode d) XOR togglecode d;
             c = charcode (shift AND (CTL OR SHIFT)) d;
             c = (if shift AND CAPSLOCK \<noteq> 0 then swap_case c else c)
         in (uint c, shift)))"

primrec kbd_chars :: "uchar list \<Rightarrow> uint \<Rightarrow> int list \<times> uint" where
  "kbd_chars [] shift = ([-1], shift)"
| "kbd_chars (d # ds) shift =
    (let (c, shift) = kbdgetc (Some d) shift; (cs, shift) = kbd_chars ds shift in (c # cs, shift))"

definition kbdintr :: "('a constate_scheme \<Rightarrow> (unit, 'a constate_scheme) outcome) \<Rightarrow> uchar list \<Rightarrow> uint \<Rightarrow>
    'a constate_scheme \<Rightarrow> (uint, 'a constate_scheme) outcome" where
  "kbdintr procdump port shift s =
    (let (cs, shift) = kbd_chars port shift
     in obind (consoleintr procdump cs s) (\<lambda>_ s. Ret shift s))"

section \<open>Properties\<close>

text \<open>The letter keys of a US keyboard: scan code and lower-case letter.\<close>

definition letter_keys :: "(uchar \<times> uchar) list" where
  "letter_keys =
    [(16, 113), (17, 119), (18, 101), (19, 114), (20, 116), (21, 121), (22, 117), (23, 105),
     (24, 111), (25, 112), (30, 97), (31, 115), (32, 100), (33, 102), (34, 103), (35, 104),
     (36, 106), (37, 107), (38, 108), (44, 122), (45, 120), (46, 99), (47, 118), (48, 98),
     (49, 110), (50, 109)]"

definition letter_key_ok :: "uchar \<times> uchar \<Rightarrow> bool" where
  "letter_key_ok = (\<lambda>(d, c). d \<noteq> 0xE0 \<and> d AND 0x80 = 0 \<and> shiftcode d = 0 \<and> togglecode d = 0 \<and>
     normalmap d = c \<and> shiftmap d = c - 32 \<and> ctlmap d = c - 96 \<and>
     swap_case c = c - 32 \<and> swap_case (c - 32) = c \<and> swap_case (c - 96) = c - 96)"

lemmas key_tables = shiftcode_def togglecode_def normalmap_def shiftmap_def ctlmap_def key_map_def
  keys_def ctl_keys_def special_keys_def swap_case_def

lemma letter_keys_all: "list_all letter_key_ok letter_keys"
  by (simp add: letter_keys_def letter_key_ok_def key_tables nth_append) (simp add: word_le_nat_alt)

lemma low_two_bits:
  "(shift :: uint) AND 3 = (if bit shift 0 then 1 else 0) + (if bit shift 1 then 2 else 0)"
proof -
  have "shift AND 3 = take_bit 2 shift" by (simp add: take_bit_eq_mask mask_eq_exp_minus_1)
  also have "\<dots> = of_bool (bit shift 0) + 2 * of_bool (bit shift 1)"
    by (simp add: numeral_2_eq_2 take_bit_Suc bit_Suc bit_0 mod_2_eq_odd)
  finally show ?thesis by simp
qed

text \<open>
  C23: The letter keys, in every state of the modifiers. With neither shift nor control a letter
  key gives its lower-case letter; shift gives the upper-case one; caps lock exchanges the two;
  control gives the control character whatever the other modifiers are. The modifiers stay as
  they are.
\<close>

theorem kbd_letters:
  assumes "(d, c) \<in> set letter_keys" "\<not> bit shift 6"
  shows "kbdgetc (Some d) shift =
    (uint (if bit shift 1 then c - 96 else if bit shift 0 \<noteq> bit shift 3 then c - 32 else c), shift)"
proof -
  have ok: "letter_key_ok (d, c)" using letter_keys_all assms(1) by (simp add: list_all_iff)
  have e: "shift AND 64 = 0" using and_exp_eq_0_iff_not_bit[of shift 6] assms(2) by simp
  have cl: "shift AND 8 \<noteq> 0 \<longleftrightarrow> bit shift 3" using and_exp_eq_0_iff_not_bit[of shift 3] by simp
  show ?thesis using ok e cl low_two_bits[of shift]
    by (simp add: kbdgetc_def letter_key_ok_def E0ESC_def CTL_def SHIFT_def CAPSLOCK_def charcode_def Let_def)
qed

lemma kbd_letters_witness:
  "kbdgetc (Some 0x1E) (SHIFT OR NUMLOCK) = (65, SHIFT OR NUMLOCK) \<and> kbdgetc (Some 0x2E) (CTL OR SHIFT) = (3, CTL OR SHIFT)"
proof -
  have "(0x1E, 97) \<in> set letter_keys" "(0x2E, 99) \<in> set letter_keys" by (simp_all add: letter_keys_def)
  from kbd_letters[OF this(1), of "SHIFT OR NUMLOCK"] kbd_letters[OF this(2), of "CTL OR SHIFT"] show ?thesis
    by (simp add: SHIFT_def NUMLOCK_def CTL_def)
qed

end
