(* ===== verification/Spinlock.thy ===== *)
theory Spinlock
  imports Kalloc
begin

text \<open>
  Spin locks and the interrupt nesting counter, \<^verbatim>\<open>kernel/spinlock.c\<close>. The operations are
  cut at the instructions that other processors can observe, and an inductive relation
  interleaves the processors that compete for one lock. Processors are numbered; the
  lock's \<open>cpu\<close> field is a processor or \<open>None\<close>.
\<close>

section \<open>Interrupt nesting\<close>

record cpu =
  ncli :: int
  intena :: bool
  eflags_if :: bool

definition pushcli :: "cpu \<Rightarrow> cpu" where
  "pushcli c =
     (let fl = eflags_if c; c = c\<lparr>eflags_if := False\<rparr>; n = ncli c; c = c\<lparr>ncli := n + 1\<rparr> in
      if n = 0 then c\<lparr>intena := fl\<rparr> else c)"

definition popcli :: "cpu \<Rightarrow> (unit, cpu) outcome" where
  "popcli c =
     (if eflags_if c then Panic ''popcli - interruptible''
      else
        let c = c\<lparr>ncli := ncli c - 1\<rparr> in
        if ncli c < 0 then Panic ''popcli''
        else if ncli c = 0 \<and> intena c then Ret () (c\<lparr>eflags_if := True\<rparr>)
        else Ret () c)"

section \<open>The lock\<close>

record spinlock =
  locked :: uint
  lk_name :: string
  lk_cpu :: "nat option"
  lk_pcs :: "nat list"

definition initlock :: "string \<Rightarrow> spinlock \<Rightarrow> spinlock" where
  "initlock nm lk = lk\<lparr>lk_name := nm, locked := 0, lk_cpu := None\<rparr>"

definition xchg :: "uint \<Rightarrow> spinlock \<Rightarrow> uint \<times> spinlock" where
  "xchg v lk = (locked lk, lk\<lparr>locked := v\<rparr>)"

definition holding :: "nat \<Rightarrow> spinlock \<Rightarrow> bool" where
  "holding me lk \<longleftrightarrow> locked lk \<noteq> 0 \<and> lk_cpu lk = Some me"

text \<open>The walk over saved frame pointers that fills the debugging array.\<close>

primrec stackpcs_from :: "nat \<Rightarrow> mem \<Rightarrow> nat \<Rightarrow> nat list" where
  "stackpcs_from 0 m ebp = []"
| "stackpcs_from (Suc k) m ebp =
     (if ebp = 0 \<or> ebp < KERNBASE \<or> ebp = 0xffffffff then replicate (Suc k) 0
      else unat (load64 (ebp + 8) m) # stackpcs_from k m (unat (load64 ebp m)))"

definition getstackpcs :: "mem \<Rightarrow> nat \<Rightarrow> nat list" where
  "getstackpcs m ebp = stackpcs_from 10 m ebp"

lemma length_getstackpcs: "length (getstackpcs m ebp) = 10"
proof -
  have "length (stackpcs_from k m ebp) = k" for k
    by (induction k arbitrary: ebp) auto
  then show ?thesis by (simp add: getstackpcs_def)
qed

section \<open>Acquire and release, instruction by instruction\<close>

text \<open>
  Where a processor is in its use of the lock: outside; in the loop on \<open>xchg\<close>; after the
  \<open>xchg\<close> that took the lock and before \<open>lk->cpu = cpu\<close>; holding it; in \<open>release\<close> after
  \<open>lk->cpu = 0\<close>; after the \<open>xchg\<close> that freed it and before \<open>popcli\<close>.
\<close>

datatype lockpc = LOut | LSpin | LGot | LHeld | LFreeing | LPop

record lockst =
  lk :: spinlock
  cpus :: "nat \<Rightarrow> cpu"
  pcs :: "nat \<Rightarrow> lockpc"

definition at :: "nat \<Rightarrow> lockpc \<Rightarrow> lockst \<Rightarrow> lockst" where
  "at c p s = s\<lparr>pcs := (pcs s)(c := p)\<rparr>"

definition acquire_enter :: "nat \<Rightarrow> lockst \<Rightarrow> (unit, lockst) outcome" where
  "acquire_enter c s =
     (let s = s\<lparr>cpus := (cpus s)(c := pushcli (cpus s c))\<rparr> in
      if holding c (lk s) then Panic ''acquire'' else Ret () (at c LSpin s))"

definition acquire_xchg :: "nat \<Rightarrow> lockst \<Rightarrow> (unit, lockst) outcome" where
  "acquire_xchg c s =
     (let (old, l) = xchg 1 (lk s); s = s\<lparr>lk := l\<rparr> in
      if old \<noteq> 0 then Ret () s else Ret () (at c LGot s))"

definition acquire_own :: "nat \<Rightarrow> nat list \<Rightarrow> lockst \<Rightarrow> (unit, lockst) outcome" where
  "acquire_own c ps s = Ret () (at c LHeld (s\<lparr>lk := (lk s)\<lparr>lk_cpu := Some c, lk_pcs := ps\<rparr>\<rparr>))"

definition release_enter :: "nat \<Rightarrow> lockst \<Rightarrow> (unit, lockst) outcome" where
  "release_enter c s =
     (if \<not> holding c (lk s) then Panic ''release''
      else Ret () (at c LFreeing (s\<lparr>lk := (lk s)\<lparr>lk_pcs := (lk_pcs (lk s))[0 := 0], lk_cpu := None\<rparr>\<rparr>)))"

definition release_xchg :: "nat \<Rightarrow> lockst \<Rightarrow> (unit, lockst) outcome" where
  "release_xchg c s = Ret () (at c LPop (s\<lparr>lk := snd (xchg 0 (lk s))\<rparr>))"

definition release_leave :: "nat \<Rightarrow> lockst \<Rightarrow> (unit, lockst) outcome" where
  "release_leave c s =
     (case popcli (cpus s c) of
        Ret _ k \<Rightarrow> Ret () (at c LOut (s\<lparr>cpus := (cpus s)(c := k)\<rparr>))
      | Panic m \<Rightarrow> Panic m
      | _ \<Rightarrow> Fault)"

text \<open>What processor \<open>c\<close> executes next, as a function of where it is.\<close>

definition lock_instr :: "nat \<Rightarrow> nat list \<Rightarrow> lockst \<Rightarrow> (unit, lockst) outcome" where
  "lock_instr c ps s =
     (case pcs s c of
        LOut \<Rightarrow> acquire_enter c s
      | LSpin \<Rightarrow> acquire_xchg c s
      | LGot \<Rightarrow> acquire_own c ps s
      | LHeld \<Rightarrow> release_enter c s
      | LFreeing \<Rightarrow> release_xchg c s
      | LPop \<Rightarrow> release_leave c s)"

lemmas lock_instr_defs = lock_instr_def acquire_enter_def acquire_xchg_def acquire_own_def
  release_enter_def release_xchg_def release_leave_def xchg_def at_def Let_def

inductive lock_reach :: "lockst \<Rightarrow> lockst \<Rightarrow> bool" for s0 where
  start: "lock_reach s0 s0"
| step: "lock_reach s0 s \<Longrightarrow> lock_instr c ps s = Ret () t \<Longrightarrow> lock_reach s0 t"

definition lock_init :: "lockst \<Rightarrow> bool" where
  "lock_init s \<longleftrightarrow> locked (lk s) = 0 \<and> lk_cpu (lk s) = None \<and>
     (\<forall>c. pcs s c = LOut \<and> 0 \<le> ncli (cpus s c) \<and>
          (eflags_if (cpus s c) \<longrightarrow> ncli (cpus s c) = 0))"

section \<open>Invariant\<close>

definition owning :: "lockpc \<Rightarrow> bool" where
  "owning p \<longleftrightarrow> p \<in> {LGot, LHeld, LFreeing}"

definition lock_inv :: "lockst \<Rightarrow> bool" where
  "lock_inv s \<longleftrightarrow>
     (locked (lk s) \<noteq> 0 \<longleftrightarrow> (\<exists>c. owning (pcs s c)))
     \<and> (\<forall>c d. owning (pcs s c) \<longrightarrow> owning (pcs s d) \<longrightarrow> c = d)
     \<and> (\<forall>c. lk_cpu (lk s) = Some c \<longleftrightarrow> pcs s c = LHeld)
     \<and> (\<forall>c. 0 \<le> ncli (cpus s c) \<and> (eflags_if (cpus s c) \<longrightarrow> ncli (cpus s c) = 0))
     \<and> (\<forall>c. pcs s c \<noteq> LOut \<longrightarrow> \<not> eflags_if (cpus s c) \<and> 0 < ncli (cpus s c))"

lemma lock_invD:
  assumes "lock_inv s"
  shows "locked (lk s) \<noteq> 0 \<longleftrightarrow> (\<exists>c. owning (pcs s c))"
    and "owning (pcs s c) \<Longrightarrow> owning (pcs s d) \<Longrightarrow> c = d"
    and "lk_cpu (lk s) = Some c \<longleftrightarrow> pcs s c = LHeld"
    and "0 \<le> ncli (cpus s c)"
    and "eflags_if (cpus s c) \<Longrightarrow> ncli (cpus s c) = 0"
    and "pcs s c \<noteq> LOut \<Longrightarrow> \<not> eflags_if (cpus s c) \<and> 0 < ncli (cpus s c)"
  using assms unfolding lock_inv_def by blast+

lemma owning_simps [simp]: "\<not> owning LOut" "\<not> owning LSpin" "owning LGot" "owning LHeld"
    "owning LFreeing" "\<not> owning LPop"
  by (simp_all add: owning_def)

lemma lock_init_inv: "lock_init s \<Longrightarrow> lock_inv s"
  by (simp add: lock_init_def lock_inv_def)

lemma pushcli_ok:
  "0 \<le> ncli c \<Longrightarrow> \<not> eflags_if (pushcli c) \<and> 0 < ncli (pushcli c)"
  by (simp add: pushcli_def Let_def)

lemma popcli_returns: "\<not> eflags_if c \<Longrightarrow> 0 < ncli c \<Longrightarrow> \<exists>d. popcli c = Ret () d"
  by (simp add: popcli_def Let_def)

lemma popcli_ok:
  "popcli c = Ret () d \<Longrightarrow> 0 \<le> ncli d \<and> (eflags_if d \<longrightarrow> ncli d = 0)"
  by (auto simp: popcli_def Let_def split: if_splits)

lemma holding_iff: "lock_inv s \<Longrightarrow> holding c (lk s) \<longleftrightarrow> pcs s c = LHeld"
  using lock_invD(1,3) by (auto simp: holding_def) (metis owning_simps(4))+

lemma lock_inv_no_panic: "lock_inv s \<Longrightarrow> \<exists>t. lock_instr c ps s = Ret () t"
  using popcli_returns[of "cpus s c"] lock_invD(6)[of s c]
  by (cases "pcs s c") (auto simp: lock_instr_defs holding_iff)

text \<open>
  A step that moves \<open>c\<close> to \<open>p\<close>, changes the processor state of \<open>c\<close> only and leaves the lock
  word and owner as the new places of the processors say keeps the invariant.
\<close>

lemma lock_inv_move:
  assumes i: "lock_inv s"
    and pcs: "pcs t = (pcs s)(c := p)"
    and cpus: "\<And>d. d \<noteq> c \<Longrightarrow> cpus t d = cpus s d"
    and me: "0 \<le> ncli (cpus t c)" "eflags_if (cpus t c) \<Longrightarrow> ncli (cpus t c) = 0"
      "p \<noteq> LOut \<Longrightarrow> \<not> eflags_if (cpus t c) \<and> 0 < ncli (cpus t c)"
    and word: "locked (lk t) \<noteq> 0 \<longleftrightarrow> owning p \<or> (\<exists>d. d \<noteq> c \<and> owning (pcs s d))"
    and one: "owning p \<Longrightarrow> (\<forall>d. d \<noteq> c \<longrightarrow> \<not> owning (pcs s d))"
    and own: "\<And>d. lk_cpu (lk t) = Some d \<longleftrightarrow> (if d = c then p = LHeld else pcs s d = LHeld)"
  shows "lock_inv t"
  unfolding lock_inv_def
proof (intro conjI allI)
  show "locked (lk t) \<noteq> 0 \<longleftrightarrow> (\<exists>d. owning (pcs t d))" using word by (auto simp: pcs)
  show "owning (pcs t d) \<longrightarrow> owning (pcs t e) \<longrightarrow> d = e" for d e
    using one lock_invD(2)[OF i, of d e] by (auto simp: pcs)
  show "lk_cpu (lk t) = Some d \<longleftrightarrow> pcs t d = LHeld" for d using own[of d] by (simp add: pcs)
  show "0 \<le> ncli (cpus t d)" for d
    using me(1) cpus[of d] lock_invD(4)[OF i, of d] by (cases "d = c") auto
  show "eflags_if (cpus t d) \<longrightarrow> ncli (cpus t d) = 0" for d
    using me(2) cpus[of d] lock_invD(5)[OF i, of d] by (cases "d = c") auto
  show "pcs t d \<noteq> LOut \<longrightarrow> \<not> eflags_if (cpus t d) \<and> 0 < ncli (cpus t d)" for d
    using me(3) cpus[of d] lock_invD(6)[OF i, of d] by (cases "d = c") (auto simp: pcs)
qed

lemma lock_inv_step:
  assumes i: "lock_inv s" and t: "lock_instr c ps s = Ret () t"
  shows "lock_inv t"
proof -
  note D = lock_invD[OF i]
  have held: "owning (pcs s d)" if "pcs s d = LHeld" for d using that by simp
  have others: "locked (lk s) \<noteq> 0 \<longleftrightarrow> (\<exists>d. d \<noteq> c \<and> owning (pcs s d))" if "\<not> owning (pcs s c)"
    using that D(1) by metis
  have alone: "\<forall>d. d \<noteq> c \<longrightarrow> \<not> owning (pcs s d)" if "owning (pcs s c)"
    using that D(2)[of c] by blast
  have nohold: "pcs s d \<noteq> LHeld" if "owning (pcs s c)" "d \<noteq> c" for d
    using alone[OF that(1)] that(2) held by blast
  show ?thesis
  proof (cases "pcs s c")
    case LOut
    then have t: "t = at c LSpin (s\<lparr>cpus := (cpus s)(c := pushcli (cpus s c))\<rparr>)"
      using t by (simp add: lock_instr_defs holding_iff[OF i])
    show ?thesis
      by (rule lock_inv_move[OF i, of t c LSpin])
        (use LOut pushcli_ok[OF D(4)[of c]] in \<open>simp_all add: t at_def others D(3)\<close>)
  next
    case LSpin
    then have me: "\<not> eflags_if (cpus s c) \<and> 0 < ncli (cpus s c)" using D(6)[of c] by simp
    show ?thesis
    proof (cases "locked (lk s) = 0")
      case True
      then have free: "\<not> owning (pcs s d)" for d using D(1) by simp
      then have "pcs s d \<noteq> LHeld" for d using held by blast
      moreover have t: "t = at c LGot (s\<lparr>lk := (lk s)\<lparr>locked := 1\<rparr>\<rparr>)"
        using t LSpin True by (simp add: lock_instr_defs)
      ultimately show ?thesis
        by (intro lock_inv_move[OF i, of t c LGot]) (use me in \<open>simp_all add: at_def free D(3)\<close>)
    next
      case False
      have t: "t = s\<lparr>lk := (lk s)\<lparr>locked := 1\<rparr>\<rparr>"
        using t LSpin False by (simp add: lock_instr_defs)
      have "\<exists>d. d \<noteq> c \<and> owning (pcs s d)" using False others LSpin by simp
      then show ?thesis
        by (intro lock_inv_move[OF i, of t c LSpin])
          (use me LSpin in \<open>simp_all add: t D(3) fun_upd_idem\<close>)
    qed
  next
    case LGot
    then have me: "\<not> eflags_if (cpus s c) \<and> 0 < ncli (cpus s c)" using D(6)[of c] by simp
    have t: "t = at c LHeld (s\<lparr>lk := (lk s)\<lparr>lk_cpu := Some c, lk_pcs := ps\<rparr>\<rparr>)"
      using t LGot by (simp add: lock_instr_defs)
    have "locked (lk s) \<noteq> 0" using D(1) LGot by (metis owning_simps(3))
    then show ?thesis
      by (intro lock_inv_move[OF i, of t c LHeld])
        (use me LGot alone nohold in \<open>auto simp: t at_def\<close>)
  next
    case LHeld
    then have me: "\<not> eflags_if (cpus s c) \<and> 0 < ncli (cpus s c)" using D(6)[of c] by simp
    have t: "t = at c LFreeing (s\<lparr>lk := (lk s)\<lparr>lk_pcs := (lk_pcs (lk s))[0 := 0], lk_cpu := None\<rparr>\<rparr>)"
      using t LHeld by (simp add: lock_instr_defs holding_iff[OF i])
    have "locked (lk s) \<noteq> 0" using D(1) LHeld by (metis owning_simps(4))
    then show ?thesis
      by (intro lock_inv_move[OF i, of t c LFreeing])
        (use me LHeld alone nohold in \<open>simp_all add: t at_def\<close>)
  next
    case LFreeing
    then have me: "\<not> eflags_if (cpus s c) \<and> 0 < ncli (cpus s c)" using D(6)[of c] by simp
    have t: "t = at c LPop (s\<lparr>lk := (lk s)\<lparr>locked := 0\<rparr>\<rparr>)"
      using t LFreeing by (simp add: lock_instr_defs)
    show ?thesis
      by (intro lock_inv_move[OF i, of t c LPop])
        (use me LFreeing alone nohold in \<open>auto simp: t at_def D(3)\<close>)
  next
    case LPop
    then obtain k where k: "popcli (cpus s c) = Ret () k" using popcli_returns D(6)[of c] by auto
    have t: "t = at c LOut (s\<lparr>cpus := (cpus s)(c := k)\<rparr>)"
      using t LPop by (simp add: lock_instr_defs k)
    show ?thesis
      by (intro lock_inv_move[OF i, of t c LOut])
        (use LPop popcli_ok[OF k] in \<open>simp_all add: t at_def others D(3)\<close>)
  qed
qed

lemma lock_reach_inv: "lock_reach s0 s \<Longrightarrow> lock_init s0 \<Longrightarrow> lock_inv s"
  by (induction rule: lock_reach.induct) (auto intro: lock_init_inv lock_inv_step)

section \<open>Properties\<close>

text \<open>
  C8: Mutual exclusion: in every interleaving of the processors' instructions from an
  initialised lock, at most one processor is past its successful \<open>xchg\<close> and not yet past the
  \<open>xchg\<close> of \<open>release\<close>; a processor that holds or waits for the lock has interrupts off; and
  no instruction panics, so neither the self-deadlock check of \<open>acquire\<close> nor the checks of
  \<open>release\<close> and \<open>popcli\<close> fire.
\<close>

theorem spinlock_mutual_exclusion:
  assumes "lock_init s0" "lock_reach s0 s"
  shows "(owning (pcs s c) \<longrightarrow> owning (pcs s d) \<longrightarrow> c = d)
    \<and> (holding c (lk s) \<longleftrightarrow> pcs s c = LHeld)
    \<and> (pcs s c \<noteq> LOut \<longrightarrow> \<not> eflags_if (cpus s c))
    \<and> (\<exists>t. lock_instr c ps s = Ret () t)"
proof -
  have i: "lock_inv s" using assms by (intro lock_reach_inv)
  show ?thesis
    using lock_invD(2,6)[OF i] holding_iff[OF i] lock_inv_no_panic[OF i] by auto
qed

text \<open>
  A schedule as the list of the processors whose turn it is, and two processors of which
  the first holds the lock and the second spins on it.
\<close>

definition lock_start :: lockst where
  "lock_start = \<lparr>lk = \<lparr>locked = 0, lk_name = ''kmem'', lk_cpu = None, lk_pcs = replicate 10 0\<rparr>,
     cpus = (\<lambda>_. \<lparr>ncli = 0, intena = False, eflags_if = True\<rparr>), pcs = (\<lambda>_. LOut)\<rparr>"

primrec lock_sched :: "nat list \<Rightarrow> lockst \<Rightarrow> lockst option" where
  "lock_sched [] s = Some s"
| "lock_sched (c # cs) s =
     (case lock_instr c [] s of Ret _ t \<Rightarrow> lock_sched cs t | _ \<Rightarrow> None)"

lemma lock_sched_reach: "lock_reach s0 s \<Longrightarrow> lock_sched cs s = Some t \<Longrightarrow> lock_reach s0 t"
  by (induction cs arbitrary: s) (auto split: outcome.splits intro: lock_reach.step)

definition lock_contended :: lockst where
  "lock_contended = the (lock_sched [0, 0, 0, 1] lock_start)"

lemma lock_contended_eq:
  "lock_sched [0, 0, 0, 1] lock_start = Some lock_contended"
  "pcs lock_contended 0 = LHeld" "pcs lock_contended 1 = LSpin"
  by (simp_all add: lock_contended_def lock_start_def lock_instr_defs holding_def)

theorem spinlock_mutual_exclusion_witness:
  "owning (pcs lock_contended 0) \<and> \<not> owning (pcs lock_contended 1) \<and>
   holding 0 (lk lock_contended) \<and> (\<exists>t. lock_instr 1 [] lock_contended = Ret () t)"
proof -
  have "lock_init lock_start" by (simp add: lock_init_def lock_start_def)
  moreover have "lock_reach lock_start lock_contended"
    by (rule lock_sched_reach[OF lock_reach.start lock_contended_eq(1)])
  ultimately show ?thesis
    using spinlock_mutual_exclusion[of lock_start lock_contended 0 1 "[]"]
      spinlock_mutual_exclusion[of lock_start lock_contended 1 0 "[]"] lock_contended_eq(2,3)
    by auto
qed

primrec popclis :: "nat \<Rightarrow> cpu \<Rightarrow> (unit, cpu) outcome" where
  "popclis 0 c = Ret () c"
| "popclis (Suc n) c = obind (popcli c) (\<lambda>_ c. popclis n c)"

lemma pushclis:
  "ncli c = 0 \<Longrightarrow> (pushcli ^^ Suc n) c = c\<lparr>ncli := int (Suc n), intena := eflags_if c, eflags_if := False\<rparr>"
  by (induction n) (simp_all add: pushcli_def Let_def)

lemma popclis_down:
  "\<not> eflags_if c \<Longrightarrow> ncli c = int (Suc n) \<Longrightarrow>
   popclis (Suc n) c = Ret () (c\<lparr>ncli := 0, eflags_if := intena c\<rparr>)"
proof (induction n arbitrary: c)
  case (Suc n)
  have "popcli c = Ret () (c\<lparr>ncli := int (Suc n)\<rparr>)" using Suc.prems by (simp add: popcli_def)
  then show ?case using Suc.IH[of "c\<lparr>ncli := int (Suc n)\<rparr>"] Suc.prems by simp
next
  case 0
  then show ?case by (cases c) (auto simp: popcli_def Let_def)
qed

text \<open>
  C17: \<open>pushcli\<close> and \<open>popcli\<close> nest: after \<open>n + 1\<close> of one and \<open>n + 1\<close> of the other from a state
  with no nesting, interrupts are as they were before the first \<open>pushcli\<close>, they are off in
  between, and one more \<open>popcli\<close> panics.
\<close>

theorem pushcli_popcli_nest:
  assumes "ncli c = 0"
  shows "\<not> eflags_if ((pushcli ^^ Suc n) c)
    \<and> runs (popclis (Suc n) ((pushcli ^^ Suc n) c))
        (\<lambda>_ d. eflags_if d = eflags_if c \<and> ncli d = 0 \<and>
           (\<exists>m. popcli d = Panic m))"
  using assms popclis_down[of "(pushcli ^^ Suc n) c" n]
  by (simp only: pushclis) (auto simp: popcli_def)

theorem pushcli_popcli_nest_witness:
  "let c = \<lparr>ncli = 0, intena = False, eflags_if = True\<rparr> in
     \<not> eflags_if ((pushcli ^^ Suc 1) c)
     \<and> runs (popclis (Suc 1) ((pushcli ^^ Suc 1) c)) (\<lambda>_ d. eflags_if d \<and> ncli d = 0 \<and> (\<exists>m. popcli d = Panic m))"
  using pushcli_popcli_nest[of "\<lparr>ncli = 0, intena = False, eflags_if = True\<rparr>" 1]
  unfolding Let_def by simp

end
