(* ===== verification/Proc.thy ===== *)
theory Proc
  imports Kbd VM Fs_Dir Spinlock
begin

text \<open>
  Processes: the table, creation, exit, waiting, scheduling, sleeping and waking
  (\<^verbatim>\<open>kernel/proc.c\<close>, \<^verbatim>\<open>include/proc.h\<close>, and \<open>switchuvm\<close> of \<^verbatim>\<open>kernel/vm64.c\<close>). The state of
  the kernel is the state of the layers below and the process table; a process is its index
  in the table, and the current process is an argument \<open>me\<close>. The trap frame, which the code
  keeps at the top of the kernel stack and reaches only through \<open>p->tf\<close>, is a field of the
  process. A function that holds \<open>ptable.lock\<close> is atomic.
\<close>

section \<open>State\<close>

definition NPROC :: nat where "NPROC = 64"
definition NOFILE :: nat where "NOFILE = 16"
definition KSTACKSIZE :: nat where "KSTACKSIZE = 4096"

datatype procstate = UNUSED | EMBRYO | SLEEPING | RUNNABLE | RUNNING | ZOMBIE

record trapframe =
  tf_eax :: uintp
  tf_rcx :: uintp
  tf_rdx :: uintp
  tf_rsi :: uintp
  tf_rdi :: uintp
  tf_r8 :: uintp
  tf_r9 :: uintp
  tf_others :: "uintp list"
  tf_trapno :: uintp
  tf_err :: uintp
  tf_eip :: uintp
  tf_cs :: uintp
  tf_eflags :: uintp
  tf_esp :: uintp
  tf_ds :: uintp

record proc =
  pr_sz :: nat
  pr_pgdir :: nat
  pr_kstack :: nat
  pr_state :: procstate
  pr_pid :: int
  pr_parent :: "nat option"
  pr_tf :: trapframe
  pr_context :: nat
  pr_chan :: "chan option"
  pr_killed :: bool
  pr_ofile :: "nat option list"
  pr_cwd :: "nat option"
  pr_name :: "uchar list"

record kstate =
  kfs :: constate
  procs :: "proc list"
  initproc :: "nat option"
  nextpid :: int
  ticks :: uint
  cr3 :: nat
  rsp0 :: nat
  kbdshift :: uint

text \<open>
  Addresses fixed when the kernel is linked and booted: the end of its image, the page of
  directory pointers of kernel space, and the code of \<open>forkret\<close> and \<open>trapret\<close>.
\<close>

record kenv =
  k_end :: nat
  k_kpdpt :: nat
  k_forkret :: uintp
  k_trapret :: uintp

definition upd_proc :: "nat \<Rightarrow> (proc \<Rightarrow> proc) \<Rightarrow> kstate \<Rightarrow> kstate" where
  "upd_proc i f s = s\<lparr>procs := (procs s)[i := f (procs s ! i)]\<rparr>"

section \<open>Waking, and calls into the layers below\<close>

definition wake_one :: "chan \<Rightarrow> proc \<Rightarrow> proc" where
  "wake_one c p = (if pr_state p = SLEEPING \<and> pr_chan p = Some c then p\<lparr>pr_state := RUNNABLE\<rparr> else p)"

definition wakeup1 :: "chan \<Rightarrow> kstate \<Rightarrow> kstate" where
  "wakeup1 c s = s\<lparr>procs := map (wake_one c) (procs s)\<rparr>"

definition pwakeup :: "chan \<Rightarrow> kstate \<Rightarrow> kstate" where
  "pwakeup c s = wakeup1 c s"

text \<open>
  The layers below record the channels they wake; when a call into them comes back the
  processes sleeping there are made runnable. The caller itself is running, and no other
  process runs in between.
\<close>

definition deliver :: "constate \<Rightarrow> kstate \<Rightarrow> kstate" where
  "deliver t s = fold pwakeup (wakeq t) (s\<lparr>kfs := t\<lparr>wakeq := []\<rparr>\<rparr>)"

definition on_fs :: "(constate \<Rightarrow> ('a, constate) outcome) \<Rightarrow> kstate \<Rightarrow> ('a, kstate) outcome" where
  "on_fs f s = (case f (kfs s) of Ret a t \<Rightarrow> Ret a (deliver t s) | Panic m \<Rightarrow> Panic m
     | Sleep c t \<Rightarrow> Sleep c (deliver t s) | Fault \<Rightarrow> Fault)"

definition set_kmem :: "kmemst \<Rightarrow> kstate \<Rightarrow> kstate" where
  "set_kmem k s = s\<lparr>kfs := (kfs s)\<lparr>kmem := k\<rparr>\<rparr>"

definition on_mem :: "(kmemst \<Rightarrow> ('a, kmemst) outcome) \<Rightarrow> kstate \<Rightarrow> ('a, kstate) outcome" where
  "on_mem f s = (case f (kmem (kfs s)) of Ret a k \<Rightarrow> Ret a (set_kmem k s) | Panic m \<Rightarrow> Panic m
     | Sleep c k \<Rightarrow> Fault | Fault \<Rightarrow> Fault)"

section \<open>Creating processes\<close>

text \<open>
  The stack of a new process: room for the trap frame (22 words), the return address
  \<open>trapret\<close>, and a context (8 words) whose last word, \<open>eip\<close>, is \<open>forkret\<close>.
\<close>

definition new_stack :: "kenv \<Rightarrow> nat \<Rightarrow> mem \<Rightarrow> mem" where
  "new_stack e kstack m =
    (let sp = kstack + KSTACKSIZE - 22 * 8; sp = sp - 8;
         m = store64 sp (k_trapret e) m;
         sp = sp - 8 * 8; m = memset sp 0 (8 * 8) m
     in store64 (sp + 7 * 8) (k_forkret e) m)"

definition new_context :: "nat \<Rightarrow> nat" where
  "new_context kstack = kstack + KSTACKSIZE - 22 * 8 - 8 - 8 * 8"

definition allocproc :: "kenv \<Rightarrow> kstate \<Rightarrow> nat option \<times> kstate" where
  "allocproc e s =
    (case find_idx (\<lambda>p. pr_state p = UNUSED) (procs s) of
       None \<Rightarrow> (None, s)
     | Some i \<Rightarrow>
       let s = (upd_proc i (\<lambda>p. p\<lparr>pr_state := EMBRYO, pr_pid := nextpid s\<rparr>) s)\<lparr>nextpid := nextpid s + 1\<rparr>;
           (ks, k) = kalloc (kmem (kfs s));
           s = upd_proc i (\<lambda>p. p\<lparr>pr_kstack := ks\<rparr>) (set_kmem k s)
       in if ks = 0 then (None, upd_proc i (\<lambda>p. p\<lparr>pr_state := UNUSED\<rparr>) s)
          else (Some i, upd_proc i (\<lambda>p. p\<lparr>pr_context := new_context ks\<rparr>)
             (set_kmem (k\<lparr>pmem := new_stack e ks (pmem k)\<rparr>) s)))"

definition switchuvm :: "nat \<Rightarrow> nat \<Rightarrow> kstate \<Rightarrow> (unit, kstate) outcome" where
  "switchuvm me i s =
    (let p = procs s ! i in
     if pr_pgdir p = 0 then Panic ''switchuvm: no pgdir''
     else Ret () (s\<lparr>rsp0 := pr_kstack (procs s ! me) + KSTACKSIZE,
       cr3 := v2p (PTE_ADDR (load64 (pr_pgdir p + 8 * 511) (pmem (kmem (kfs s)))))\<rparr>))"

definition FL_IF :: uintp where "FL_IF = 0x200"
definition user_cs :: uintp where "user_cs = push_bit 3 4 OR 3"
definition user_ds :: uintp where "user_ds = push_bit 3 5 OR 3"

definition zero_tf :: trapframe where
  "zero_tf = \<lparr>tf_eax = 0, tf_rcx = 0, tf_rdx = 0, tf_rsi = 0, tf_rdi = 0, tf_r8 = 0, tf_r9 = 0,
    tf_others = replicate 8 0, tf_trapno = 0, tf_err = 0, tf_eip = 0, tf_cs = 0, tf_eflags = 0,
    tf_esp = 0, tf_ds = 0\<rparr>"

definition set_name :: "uchar list \<Rightarrow> uchar list \<Rightarrow> uchar list" where
  "set_name src old = patch 0 (safestrcpy (ptr src) 16) old"

definition userinit :: "kenv \<Rightarrow> uchar list \<Rightarrow> kstate \<Rightarrow> (unit, kstate) outcome" where
  "userinit e initcode s =
    (case allocproc e s of (None, s) \<Rightarrow> Fault
     | (Some i, s) \<Rightarrow>
       let s = s\<lparr>initproc := Some i\<rparr> in
       obind (on_mem (setupkvm (k_kpdpt e)) s) (\<lambda>d s.
       let s = upd_proc i (\<lambda>p. p\<lparr>pr_pgdir := d\<rparr>) s in
       if d = 0 then Panic ''userinit: out of memory?''
       else
         obind (on_mem (inituvm d initcode) s) (\<lambda>_ s.
         let s = upd_proc i (\<lambda>p. p\<lparr>pr_sz := PGSIZE,
               pr_tf := zero_tf\<lparr>tf_cs := user_cs, tf_ds := user_ds, tf_eflags := FL_IF,
                 tf_esp := of_nat PGSIZE, tf_eip := 0\<rparr>,
               pr_name := set_name (map of_char ''initcode'') (pr_name p)\<rparr>) s in
         obind (on_fs (namei (console_devsw False) 0 [47]) s) (\<lambda>ip s.
         Ret () (upd_proc i (\<lambda>p. p\<lparr>pr_cwd := ip, pr_state := RUNNABLE\<rparr>) s)))))"

text \<open>
  \<open>growproc\<close>: the local \<open>sz\<close> is a 32-bit unsigned integer and \<open>n\<close> a signed one, so the sum
  wraps at 32 bits.
\<close>

definition growproc :: "kenv \<Rightarrow> nat \<Rightarrow> uint \<Rightarrow> kstate \<Rightarrow> (int, kstate) outcome" where
  "growproc e me n s =
    (let p = procs s ! me; sz = (of_nat (pr_sz p) :: uint);
         finish = (\<lambda>sz s. obind (switchuvm me me (upd_proc me (\<lambda>p. p\<lparr>pr_sz := sz\<rparr>) s)) (\<lambda>_ s. Ret 0 s))
     in if 0 < sint n then
          obind (on_mem (allocuvm (k_end e) (pr_pgdir p) (unat sz) (unat (sz + n))) s) (\<lambda>r s.
          if r mod 2 ^ 32 = 0 then Ret (-1) s else finish (r mod 2 ^ 32) s)
        else if sint n < 0 then
          obind (on_mem (deallocuvm (k_end e) (pr_pgdir p) (unat sz) (unat (sz + n))) s) (\<lambda>r s.
          if r mod 2 ^ 32 = 0 then Ret (-1) s else finish (r mod 2 ^ 32) s)
        else finish (unat sz) s)"

definition dup_file :: "nat \<Rightarrow> nat \<Rightarrow> nat \<Rightarrow> kstate \<Rightarrow> (unit, kstate) outcome" where
  "dup_file me child fd s =
    (case pr_ofile (procs s ! me) ! fd of None \<Rightarrow> Ret () s
     | Some f \<Rightarrow> obind (on_fs (filedup f) s) (\<lambda>f s.
         Ret () (upd_proc child (\<lambda>p. p\<lparr>pr_ofile := (pr_ofile p)[fd := Some f]\<rparr>) s)))"

definition dup_cwd :: "nat \<Rightarrow> nat \<Rightarrow> kstate \<Rightarrow> (unit, kstate) outcome" where
  "dup_cwd me child s =
    (case pr_cwd (procs s ! me) of None \<Rightarrow> Fault
     | Some ip \<Rightarrow> obind (on_fs (idup ip) s) (\<lambda>ip s.
         Ret () (upd_proc child (\<lambda>p. p\<lparr>pr_cwd := Some ip\<rparr>) s)))"

definition fork :: "kenv \<Rightarrow> nat \<Rightarrow> kstate \<Rightarrow> (int, kstate) outcome" where
  "fork e me s =
    (case allocproc e s of (None, s) \<Rightarrow> Ret (-1) s
     | (Some np, s) \<Rightarrow>
       let p = procs s ! me in
       obind (on_mem (copyuvm (k_end e) (k_kpdpt e) (pr_pgdir p) (pr_sz p mod 2 ^ 32)) s) (\<lambda>d s.
       let s = upd_proc np (\<lambda>q. q\<lparr>pr_pgdir := d\<rparr>) s in
       if d = 0 then
         obind (on_mem (kfree (k_end e) (pr_kstack (procs s ! np))) s) (\<lambda>_ s.
         Ret (-1) (upd_proc np (\<lambda>q. q\<lparr>pr_kstack := 0, pr_state := UNUSED\<rparr>) s))
       else
         let s = upd_proc np (\<lambda>q. q\<lparr>pr_sz := pr_sz p, pr_parent := Some me,
               pr_tf := (pr_tf p)\<lparr>tf_eax := 0\<rparr>\<rparr>) s in
         obind (ofor [0..<NOFILE] (dup_file me np) s) (\<lambda>_ s.
         obind (dup_cwd me np s) (\<lambda>_ s.
         let s = upd_proc np (\<lambda>q. q\<lparr>pr_name := set_name (pr_name p) (pr_name q)\<rparr>) s in
         Ret (pr_pid (procs s ! np)) (upd_proc np (\<lambda>q. q\<lparr>pr_state := RUNNABLE\<rparr>) s)))))"

section \<open>Exit and wait\<close>

definition close_file :: "kenv \<Rightarrow> nat \<Rightarrow> nat \<Rightarrow> kstate \<Rightarrow> (unit, kstate) outcome" where
  "close_file e me fd s =
    (case pr_ofile (procs s ! me) ! fd of None \<Rightarrow> Ret () s
     | Some f \<Rightarrow> obind (on_fs (fileclose (k_end e) f) s) (\<lambda>_ s.
         Ret () (upd_proc me (\<lambda>p. p\<lparr>pr_ofile := (pr_ofile p)[fd := None]\<rparr>) s)))"

definition exit_cwd :: "nat \<Rightarrow> kstate \<Rightarrow> (unit, kstate) outcome" where
  "exit_cwd me s =
    (case pr_cwd (procs s ! me) of None \<Rightarrow> Fault
     | Some ip \<Rightarrow>
       obind (on_fs (\<lambda>t. obind (begin_op t) (\<lambda>_ t. obind (iput ip t) (\<lambda>_ t. end_op t))) s) (\<lambda>_ s.
       Ret () (upd_proc me (\<lambda>p. p\<lparr>pr_cwd := None\<rparr>) s)))"

text \<open>
  The loop over the table that passes children to \<open>init\<close>, and the part of \<open>exit\<close> from
  taking \<open>ptable.lock\<close> to \<open>sched\<close>, from which the process never returns.
\<close>

definition reparent_one :: "nat \<Rightarrow> nat \<Rightarrow> nat \<Rightarrow> kstate \<Rightarrow> kstate" where
  "reparent_one me init i s =
    (if pr_parent (procs s ! i) = Some me then
       let s = upd_proc i (\<lambda>p. p\<lparr>pr_parent := Some init\<rparr>) s
       in if pr_state (procs s ! i) = ZOMBIE then wakeup1 (ChProc init) s else s
     else s)"

definition reparent :: "nat \<Rightarrow> nat \<Rightarrow> kstate \<Rightarrow> kstate" where
  "reparent me init s = fold (reparent_one me init) [0..<length (procs s)] s"

definition exit_finish :: "nat \<Rightarrow> kstate \<Rightarrow> kstate" where
  "exit_finish me s =
    (let s = (case pr_parent (procs s ! me) of Some q \<Rightarrow> wakeup1 (ChProc q) s | None \<Rightarrow> s);
         s = (case initproc s of Some init \<Rightarrow> reparent me init s | None \<Rightarrow> s)
     in upd_proc me (\<lambda>p. p\<lparr>pr_state := ZOMBIE\<rparr>) s)"

definition exit :: "kenv \<Rightarrow> nat \<Rightarrow> kstate \<Rightarrow> (unit, kstate) outcome" where
  "exit e me s =
    (if initproc s = Some me then Panic ''init exiting''
     else
       obind (ofor [0..<NOFILE] (close_file e me) s) (\<lambda>_ s.
       obind (exit_cwd me s) (\<lambda>_ s.
       Ret () (exit_finish me s))))"

text \<open>
  \<open>wait\<close>: one pass over the table. \<open>Sleep\<close> is the call of \<open>sleep(proc, ...)\<close>, after which
  the pass is made again.
\<close>

definition reap :: "kenv \<Rightarrow> nat \<Rightarrow> kstate \<Rightarrow> (int, kstate) outcome" where
  "reap e i s =
    (let pid = pr_pid (procs s ! i) in
     obind (on_mem (kfree (k_end e) (pr_kstack (procs s ! i))) s) (\<lambda>_ s.
     let s = upd_proc i (\<lambda>p. p\<lparr>pr_kstack := 0\<rparr>) s in
     obind (on_mem (freevm (k_end e) (pr_pgdir (procs s ! i))) s) (\<lambda>_ s.
     Ret pid (upd_proc i (\<lambda>p. p\<lparr>pr_state := UNUSED, pr_pid := 0, pr_parent := None,
       pr_name := (pr_name p)[0 := 0], pr_killed := False\<rparr>) s))))"

definition wait :: "kenv \<Rightarrow> nat \<Rightarrow> kstate \<Rightarrow> (int, kstate) outcome" where
  "wait e me s =
    (case find_idx (\<lambda>p. pr_parent p = Some me \<and> pr_state p = ZOMBIE) (procs s) of
       Some i \<Rightarrow> reap e i s
     | None \<Rightarrow>
       if \<not> list_ex (\<lambda>p. pr_parent p = Some me) (procs s) \<or> pr_killed (procs s ! me) then Ret (-1) s
       else Sleep (ChProc me) s)"

section \<open>Scheduling\<close>

text \<open>
  \<open>sched\<close> with its checks; \<open>others\<close> is what the rest of the machine does to this processor's
  record until the process is resumed.
\<close>

definition sched :: "nat \<Rightarrow> spinlock \<Rightarrow> procstate \<Rightarrow> (cpu \<Rightarrow> cpu) \<Rightarrow> cpu \<Rightarrow> (unit, cpu) outcome" where
  "sched c ptl st others cp =
    (if \<not> holding c ptl then Panic ''sched ptable.lock''
     else if ncli cp \<noteq> 1 then Panic ''sched locks''
     else if st = RUNNING then Panic ''sched running''
     else if eflags_if cp then Panic ''sched interruptible''
     else Ret () ((others cp)\<lparr>intena := intena cp\<rparr>))"

definition yield :: "nat \<Rightarrow> kstate \<Rightarrow> kstate" where
  "yield me s = upd_proc me (\<lambda>p. p\<lparr>pr_state := RUNNABLE\<rparr>) s"

text \<open>
  The two halves of \<open>sleep\<close>, before \<open>sched\<close> and after it. \<open>lock\<close> says that the caller passed
  a lock; giving it up and taking \<open>ptable.lock\<close> is one atomic step with the change of state.
\<close>

definition sleep_enter :: "nat option \<Rightarrow> bool \<Rightarrow> chan \<Rightarrow> kstate \<Rightarrow> (unit, kstate) outcome" where
  "sleep_enter me lock c s = (case me of None \<Rightarrow> Panic ''sleep''
    | Some me \<Rightarrow> if \<not> lock then Panic ''sleep without lk'' else Ret () (upd_proc me (\<lambda>p. p\<lparr>pr_chan := Some c, pr_state := SLEEPING\<rparr>) s))"

definition sleep_leave :: "nat \<Rightarrow> kstate \<Rightarrow> kstate" where
  "sleep_leave me s = upd_proc me (\<lambda>p. p\<lparr>pr_chan := None\<rparr>) s"

definition forkret :: "bool \<Rightarrow> kstate \<Rightarrow> (bool, kstate) outcome" where
  "forkret first s = (if first then obind (on_fs initlog s) (\<lambda>_ s. Ret False s) else Ret first s)"

text \<open>
  One pass of the scheduler over the table. \<open>run i\<close> is what happens from the switch to process
  \<open>i\<close> until control is back in the scheduler; the result lists the processes run.
\<close>

definition switchkvm :: "nat \<Rightarrow> kstate \<Rightarrow> kstate" where
  "switchkvm kpml4 s = s\<lparr>cr3 := v2p kpml4\<rparr>"

primrec scheduler_pass :: "nat \<Rightarrow> (nat \<Rightarrow> kstate \<Rightarrow> (unit, kstate) outcome) \<Rightarrow> nat list \<Rightarrow> kstate \<Rightarrow>
    (nat list, kstate) outcome" where
  "scheduler_pass kpml4 run [] s = Ret [] s"
| "scheduler_pass kpml4 run (i # is) s =
    (if pr_state (procs s ! i) \<noteq> RUNNABLE then scheduler_pass kpml4 run is s
     else
       obind (switchuvm i i s) (\<lambda>_ s.
       obind (run i (upd_proc i (\<lambda>p. p\<lparr>pr_state := RUNNING\<rparr>) s)) (\<lambda>_ s.
       obind (scheduler_pass kpml4 run is (switchkvm kpml4 s)) (\<lambda>ran s. Ret (i # ran) s))))"

definition scheduler_loop :: "nat \<Rightarrow> (nat \<Rightarrow> kstate \<Rightarrow> (unit, kstate) outcome) \<Rightarrow> kstate \<Rightarrow>
    (nat list, kstate) outcome" where
  "scheduler_loop kpml4 run s = scheduler_pass kpml4 run [0..<NPROC] s"

definition kill :: "int \<Rightarrow> kstate \<Rightarrow> int \<times> kstate" where
  "kill pid s =
    (case find_idx (\<lambda>p. pr_pid p = pid) (procs s) of
       None \<Rightarrow> (-1, s)
     | Some i \<Rightarrow> (0, upd_proc i (\<lambda>p. p\<lparr>pr_killed := True,
         pr_state := (if pr_state p = SLEEPING then RUNNABLE else pr_state p)\<rparr>) s))"

section \<open>The process listing\<close>

definition state_name :: "procstate \<Rightarrow> string" where
  "state_name st = (case st of UNUSED \<Rightarrow> ''unused'' | EMBRYO \<Rightarrow> ''embryo'' | SLEEPING \<Rightarrow> ''sleep ''
     | RUNNABLE \<Rightarrow> ''runble'' | RUNNING \<Rightarrow> ''run   '' | ZOMBIE \<Rightarrow> ''zombie'')"

definition procdump_one :: "mem \<Rightarrow> proc \<Rightarrow> consst \<Rightarrow> (unit, consst) outcome" where
  "procdump_one m p s =
    (if pr_state p = UNUSED then Ret () s
     else
       obind (cprintf (map of_char ''%d %s %s'') [CInt (of_int (pr_pid p)),
         CStr (Some (map of_char (state_name (pr_state p)))), CStr (Some (cstr 16 (ptr (pr_name p))))] s) (\<lambda>_ s.
       obind (if pr_state p = SLEEPING then
            ofor (takeWhile (\<lambda>pc. pc \<noteq> 0) (getstackpcs m (unat (load64 (pr_context p + 6 * 8) m))))
              (\<lambda>pc. cprintf (map of_char '' %p'') [CPtr (of_nat pc)]) s
          else Ret () s) (\<lambda>_ s.
       cprintf [10] [] s)))"

definition procdump :: "kstate \<Rightarrow> consst \<Rightarrow> (unit, consst) outcome" where
  "procdump s = ofor (procs s) (procdump_one (pmem (kmem (kfs s))))"

end
