(* ===== verification/Proc_Inv.thy ===== *)
theory Proc_Inv
  imports Proc
begin

text \<open>
  What holds of the process table in every reachable state: process ids, the tree of parents,
  and that a parent asleep in \<open>wait\<close> has no child to collect. The steps are the operations of
  the running processes and the scheduler's choices, in any order.
\<close>

section \<open>Invariants\<close>

abbreviation st_of :: "kstate \<Rightarrow> nat \<Rightarrow> procstate" where "st_of s i \<equiv> pr_state (procs s ! i)"
abbreviation pid_of :: "kstate \<Rightarrow> nat \<Rightarrow> int" where "pid_of s i \<equiv> pr_pid (procs s ! i)"
abbreviation parent_of :: "kstate \<Rightarrow> nat \<Rightarrow> nat option" where "parent_of s i \<equiv> pr_parent (procs s ! i)"
abbreviation chan_of :: "kstate \<Rightarrow> nat \<Rightarrow> chan option" where "chan_of s i \<equiv> pr_chan (procs s ! i)"
abbreviation slots :: "kstate \<Rightarrow> nat" where "slots s \<equiv> length (procs s)"

definition live :: "kstate \<Rightarrow> nat \<Rightarrow> bool" where
  "live s i \<longleftrightarrow> i < slots s \<and> st_of s i \<noteq> UNUSED"

definition parental :: "kstate \<Rightarrow> nat \<Rightarrow> bool" where
  "parental s i \<longleftrightarrow> i < slots s \<and> st_of s i \<noteq> UNUSED \<and> st_of s i \<noteq> ZOMBIE"

definition pids_ok :: "kstate \<Rightarrow> bool" where
  "pids_ok s \<longleftrightarrow> 0 < nextpid s \<and> (\<forall>i. live s i \<longrightarrow> 0 < pid_of s i \<and> pid_of s i < nextpid s) \<and>
    (\<forall>i j. live s i \<and> live s j \<and> pid_of s i = pid_of s j \<longrightarrow> i = j)"

definition tree_ok :: "kstate \<Rightarrow> bool" where
  "tree_ok s \<longleftrightarrow> (\<exists>r. initproc s = Some r \<and> parental s r \<and> parent_of s r = None \<and>
    (\<forall>i. live s i \<and> i \<noteq> r \<longrightarrow> (\<exists>q. parent_of s i = Some q \<and> q \<noteq> i \<and> parental s q))) \<and>
    (\<forall>i < slots s. st_of s i = UNUSED \<longrightarrow> parent_of s i = None)"

definition in_wait :: "kstate \<Rightarrow> nat \<Rightarrow> bool" where
  "in_wait s i \<longleftrightarrow> i < slots s \<and> st_of s i = SLEEPING \<and> chan_of s i = Some (ChProc i)"

definition wait_ok :: "kstate \<Rightarrow> bool" where
  "wait_ok s \<longleftrightarrow> (\<forall>i z. in_wait s i \<and> z < slots s \<and> parent_of s z = Some i \<longrightarrow> st_of s z \<noteq> ZOMBIE)"

definition proc_inv :: "kstate \<Rightarrow> bool" where
  "proc_inv s \<longleftrightarrow> pids_ok s \<and> tree_ok s \<and> wait_ok s"

lemma wait_okD:
  "wait_ok s \<Longrightarrow> in_wait s i \<Longrightarrow> z < slots s \<Longrightarrow> parent_of s z = Some i \<Longrightarrow> st_of s z \<noteq> ZOMBIE"
  by (auto simp: wait_ok_def)

section \<open>Steps that only wake\<close>

definition same_proc :: "kstate \<Rightarrow> kstate \<Rightarrow> nat \<Rightarrow> bool" where
  "same_proc s t i \<longleftrightarrow> pid_of t i = pid_of s i \<and> parent_of t i = parent_of s i \<and>
    chan_of t i = chan_of s i \<and> (st_of t i = st_of s i \<or> st_of s i = SLEEPING \<and> st_of t i = RUNNABLE)"

definition quiet :: "kstate \<Rightarrow> kstate \<Rightarrow> bool" where
  "quiet s t \<longleftrightarrow> slots t = slots s \<and> initproc t = initproc s \<and> nextpid t = nextpid s \<and>
    (\<forall>i < slots s. same_proc s t i)"

lemma quiet_refl [simp, intro]: "quiet s s"
  by (simp add: quiet_def same_proc_def)

lemma same_proc_trans: "same_proc s t i \<Longrightarrow> same_proc t u i \<Longrightarrow> same_proc s u i"
  by (auto simp: same_proc_def)

lemma quiet_trans [trans]: "quiet s t \<Longrightarrow> quiet t u \<Longrightarrow> quiet s u"
  using same_proc_trans by (fastforce simp: quiet_def)

lemma slots_upd [simp]: "slots (upd_proc i f s) = slots s"
    "initproc (upd_proc i f s) = initproc s" "nextpid (upd_proc i f s) = nextpid s"
  by (simp_all add: upd_proc_def)

lemma procs_upd: "j < slots s \<Longrightarrow> procs (upd_proc i f s) ! j = (if j = i then f (procs s ! j) else procs s ! j)"
  by (auto simp: upd_proc_def)

lemma quiet_wakeup1 [intro]: "quiet s (wakeup1 c s)"
  by (auto simp: quiet_def same_proc_def wakeup1_def wake_one_def)

lemma quiet_set_kmem [intro]: "quiet s (set_kmem k s)"
  by (simp add: quiet_def same_proc_def set_kmem_def)

lemma quiet_fold_pwakeup: "quiet s t \<Longrightarrow> quiet s (fold pwakeup cs t)"
proof (induction cs arbitrary: t)
  case (Cons c cs)
  have "quiet s (pwakeup c t)" using Cons.prems quiet_wakeup1 quiet_trans unfolding pwakeup_def by blast
  then show ?case using Cons.IH by simp
qed simp

lemma quiet_deliver [intro]: "quiet s (deliver t s)"
  unfolding deliver_def by (rule quiet_fold_pwakeup) (simp add: quiet_def same_proc_def)

lemma quiet_on_fs: "on_fs f s = Ret a t \<Longrightarrow> quiet s t"
  by (auto simp: on_fs_def split: outcome.splits)

lemma quiet_on_mem: "on_mem f s = Ret a t \<Longrightarrow> quiet s t"
  by (auto simp: on_mem_def split: outcome.splits)

lemma on_mem_same: "on_mem f s = Ret a t \<Longrightarrow> procs t = procs s"
  by (auto simp: on_mem_def set_kmem_def split: outcome.splits)

lemma quiet_upd_proc:
  assumes "\<And>p. pr_state (f p) = pr_state p" "\<And>p. pr_pid (f p) = pr_pid p"
    "\<And>p. pr_parent (f p) = pr_parent p" "\<And>p. pr_chan (f p) = pr_chan p"
  shows "quiet s (upd_proc i f s)"
  using assms by (auto simp: quiet_def same_proc_def procs_upd)

lemma quiet_live: "quiet s t \<Longrightarrow> live t i = live s i"
  by (auto simp: quiet_def same_proc_def live_def)

lemma quiet_parental: "quiet s t \<Longrightarrow> parental t i = parental s i"
  by (auto simp: quiet_def same_proc_def parental_def)

lemma quiet_in_wait: "quiet s t \<Longrightarrow> in_wait t i \<Longrightarrow> in_wait s i"
  by (auto simp: quiet_def same_proc_def in_wait_def)

lemma quiet_fields:
  assumes "quiet s t"
  shows "slots t = slots s" "initproc t = initproc s" "nextpid t = nextpid s"
    "i < slots s \<Longrightarrow> pid_of t i = pid_of s i" "i < slots s \<Longrightarrow> parent_of t i = parent_of s i"
    "i < slots s \<Longrightarrow> st_of t i = UNUSED \<longleftrightarrow> st_of s i = UNUSED"
    "i < slots s \<Longrightarrow> st_of t i = ZOMBIE \<longleftrightarrow> st_of s i = ZOMBIE"
  using assms by (auto simp: quiet_def same_proc_def)

lemma live_slot: "live s i \<Longrightarrow> i < slots s" "parental s i \<Longrightarrow> live s i"
  by (simp_all add: live_def parental_def)

lemma tree_okE:
  assumes "tree_ok s"
  obtains r where "initproc s = Some r" "parental s r" "parent_of s r = None"
    "\<And>i. live s i \<Longrightarrow> i \<noteq> r \<Longrightarrow> \<exists>q. parent_of s i = Some q \<and> q \<noteq> i \<and> parental s q"
    "\<And>i. i < slots s \<Longrightarrow> st_of s i = UNUSED \<Longrightarrow> parent_of s i = None"
  using assms by (auto simp: tree_ok_def)

lemma tree_okI:
  assumes "initproc s = Some r" "parental s r" "parent_of s r = None"
    "\<And>i. live s i \<Longrightarrow> i \<noteq> r \<Longrightarrow> \<exists>q. parent_of s i = Some q \<and> q \<noteq> i \<and> parental s q"
    "\<And>i. i < slots s \<Longrightarrow> st_of s i = UNUSED \<Longrightarrow> parent_of s i = None"
  shows "tree_ok s"
  using assms by (auto simp: tree_ok_def)

lemma quiet_inv: assumes "quiet s t" "proc_inv s" shows "proc_inv t"
proof -
  note q = quiet_fields[OF assms(1)] and l = quiet_live[OF assms(1)] and p = quiet_parental[OF assms(1)]
  have "pids_ok t" using assms(2) live_slot by (auto simp: proc_inv_def pids_ok_def q l)
  moreover have "tree_ok t"
  proof -
    from assms(2) have "tree_ok s" by (simp add: proc_inv_def)
    then show ?thesis
    proof (rule tree_okE)
      fix r assume r: "initproc s = Some r" "parental s r" "parent_of s r = None"
        "\<And>i. live s i \<Longrightarrow> i \<noteq> r \<Longrightarrow> \<exists>q. parent_of s i = Some q \<and> q \<noteq> i \<and> parental s q"
        "\<And>i. i < slots s \<Longrightarrow> st_of s i = UNUSED \<Longrightarrow> parent_of s i = None"
      show "tree_ok t"
      proof (rule tree_okI[of t r])
        show "parent_of t r = None" using r(2,3) live_slot q(5) by simp
        fix i assume "live t i" "i \<noteq> r"
        then show "\<exists>q. parent_of t i = Some q \<and> q \<noteq> i \<and> parental t q" using r(4)[of i] l p q(5) live_slot by simp
      qed (use r q p in auto)
    qed
  qed
  moreover have "wait_ok t"
    unfolding wait_ok_def
  proof (intro allI impI)
    fix i z assume a: "in_wait t i \<and> z < slots t \<and> parent_of t z = Some i"
    then have "in_wait s i" "z < slots s" "parent_of s z = Some i"
      using quiet_in_wait[OF assms(1), of i] q(5)[of z] by (simp_all add: q(1))
    then show "st_of t z \<noteq> ZOMBIE" using wait_okD[of s i z] assms(2) q(7) by (simp add: proc_inv_def)
  qed
  ultimately show ?thesis by (simp add: proc_inv_def)
qed

section \<open>Creation\<close>

definition spawned :: "procstate \<Rightarrow> nat option \<Rightarrow> nat \<Rightarrow> kstate \<Rightarrow> kstate \<Rightarrow> bool" where
  "spawned st par i s t \<longleftrightarrow> slots t = slots s \<and> initproc t = initproc s \<and> nextpid t = nextpid s + 1 \<and>
    i < slots s \<and> st_of s i = UNUSED \<and> (\<forall>j < slots s. j \<noteq> i \<longrightarrow> same_proc s t j) \<and>
    pid_of t i = nextpid s \<and> parent_of t i = par \<and> st_of t i = st"

lemma spawned_quiet: "spawned st par i s t \<Longrightarrow> quiet t u \<Longrightarrow> st \<noteq> SLEEPING \<Longrightarrow> spawned st par i s u"
  unfolding spawned_def quiet_def using same_proc_trans[of s t _ u] by (auto simp: same_proc_def)

lemma spawned_upd:
  assumes "spawned st par i s t" "\<And>p. pr_pid (f p) = pr_pid p"
  shows "spawned (pr_state (f (procs t ! i))) (pr_parent (f (procs t ! i))) i s (upd_proc i f t)"
  using assms by (auto simp: spawned_def procs_upd same_proc_def)

lemma set_kmem_simps [simp]: "procs (set_kmem k s) = procs s" "initproc (set_kmem k s) = initproc s"
    "nextpid (set_kmem k s) = nextpid s"
  by (simp_all add: set_kmem_def)

lemma allocproc_spawned:
  assumes "allocproc e s = (r, t)"
  shows "r = None \<and> t = s \<or> (\<exists>i. spawned (if r = None then UNUSED else EMBRYO) (parent_of s i) i s t \<and>
    (r = None \<or> r = Some i))"
proof (cases "find_idx (\<lambda>p. pr_state p = UNUSED) (procs s)")
  case (Some i)
  then have i: "i < slots s" "st_of s i = UNUSED" by (auto simp: find_idx_Some)
  then show ?thesis using assms Some
    by (intro disjI2 exI[of _ i])
      (auto simp: allocproc_def Let_def case_prod_beta spawned_def same_proc_def upd_proc_def split: if_splits)
qed (use assms in \<open>simp add: allocproc_def\<close>)

lemma quiet_then_upd:
  assumes "quiet s t" "\<And>p. pr_state (f p) = pr_state p" "\<And>p. pr_pid (f p) = pr_pid p"
    "\<And>p. pr_parent (f p) = pr_parent p" "\<And>p. pr_chan (f p) = pr_chan p"
  shows "quiet s (upd_proc i f t)"
  by (rule quiet_trans[OF assms(1)]) (rule quiet_upd_proc[OF assms(2-5)])

lemma dup_file_quiet: "dup_file me np fd s = Ret () t \<Longrightarrow> quiet s t"
  by (auto simp: dup_file_def obind_Ret_iff split: option.splits dest!: quiet_on_fs
      intro!: quiet_then_upd)

lemma ofor_quiet:
  "(\<And>i s t. body i s = Ret () t \<Longrightarrow> quiet s t) \<Longrightarrow> ofor is body s = Ret () t \<Longrightarrow> quiet s t"
proof (induction "is" arbitrary: s)
  case (Cons i "is")
  then obtain u where u: "body i s = Ret () u" "ofor is body u = Ret () t" by (auto simp: obind_Ret_iff)
  show ?case using quiet_trans[OF Cons.prems(1)[OF u(1)] Cons.IH[OF Cons.prems(1) u(2)]] by simp
qed simp

lemma dup_cwd_quiet: "dup_cwd me np s = Ret () t \<Longrightarrow> quiet s t"
  by (auto simp: dup_cwd_def obind_Ret_iff split: option.splits dest!: quiet_on_fs
      intro!: quiet_then_upd)

lemma fork_spawned:
  assumes "fork e me s = Ret r t"
  shows "r = -1 \<and> t = s \<or> (\<exists>i. r = -1 \<and> spawned UNUSED (parent_of s i) i s t) \<or>
    (\<exists>i. r = nextpid s \<and> spawned RUNNABLE (Some me) i s t)"
proof -
  obtain a u where a: "allocproc e s = (a, u)" by fastforce
  note sp = allocproc_spawned[OF a]
  show ?thesis
  proof (cases a)
    case None
    then show ?thesis using sp assms a by (auto simp: fork_def)
  next
    case (Some np)
    then have sp: "spawned EMBRYO (parent_of s np) np s u" using sp by auto
    let ?p = "procs u ! me"
    from assms Some a obtain d v where
      d: "on_mem (copyuvm (k_end e) (k_kpdpt e) (pr_pgdir ?p) (pr_sz ?p mod 2 ^ 32)) u = Ret d v"
      by (auto simp: fork_def obind_Ret_iff Let_def)
    define v' where "v' = upd_proc np (\<lambda>q. q\<lparr>pr_pgdir := d\<rparr>) v"
    have v: "spawned EMBRYO (parent_of s np) np s v'"
      unfolding v'_def by (rule spawned_quiet[OF spawned_quiet[OF sp quiet_on_mem[OF d]]])
        (auto intro: quiet_upd_proc)
    show ?thesis
    proof (cases "d = 0")
      case True
      then obtain w where w: "on_mem (kfree (k_end e) (pr_kstack (procs v' ! np))) v' = Ret () w"
          and t: "t = upd_proc np (\<lambda>q. q\<lparr>pr_kstack := 0, pr_state := UNUSED\<rparr>) w" and r: "r = -1"
        using assms Some a d by (auto simp: fork_def obind_Ret_iff v'_def Let_def)
      have sw: "spawned EMBRYO (parent_of s np) np s w"
        by (rule spawned_quiet[OF v quiet_on_mem[OF w]]) simp
      have "spawned UNUSED (parent_of s np) np s t"
        unfolding t using spawned_upd[OF sw, of "\<lambda>q. q\<lparr>pr_kstack := 0, pr_state := UNUSED\<rparr>"] sw
        by (simp add: spawned_def)
      then show ?thesis using r by blast
    next
      case False
      define w where "w = upd_proc np (\<lambda>q. q\<lparr>pr_sz := pr_sz ?p, pr_parent := Some me,
               pr_tf := (pr_tf ?p)\<lparr>tf_eax := 0\<rparr>\<rparr>) v'"
      have w: "spawned EMBRYO (Some me) np s w"
        unfolding w_def using spawned_upd[OF v, of "\<lambda>q. q\<lparr>pr_sz := pr_sz ?p, pr_parent := Some me,
               pr_tf := (pr_tf ?p)\<lparr>tf_eax := 0\<rparr>\<rparr>"] v by (simp add: spawned_def)
      obtain x y where x: "ofor [0..<NOFILE] (dup_file me np) w = Ret () x"
          and y: "dup_cwd me np x = Ret () y"
          and t: "t = upd_proc np (\<lambda>q. q\<lparr>pr_state := RUNNABLE\<rparr>)
              (upd_proc np (\<lambda>q. q\<lparr>pr_name := set_name (pr_name ?p) (pr_name q)\<rparr>) y)"
          and r: "r = pid_of (upd_proc np (\<lambda>q. q\<lparr>pr_name := set_name (pr_name ?p) (pr_name q)\<rparr>) y) np"
        using assms Some a d False by (auto simp: fork_def obind_Ret_iff v'_def w_def Let_def)
      let ?z = "upd_proc np (\<lambda>q. q\<lparr>pr_name := set_name (pr_name ?p) (pr_name q)\<rparr>) y"
      have "quiet w x" by (rule ofor_quiet[OF dup_file_quiet x])
      also have "quiet x y" by (rule dup_cwd_quiet[OF y])
      also have "quiet y ?z" by (rule quiet_upd_proc) simp_all
      finally have z: "spawned EMBRYO (Some me) np s ?z" using spawned_quiet[OF w] by simp
      have "spawned RUNNABLE (Some me) np s t"
        unfolding t using spawned_upd[OF z, of "\<lambda>q. q\<lparr>pr_state := RUNNABLE\<rparr>"] z by (simp add: spawned_def)
      then show ?thesis using r z by (auto simp: spawned_def)
    qed
  qed
qed

lemma spawned_inv:
  assumes "spawned st par i s t" "proc_inv s" "me < slots s" "st_of s me = RUNNING"
    "st = UNUSED \<and> par = parent_of s i \<or> st = RUNNABLE \<and> par = Some me"
  shows "proc_inv t"
proof -
  have i: "i < slots s" "st_of s i = UNUSED" "i \<noteq> me" using assms by (auto simp: spawned_def)
  have o: "same_proc s t j" if "j < slots s" "j \<noteq> i" for j using assms(1) that by (simp add: spawned_def)
  have t: "slots t = slots s" "initproc t = initproc s" "nextpid t = nextpid s + 1"
    "pid_of t i = nextpid s" "parent_of t i = par" "st_of t i = st" using assms(1) by (simp_all add: spawned_def)
  have lv: "live t j \<longleftrightarrow> (if j = i then st = RUNNABLE else live s j)" for j
    using o[of j] assms(5) i t by (auto simp: live_def same_proc_def)
  have pl: "parental s j \<Longrightarrow> parental t j" for j
    using o[of j] i t by (cases "j = i") (auto simp: parental_def same_proc_def)
  have pid: "pid_of t j = pid_of s j" "parent_of t j = parent_of s j" if "live s j" for j
    using o[of j] that i by (auto simp: live_def same_proc_def)
  have "pids_ok t"
  proof -
    have p: "0 < nextpid s" "\<And>j. live s j \<Longrightarrow> 0 < pid_of s j \<and> pid_of s j < nextpid s"
      "\<And>j k. live s j \<Longrightarrow> live s k \<Longrightarrow> pid_of s j = pid_of s k \<Longrightarrow> j = k"
      using assms(2) by (auto simp: proc_inv_def pids_ok_def)
    have "0 < pid_of t j \<and> pid_of t j < nextpid t" if "live t j" for j
      using that p(1) p(2)[of j] pid(1)[of j] lv[of j] t by (cases "j = i") auto
    moreover have "j = k" if jk: "live t j" "live t k" "pid_of t j = pid_of t k" for j k
    proof (rule ccontr)
      assume ne: "j \<noteq> k"
      have old: "pid_of t l = pid_of s l \<and> pid_of s l < nextpid s \<and> live s l" if "live t l" "l \<noteq> i" for l
        using that lv[of l] pid(1)[of l] p(2)[of l] by simp
      show False using jk ne old[of j] old[of k] p(3)[of j k] t(4) by (cases "j = i"; cases "k = i") simp_all
    qed
    ultimately show ?thesis using p(1) t(3) by (auto simp: pids_ok_def)
  qed
  moreover have "tree_ok t"
  proof -
    from assms(2) have "tree_ok s" by (simp add: proc_inv_def)
    then show ?thesis
    proof (rule tree_okE)
      fix r assume r: "initproc s = Some r" "parental s r" "parent_of s r = None"
        "\<And>i. live s i \<Longrightarrow> i \<noteq> r \<Longrightarrow> \<exists>q. parent_of s i = Some q \<and> q \<noteq> i \<and> parental s q"
        "\<And>i. i < slots s \<Longrightarrow> st_of s i = UNUSED \<Longrightarrow> parent_of s i = None"
      show "tree_ok t"
      proof (rule tree_okI[of t r])
        show "parent_of t r = None" using r(2,3) live_slot pid(2) by simp
        fix j assume j: "live t j" "j \<noteq> r"
        show "\<exists>q. parent_of t j = Some q \<and> q \<noteq> j \<and> parental t q"
        proof (cases "j = i")
          case True
          have "parental s me" using assms(3,4) by (simp add: parental_def)
          then show ?thesis using True j lv[of j] assms(5) t(5) pl i(3) by auto
        next
          case False
          then show ?thesis using j lv[of j] r(4)[of j] pid(2)[of j] pl by auto
        qed
      next
        fix j assume j: "j < slots t" "st_of t j = UNUSED"
        then show "parent_of t j = None"
          using r(5)[of j] o[of j] t assms(5) i by (cases "j = i") (auto simp: same_proc_def)
      qed (use r t pl in auto)
    qed
  qed
  moreover have "wait_ok t"
    unfolding wait_ok_def
  proof (intro allI impI)
    fix j z assume a: "in_wait t j \<and> z < slots t \<and> parent_of t z = Some j"
    show "st_of t z \<noteq> ZOMBIE"
    proof (cases "z = i \<or> j = i")
      case True
      then show ?thesis using t(6) assms(5) a by (auto simp: in_wait_def)
    next
      case False
      then have "in_wait s j" "parent_of s z = Some j" "st_of t z = ZOMBIE \<longrightarrow> st_of s z = ZOMBIE"
        using a o[of j] o[of z] t(1) by (auto simp: in_wait_def same_proc_def)
      moreover have "wait_ok s" using assms(2) by (simp add: proc_inv_def)
      ultimately show ?thesis using wait_okD[of s j z] a t(1) by auto
    qed
  qed
  ultimately show ?thesis by (simp add: proc_inv_def)
qed

section \<open>One process changes its scheduling state\<close>

text \<open>
  A step that changes only the state and the channel of one live process, to another state
  of a live process that has not exited.
\<close>

definition restated :: "nat \<Rightarrow> kstate \<Rightarrow> kstate \<Rightarrow> bool" where
  "restated i s t \<longleftrightarrow> slots t = slots s \<and> initproc t = initproc s \<and> nextpid t = nextpid s \<and>
    (\<forall>j < slots s. j \<noteq> i \<longrightarrow> same_proc s t j) \<and> pid_of t i = pid_of s i \<and> parent_of t i = parent_of s i \<and>
    parental s i \<and> st_of t i \<noteq> UNUSED \<and> st_of t i \<noteq> ZOMBIE"

lemma restated_inv:
  assumes "restated i s t" "proc_inv s"
    "in_wait t i \<Longrightarrow> \<forall>z < slots s. parent_of s z = Some i \<longrightarrow> st_of s z \<noteq> ZOMBIE"
  shows "proc_inv t"
proof -
  have i: "i < slots s" "st_of s i \<noteq> UNUSED" "st_of s i \<noteq> ZOMBIE"
    using assms(1) by (auto simp: restated_def parental_def)
  have t: "slots t = slots s" "initproc t = initproc s" "nextpid t = nextpid s"
    "st_of t i \<noteq> UNUSED" "st_of t i \<noteq> ZOMBIE" using assms(1) by (simp_all add: restated_def)
  have o: "same_proc s t j" if "j < slots s" "j \<noteq> i" for j using assms(1) that by (simp add: restated_def)
  have same: "pid_of t j = pid_of s j" "parent_of t j = parent_of s j"
    "st_of t j = UNUSED \<longleftrightarrow> st_of s j = UNUSED" "st_of t j = ZOMBIE \<longleftrightarrow> st_of s j = ZOMBIE"
    if "j < slots s" for j
    using o[of j] that assms(1) i t by (cases "j = i"; auto simp: same_proc_def restated_def)+
  have l: "live t j = live s j" for j using same(3)[of j] t(1) by (auto simp: live_def)
  have p: "parental t j = parental s j" for j using same(3,4)[of j] t(1) by (auto simp: parental_def)
  have "pids_ok t" using assms(2) live_slot same(1) by (auto simp: proc_inv_def pids_ok_def t l)
  moreover have "tree_ok t"
  proof -
    from assms(2) have "tree_ok s" by (simp add: proc_inv_def)
    then show ?thesis
    proof (rule tree_okE)
      fix r assume r: "initproc s = Some r" "parental s r" "parent_of s r = None"
        "\<And>i. live s i \<Longrightarrow> i \<noteq> r \<Longrightarrow> \<exists>q. parent_of s i = Some q \<and> q \<noteq> i \<and> parental s q"
        "\<And>i. i < slots s \<Longrightarrow> st_of s i = UNUSED \<Longrightarrow> parent_of s i = None"
      show "tree_ok t"
      proof (rule tree_okI[of t r])
        show "parent_of t r = None" using r(2,3) live_slot same(2) by simp
        fix j assume "live t j" "j \<noteq> r"
        then show "\<exists>q. parent_of t j = Some q \<and> q \<noteq> j \<and> parental t q" using r(4)[of j] l p same(2) live_slot by simp
      qed (use r t p same in auto)
    qed
  qed
  moreover have "wait_ok t"
    unfolding wait_ok_def
  proof (intro allI impI)
    fix j z assume a: "in_wait t j \<and> z < slots t \<and> parent_of t z = Some j"
    then have z: "z < slots s" "parent_of s z = Some j" using same(2)[of z] t(1) by auto
    show "st_of t z \<noteq> ZOMBIE"
    proof (cases "j = i")
      case True
      then show ?thesis using assms(3) a z same(4)[of z] by simp
    next
      case False
      then have "in_wait s j" using a o[of j] t(1) by (auto simp: in_wait_def same_proc_def)
      then show ?thesis using wait_okD[of s j z] assms(2) z same(4)[of z] by (simp add: proc_inv_def)
    qed
  qed
  ultimately show ?thesis by (simp add: proc_inv_def)
qed

lemma restated_upd:
  assumes "parental s i" "pr_pid (f (procs s ! i)) = pid_of s i" "pr_parent (f (procs s ! i)) = parent_of s i"
    "pr_state (f (procs s ! i)) \<noteq> UNUSED" "pr_state (f (procs s ! i)) \<noteq> ZOMBIE"
  shows "restated i s (upd_proc i f s)"
  using assms live_slot[of s i] by (auto simp: restated_def procs_upd same_proc_def)

section \<open>Exit\<close>

text \<open>The table after the first \<open>k\<close> turns of the loop that passes children to \<open>init\<close>.\<close>

definition passed :: "nat \<Rightarrow> nat \<Rightarrow> nat \<Rightarrow> kstate \<Rightarrow> kstate \<Rightarrow> bool" where
  "passed me init k s t \<longleftrightarrow> slots t = slots s \<and> initproc t = initproc s \<and> nextpid t = nextpid s \<and>
    (\<forall>i < slots s. pid_of t i = pid_of s i \<and> chan_of t i = chan_of s i \<and>
      parent_of t i = (if i < k \<and> parent_of s i = Some me then Some init else parent_of s i) \<and>
      (st_of t i = st_of s i \<or> st_of s i = SLEEPING \<and> st_of t i = RUNNABLE)) \<and>
    ((\<exists>z < k. parent_of s z = Some me \<and> st_of s z = ZOMBIE) \<longrightarrow> \<not> in_wait t init)"

lemma procs_wakeup1: "i < slots s \<Longrightarrow> procs (wakeup1 c s) ! i = wake_one c (procs s ! i)"
    "slots (wakeup1 c s) = slots s" "initproc (wakeup1 c s) = initproc s" "nextpid (wakeup1 c s) = nextpid s"
  by (simp_all add: wakeup1_def)

lemma wake_one_fields [simp]: "pr_pid (wake_one c p) = pr_pid p" "pr_parent (wake_one c p) = pr_parent p"
    "pr_chan (wake_one c p) = pr_chan p"
    "pr_state (wake_one c p) = (if pr_state p = SLEEPING \<and> pr_chan p = Some c then RUNNABLE else pr_state p)"
  by (simp_all add: wake_one_def)

lemma passed_step:
  assumes "passed me init k s t" "k < slots s" "me \<noteq> init"
  shows "passed me init (Suc k) s (reparent_one me init k t)"
proof (cases "parent_of s k = Some me")
  case False
  then have "reparent_one me init k t = t" using assms by (simp add: reparent_one_def passed_def)
  then show ?thesis using assms False by (auto simp: passed_def less_Suc_eq)
next
  case True
  define u where "u = upd_proc k (\<lambda>p. p\<lparr>pr_parent := Some init\<rparr>) t"
  have r: "reparent_one me init k t = (if st_of u k = ZOMBIE then wakeup1 (ChProc init) u else u)"
    using assms True by (simp add: reparent_one_def passed_def u_def Let_def)
  have "slots u = slots s" using assms by (simp add: u_def passed_def)
  have u: "procs u ! i = (if i = k then (procs t ! i)\<lparr>pr_parent := Some init\<rparr> else procs t ! i)"
    if "i < slots s" for i using assms that by (simp add: u_def procs_upd passed_def)
  have z: "st_of u k = ZOMBIE \<longleftrightarrow> st_of s k = ZOMBIE" using assms u[of k] by (auto simp: passed_def)
  have w: "in_wait u init \<Longrightarrow> in_wait t init"
    using assms u[of init] \<open>slots u = slots s\<close> by (auto simp: in_wait_def passed_def split: if_splits)
  have pu: "pid_of u i = pid_of s i \<and> chan_of u i = chan_of s i \<and>
      parent_of u i = (if i < Suc k \<and> parent_of s i = Some me then Some init else parent_of s i) \<and>
      (st_of u i = st_of s i \<or> st_of s i = SLEEPING \<and> st_of u i = RUNNABLE)" if "i < slots s" for i
    using assms(1,2) that True u[of i] by (auto simp: passed_def)
  have iu: "initproc u = initproc s" "nextpid u = nextpid s" using assms by (simp_all add: u_def passed_def)
  show ?thesis
  proof (cases "st_of s k = ZOMBIE")
    case True
    have "\<not> in_wait (wakeup1 (ChProc init) u) init"
      using \<open>slots u = slots s\<close> by (auto simp: in_wait_def procs_wakeup1 split: if_splits)
    moreover have "pid_of (wakeup1 (ChProc init) u) i = pid_of s i \<and> chan_of (wakeup1 (ChProc init) u) i = chan_of s i \<and>
      parent_of (wakeup1 (ChProc init) u) i =
        (if i < Suc k \<and> parent_of s i = Some me then Some init else parent_of s i) \<and>
      (st_of (wakeup1 (ChProc init) u) i = st_of s i \<or>
        st_of s i = SLEEPING \<and> st_of (wakeup1 (ChProc init) u) i = RUNNABLE)" if "i < slots s" for i
      using pu[OF that] that \<open>slots u = slots s\<close> by (auto simp: procs_wakeup1)
    ultimately show ?thesis using r z True \<open>slots u = slots s\<close> iu
      by (simp add: passed_def procs_wakeup1(2-4))
  next
    case False
    then show ?thesis using r z pu w \<open>slots u = slots s\<close> iu assms(1)
      by (simp add: passed_def less_Suc_eq) blast
  qed
qed

lemma passed_reparent:
  assumes "me \<noteq> init"
  shows "passed me init (slots s) s (reparent me init s)"
proof -
  have "k \<le> slots s \<Longrightarrow> passed me init k s (fold (reparent_one me init) [0..<k] s)" for k
  proof (induction k)
    case (Suc k)
    then show ?case using passed_step[OF _ _ assms, of k s] by simp
  qed (simp add: passed_def)
  then show ?thesis by (simp add: reparent_def)
qed

text \<open>The table after the part of \<open>exit\<close> that holds \<open>ptable.lock\<close>.\<close>

lemma exit_finish_table:
  assumes "proc_inv s" "me < slots s" "st_of s me = RUNNING" "initproc s = Some r" "r \<noteq> me"
    and q: "parent_of s me = Some q" "q \<noteq> me"
  defines "t \<equiv> exit_finish me s"
  shows "slots t = slots s" "initproc t = initproc s" "nextpid t = nextpid s"
    "\<And>j. j < slots s \<Longrightarrow> pid_of t j = pid_of s j \<and> chan_of t j = chan_of s j"
    "\<And>j. j < slots s \<Longrightarrow> parent_of t j = (if parent_of s j = Some me then Some r else parent_of s j)"
    "\<And>j. j < slots s \<Longrightarrow> j \<noteq> me \<Longrightarrow> st_of t j = st_of s j \<or> st_of s j = SLEEPING \<and> st_of t j = RUNNABLE"
    "st_of t me = ZOMBIE" "\<not> in_wait t q"
    "\<And>z. z < slots s \<Longrightarrow> parent_of s z = Some me \<Longrightarrow> st_of s z = ZOMBIE \<Longrightarrow> \<not> in_wait t r"
proof -
  define u where "u = wakeup1 (ChProc q) s"
  define v where "v = reparent me r u"
  have u: "slots u = slots s" "initproc u = initproc s" "nextpid u = nextpid s"
    by (simp_all add: u_def procs_wakeup1)
  have t: "t = upd_proc me (\<lambda>p. p\<lparr>pr_state := ZOMBIE\<rparr>) v"
    using assms(4) q(1) u(2) by (simp add: t_def exit_finish_def u_def v_def)
  have p: "passed me r (slots u) u v" unfolding v_def using assms(5) by (intro passed_reparent) simp
  have pu: "procs u ! j = wake_one (ChProc q) (procs s ! j)" if "j < slots s" for j
    using that by (simp add: u_def procs_wakeup1)
  have pv: "pid_of v j = pid_of u j" "chan_of v j = chan_of u j"
    "parent_of v j = (if parent_of u j = Some me then Some r else parent_of u j)"
    "st_of v j = st_of u j \<or> st_of u j = SLEEPING \<and> st_of v j = RUNNABLE" if "j < slots s" for j
    using p that u by (auto simp: passed_def)
  have sv: "slots v = slots s" "initproc v = initproc s" "nextpid v = nextpid s"
    using p u by (auto simp: passed_def)
  have pt: "procs t ! j = (if j = me then (procs v ! j)\<lparr>pr_state := ZOMBIE\<rparr> else procs v ! j)"
    if "j < slots s" for j using that sv by (simp add: t procs_upd)
  show "slots t = slots s" "initproc t = initproc s" "nextpid t = nextpid s" using sv by (simp_all add: t)
  show "pid_of t j = pid_of s j \<and> chan_of t j = chan_of s j" if "j < slots s" for j
    using that by (simp add: pt pv pu)
  show "parent_of t j = (if parent_of s j = Some me then Some r else parent_of s j)" if "j < slots s" for j
    using that by (simp add: pt pv pu)
  show "st_of t j = st_of s j \<or> st_of s j = SLEEPING \<and> st_of t j = RUNNABLE"
    if "j < slots s" "j \<noteq> me" for j
    using that pv(4)[of j] by (auto simp: pt pu split: if_splits)
  show "st_of t me = ZOMBIE" using assms(2) by (simp add: pt)
  have wt: "in_wait t j \<Longrightarrow> in_wait v j \<and> in_wait u j" for j
    using pv(2,4)[of j] sv u by (auto simp: in_wait_def t procs_upd split: if_splits)
  have "\<not> in_wait u q" using u pu[of q] by (auto simp: in_wait_def split: if_splits)
  then show "\<not> in_wait t q" using wt by blast
  fix z assume "z < slots s" "parent_of s z = Some me" "st_of s z = ZOMBIE"
  then have "z < slots u \<and> parent_of u z = Some me \<and> st_of u z = ZOMBIE" using pu[of z] u by simp
  then have "\<not> in_wait v r" using p by (auto simp: passed_def)
  then show "\<not> in_wait t r" using wt by blast
qed

lemma exit_finish_inv:
  assumes "proc_inv s" "me < slots s" "st_of s me = RUNNING" "initproc s \<noteq> Some me"
  shows "proc_inv (exit_finish me s)"
proof -
  have "tree_ok s" using assms(1) by (simp add: proc_inv_def)
  then show ?thesis
  proof (rule tree_okE)
    fix r assume r: "initproc s = Some r" "parental s r" "parent_of s r = None"
      "\<And>i. live s i \<Longrightarrow> i \<noteq> r \<Longrightarrow> \<exists>q. parent_of s i = Some q \<and> q \<noteq> i \<and> parental s q"
      "\<And>i. i < slots s \<Longrightarrow> st_of s i = UNUSED \<Longrightarrow> parent_of s i = None"
    define t where "t = exit_finish me s"
    have rm: "r \<noteq> me" using r(1) assms(4) by auto
    have "live s me" using assms(2,3) by (simp add: live_def)
    then obtain q where q: "parent_of s me = Some q" "q \<noteq> me" "parental s q" using r(4)[of me] rm by auto
    note x = exit_finish_table[OF assms(1-3) r(1) rm q(1,2), folded t_def]
    have l: "live t j = live s j" for j
      using x(1) x(6)[of j] x(7) assms(2,3) by (cases "j = me") (auto simp: live_def)
    have p: "parental t j \<longleftrightarrow> parental s j \<and> j \<noteq> me" for j
      using x(1) x(6)[of j] x(7) by (cases "j = me") (auto simp: parental_def)
    have "pids_ok t" using assms(1) live_slot x(4) by (auto simp: proc_inv_def pids_ok_def x(3) l)
    moreover have "tree_ok t"
    proof (rule tree_okI[of t r])
      show "parent_of t r = None" using r(2,3) live_slot x(5) by simp
      fix j assume j: "live t j" "j \<noteq> r"
      then obtain k where k: "parent_of s j = Some k" "k \<noteq> j" "parental s k" using r(4)[of j] l by auto
      moreover have "j < slots s" using j l live_slot by simp
      ultimately show "\<exists>q. parent_of t j = Some q \<and> q \<noteq> j \<and> parental t q"
        using x(5)[of j] p[of k] p[of r] r(2) rm j(2) by (cases "k = me") auto
    next
      fix j assume j: "j < slots t" "st_of t j = UNUSED"
      then have "j < slots s" "st_of s j = UNUSED" using x(1) x(6)[of j] x(7) by (cases "j = me"; auto)+
      then show "parent_of t j = None" using r(5)[of j] x(5)[of j] by simp
    qed (use r x p rm in auto)
    moreover have "wait_ok t"
      unfolding wait_ok_def
    proof (intro allI impI notI)
      fix j z assume a: "in_wait t j \<and> z < slots t \<and> parent_of t z = Some j" and zz: "st_of t z = ZOMBIE"
      have z: "z < slots s" using a x(1) by simp
      have j: "j \<noteq> me" using a x(7) by (auto simp: in_wait_def)
      have js: "in_wait s j" using a x(1) x(4)[of j] x(6)[of j] j by (auto simp: in_wait_def)
      show False
      proof (cases "z = me")
        case True
        then show ?thesis using a x(5)[OF z] x(8) q by auto
      next
        case False
        then have "st_of s z = ZOMBIE" using x(6)[OF z] zz by auto
        then show ?thesis
          using a x(5)[OF z] x(9)[OF z] wait_okD[OF _ js z] assms(1) by (auto simp: proc_inv_def split: if_splits)
      qed
    qed
    ultimately show "proc_inv (exit_finish me s)" by (simp add: proc_inv_def t_def)
  qed
qed

section \<open>Wait and kill\<close>

lemma on_mem_fields:
  "on_mem f s = Ret a t \<Longrightarrow> procs t = procs s \<and> initproc t = initproc s \<and> nextpid t = nextpid s"
  by (auto simp: on_mem_def split: outcome.splits)

definition reaped :: "nat \<Rightarrow> kstate \<Rightarrow> kstate \<Rightarrow> bool" where
  "reaped i s t \<longleftrightarrow> slots t = slots s \<and> initproc t = initproc s \<and> nextpid t = nextpid s \<and>
    (\<forall>j < slots s. j \<noteq> i \<longrightarrow> procs t ! j = procs s ! j) \<and>
    st_of t i = UNUSED \<and> parent_of t i = None \<and> pid_of t i = 0 \<and> \<not> pr_killed (procs t ! i)"

lemma reap_reaped:
  assumes "reap e i s = Ret pid t" "i < slots s"
  shows "pid = pid_of s i \<and> reaped i s t"
proof -
  from assms(1) obtain u v where u: "on_mem (kfree (k_end e) (pr_kstack (procs s ! i))) s = Ret () u"
    and v: "on_mem (freevm (k_end e) (pr_pgdir (procs (upd_proc i (\<lambda>p. p\<lparr>pr_kstack := 0\<rparr>) u) ! i)))
      (upd_proc i (\<lambda>p. p\<lparr>pr_kstack := 0\<rparr>) u) = Ret () v"
    and t: "t = upd_proc i (\<lambda>p. p\<lparr>pr_state := UNUSED, pr_pid := 0, pr_parent := None,
       pr_name := (pr_name p)[0 := 0], pr_killed := False\<rparr>) v" and "pid = pid_of s i"
    by (auto simp: reap_def obind_Ret_iff Let_def)
  moreover have "slots v = slots s" "initproc v = initproc s" "nextpid v = nextpid s"
    "\<And>j. j < slots s \<Longrightarrow> j \<noteq> i \<Longrightarrow> procs v ! j = procs s ! j"
    using on_mem_fields[OF u] on_mem_fields[OF v] by (auto simp: procs_upd)
  ultimately show ?thesis using assms(2) by (simp add: reaped_def t procs_upd)
qed

lemma reaped_inv:
  assumes "reaped i s t" "proc_inv s" "i < slots s" "st_of s i = ZOMBIE"
  shows "proc_inv t"
proof -
  have t: "slots t = slots s" "initproc t = initproc s" "nextpid t = nextpid s" "st_of t i = UNUSED"
    "parent_of t i = None" using assms(1) by (simp_all add: reaped_def)
  have o: "procs t ! j = procs s ! j" if "j < slots s" "j \<noteq> i" for j using assms(1) that by (simp add: reaped_def)
  have l: "live t j \<longleftrightarrow> live s j \<and> j \<noteq> i" for j using o[of j] t by (cases "j = i") (auto simp: live_def)
  have p: "parental t j \<longleftrightarrow> parental s j" for j
    using o[of j] t assms(4) by (cases "j = i") (auto simp: parental_def)
  have ps: "pid_of t j = pid_of s j" if "live s j" "j \<noteq> i" for j using o[of j] that live_slot by simp
  have "pids_ok t" using assms(2) ps by (auto simp: proc_inv_def pids_ok_def t l)
  moreover have "tree_ok t"
  proof -
    from assms(2) have "tree_ok s" by (simp add: proc_inv_def)
    then show ?thesis
    proof (rule tree_okE)
      fix r assume r: "initproc s = Some r" "parental s r" "parent_of s r = None"
        "\<And>i. live s i \<Longrightarrow> i \<noteq> r \<Longrightarrow> \<exists>q. parent_of s i = Some q \<and> q \<noteq> i \<and> parental s q"
        "\<And>i. i < slots s \<Longrightarrow> st_of s i = UNUSED \<Longrightarrow> parent_of s i = None"
      have ri: "r \<noteq> i" using r(2) assms(4) by (auto simp: parental_def)
      show "tree_ok t"
      proof (rule tree_okI[of t r])
        show "parent_of t r = None" using r(2,3) ri o[of r] live_slot by simp
        fix j assume j: "live t j" "j \<noteq> r"
        then show "\<exists>q. parent_of t j = Some q \<and> q \<noteq> j \<and> parental t q"
          using r(4)[of j] l[of j] p o[of j] live_slot by simp
      next
        fix j assume "j < slots t" "st_of t j = UNUSED"
        then show "parent_of t j = None" using r(5)[of j] o[of j] t by (cases "j = i") auto
      qed (use r t p in auto)
    qed
  qed
  moreover have "wait_ok t"
    unfolding wait_ok_def
  proof (intro allI impI)
    fix j z assume a: "in_wait t j \<and> z < slots t \<and> parent_of t z = Some j"
    then have zi: "z \<noteq> i" "z < slots s" "j \<noteq> i" "j < slots s" using t by (auto simp: in_wait_def)
    then have "in_wait s j" "parent_of s z = Some j" using a o[of j] o[of z] t(1) by (auto simp: in_wait_def)
    then show "st_of t z \<noteq> ZOMBIE" using wait_okD[of s j z] assms(2) zi o[of z] by (simp add: proc_inv_def)
  qed
  ultimately show ?thesis by (simp add: proc_inv_def)
qed

lemma wait_inv:
  assumes "proc_inv s" "wait e me s = Ret r t"
  shows "proc_inv t"
proof (cases "find_idx (\<lambda>p. pr_parent p = Some me \<and> pr_state p = ZOMBIE) (procs s)")
  case None
  then show ?thesis using assms by (auto simp: wait_def split: if_splits)
next
  case (Some i)
  then have "i < slots s" "st_of s i = ZOMBIE" by (auto simp: find_idx_Some)
  moreover have "reap e i s = Ret r t" using assms(2) Some by (simp add: wait_def)
  ultimately show ?thesis using reaped_inv[of i s t] reap_reaped[of e i s r t] assms(1) by blast
qed

lemma obind_Sleep_iff:
  "obind m f = Sleep c t \<longleftrightarrow> m = Sleep c t \<or> (\<exists>a u. m = Ret a u \<and> f a u = Sleep c t)"
  by (cases m) auto

lemma wait_sleep:
  assumes "wait e me s = Sleep c t"
  shows "c = ChProc me \<and> t = s \<and> (\<forall>z < slots s. parent_of s z = Some me \<longrightarrow> st_of s z \<noteq> ZOMBIE)"
proof (cases "find_idx (\<lambda>p. pr_parent p = Some me \<and> pr_state p = ZOMBIE) (procs s)")
  case None
  then have "\<forall>z < slots s. parent_of s z = Some me \<longrightarrow> st_of s z \<noteq> ZOMBIE" by (simp add: find_idx_None)
  then show ?thesis using assms None by (simp add: wait_def split: if_splits)
next
  case (Some i)
  then have "reap e i s = Sleep c t" using assms by (simp add: wait_def)
  moreover have "on_mem f v \<noteq> Sleep c t" for f :: "kmemst \<Rightarrow> (unit, kmemst) outcome" and v
    by (auto simp: on_mem_def split: outcome.splits)
  ultimately have False
    by (auto simp: reap_def Let_def obind_Sleep_iff)
  then show ?thesis ..
qed

lemma kill_quiet: "kill pid s = (r, t) \<Longrightarrow> quiet s t"
  by (auto simp: kill_def quiet_def same_proc_def procs_upd split: option.splits if_splits)

section \<open>The process system\<close>

text \<open>
  One step: a running process makes a call, or runs any other part of the kernel or of its
  program, which may wake processes but changes only its own entry and not its scheduling
  state; an interrupt wakes processes; the scheduler picks a runnable process.
\<close>

abbreviation running :: "kstate \<Rightarrow> nat \<Rightarrow> bool" where
  "running s me \<equiv> me < slots s \<and> st_of s me = RUNNING"

definition keeps_scheduling :: "(proc \<Rightarrow> proc) \<Rightarrow> bool" where
  "keeps_scheduling f \<longleftrightarrow> (\<forall>p. pr_state (f p) = pr_state p \<and> pr_pid (f p) = pr_pid p \<and>
    pr_parent (f p) = pr_parent p \<and> pr_chan (f p) = pr_chan p)"

inductive kstep :: "kenv \<Rightarrow> kstate \<Rightarrow> kstate \<Rightarrow> bool" for e where
  kfork: "running s me \<Longrightarrow> fork e me s = Ret r t \<Longrightarrow> kstep e s t"
| kexit: "running s me \<Longrightarrow> initproc s \<noteq> Some me \<Longrightarrow> kstep e s (exit_finish me s)"
| kwait: "running s me \<Longrightarrow> wait e me s = Ret r t \<Longrightarrow> kstep e s t"
| kwaitsleep: "running s me \<Longrightarrow> wait e me s = Sleep c u \<Longrightarrow> sleep_enter (Some me) True c u = Ret () t \<Longrightarrow>
    kstep e s t"
| ksleep: "running s me \<Longrightarrow> c \<noteq> ChProc me \<Longrightarrow> sleep_enter (Some me) True c s = Ret () t \<Longrightarrow> kstep e s t"
| kresume: "running s me \<Longrightarrow> kstep e s (sleep_leave me s)"
| kyield: "running s me \<Longrightarrow> kstep e s (yield me s)"
| kkill: "kill pid s = (r, t) \<Longrightarrow> kstep e s t"
| kwork: "running s me \<Longrightarrow> keeps_scheduling f \<Longrightarrow> kstep e s (deliver u (upd_proc me f s))"
| kintr: "kstep e s (deliver u s)"
| kpick: "i < slots s \<Longrightarrow> st_of s i = RUNNABLE \<Longrightarrow>
    kstep e s (upd_proc i (\<lambda>p. p\<lparr>pr_state := RUNNING\<rparr>) s)"

inductive kreach :: "kenv \<Rightarrow> kstate \<Rightarrow> kstate \<Rightarrow> bool" for e s0 where
  kr0: "kreach e s0 s0"
| krS: "kreach e s0 s \<Longrightarrow> kstep e s t \<Longrightarrow> kreach e s0 t"

lemma running_parental: "running s me \<Longrightarrow> parental s me"
  by (simp add: parental_def)

lemma kstep_inv: "kstep e s t \<Longrightarrow> proc_inv s \<Longrightarrow> proc_inv t"
proof (induction rule: kstep.induct)
  case (kfork s me r t)
  then show ?case using fork_spawned[OF kfork(2)] spawned_inv[of _ _ _ s t me] by blast
next
  case (kexit s me)
  then show ?case using exit_finish_inv by blast
next
  case (kwait s me r t)
  then show ?case using wait_inv by blast
next
  case (kwaitsleep s me c u t)
  note w = wait_sleep[OF kwaitsleep(2)]
  let ?f = "\<lambda>p. p\<lparr>pr_chan := Some c, pr_state := SLEEPING\<rparr>"
  have t: "t = upd_proc me ?f s" using kwaitsleep(3) w by (simp add: sleep_enter_def)
  have "restated me s t" unfolding t by (rule restated_upd) (use kwaitsleep running_parental in auto)
  then show ?case using restated_inv[of me s t] kwaitsleep w by blast
next
  case (ksleep s me c t)
  let ?f = "\<lambda>p. p\<lparr>pr_chan := Some c, pr_state := SLEEPING\<rparr>"
  have t: "t = upd_proc me ?f s" using ksleep(3) by (simp add: sleep_enter_def)
  have "restated me s t" unfolding t by (rule restated_upd) (use ksleep running_parental in auto)
  moreover have "\<not> in_wait t me" using ksleep by (simp add: t in_wait_def procs_upd)
  ultimately show ?case using restated_inv[of me s t] ksleep by blast
next
  case (kresume s me)
  have "restated me s (sleep_leave me s)"
    unfolding sleep_leave_def by (rule restated_upd) (use kresume running_parental in auto)
  moreover have "\<not> in_wait (sleep_leave me s) me" using kresume by (simp add: sleep_leave_def in_wait_def procs_upd)
  ultimately show ?case using restated_inv[of me s "sleep_leave me s"] kresume by blast
next
  case (kyield s me)
  have "restated me s (yield me s)"
    unfolding yield_def by (rule restated_upd) (use kyield running_parental in auto)
  moreover have "\<not> in_wait (yield me s) me" using kyield by (simp add: yield_def in_wait_def procs_upd)
  ultimately show ?case using restated_inv[of me s "yield me s"] kyield by blast
next
  case (kkill pid s r t)
  then show ?case using quiet_inv kill_quiet by blast
next
  case (kwork s me f u)
  then have "quiet s (upd_proc me f s)" by (intro quiet_upd_proc) (simp_all add: keeps_scheduling_def)
  then show ?case using quiet_inv quiet_trans quiet_deliver kwork.prems by blast
next
  case (kintr s u)
  then show ?case using quiet_inv quiet_deliver by blast
next
  case (kpick i s)
  let ?t = "upd_proc i (\<lambda>p. p\<lparr>pr_state := RUNNING\<rparr>) s"
  have "restated i s ?t" by (rule restated_upd) (use kpick in \<open>auto simp: parental_def\<close>)
  moreover have "\<not> in_wait ?t i" using kpick by (simp add: in_wait_def procs_upd)
  ultimately show ?case using restated_inv[of i s ?t] kpick by blast
qed

section \<open>Properties\<close>


text \<open>
  A table with \<open>init\<close> asleep in \<open>wait\<close>, a running child of it, an exited grandchild, and a free slot.
\<close>

definition ex_proc :: "procstate \<Rightarrow> int \<Rightarrow> nat option \<Rightarrow> chan option \<Rightarrow> proc" where
  "ex_proc st pid par ch = \<lparr>pr_sz = 4096, pr_pgdir = 0xFFFFFFFF80200000, pr_kstack = 0xFFFFFFFF80300000,
    pr_state = st, pr_pid = pid, pr_parent = par, pr_tf = zero_tf, pr_context = 0, pr_chan = ch,
    pr_killed = False, pr_ofile = replicate 16 None, pr_cwd = Some 0, pr_name = replicate 16 0\<rparr>"

definition ex_constate :: constate where
  "ex_constate = fstate.extend ex_files \<lparr>cons = ex_cons, input = ex_input\<rparr>"

definition ex_kernel :: kstate where
  "ex_kernel = \<lparr>kfs = ex_constate,
    procs = [ex_proc SLEEPING 1 None (Some (ChProc 0)), ex_proc RUNNING 2 (Some 0) None,
      ex_proc ZOMBIE 3 (Some 1) None, (ex_proc UNUSED 0 None None)],
    initproc = Some 0, nextpid = 4, ticks = 0, cr3 = 0, rsp0 = 0, kbdshift = 0\<rparr>"

lemma ex_kernel_inv: "proc_inv ex_kernel"
proof -
  have p: "procs ex_kernel ! 0 = ex_proc SLEEPING 1 None (Some (ChProc 0))"
    "procs ex_kernel ! 1 = ex_proc RUNNING 2 (Some 0) None" "procs ex_kernel ! 2 = ex_proc ZOMBIE 3 (Some 1) None"
    "procs ex_kernel ! 3 = ex_proc UNUSED 0 None None" "slots ex_kernel = 4" "initproc ex_kernel = Some 0"
    "nextpid ex_kernel = 4"
    by (simp_all add: ex_kernel_def)
  have c: "i < 4 \<longleftrightarrow> i = 0 \<or> i = 1 \<or> i = 2 \<or> i = (3 :: nat)" for i by auto
  have l: "live ex_kernel i \<longleftrightarrow> i = 0 \<or> i = 1 \<or> i = 2" for i
    using p by (auto simp: live_def c ex_proc_def)
  have pa: "parental ex_kernel i \<longleftrightarrow> i = 0 \<or> i = 1" for i
    using p by (auto simp: parental_def c ex_proc_def)
  have w: "in_wait ex_kernel i \<longleftrightarrow> i = 0" for i
    using p by (auto simp: in_wait_def c ex_proc_def)
  have "pids_ok ex_kernel" using p by (auto simp: pids_ok_def l ex_proc_def)
  moreover have "tree_ok ex_kernel"
    by (rule tree_okI[of _ 0]) (use p in \<open>auto simp: l pa c ex_proc_def\<close>)
  moreover have "wait_ok ex_kernel" using p by (auto simp: wait_ok_def w c ex_proc_def)
  ultimately show ?thesis by (simp add: proc_inv_def)
qed


end
