(* ===== verification/Syscall.thy ===== *)
theory Syscall
  imports Proc_Live
begin

text \<open>
  System-call arguments (\<^verbatim>\<open>kernel/syscall.c\<close>, the 64-bit build, where arguments are passed in
  registers). The kernel reads and writes user memory at user addresses, through the page table
  of the current process: an address without a present page is a fault inside the kernel.
\<close>

section \<open>User memory as the kernel sees it\<close>

definition user_addr :: "nat \<Rightarrow> nat \<Rightarrow> kmemst \<Rightarrow> nat option" where
  "user_addr pgdir va k = (case fst (walkpgdir pgdir va False k) of None \<Rightarrow> None
    | Some pte \<Rightarrow>
      let e = load64 pte (pmem k) in
      if present e then Some (p2v (PTE_ADDR e) + va mod PGSIZE) else None)"

definition user_byte :: "nat \<Rightarrow> nat \<Rightarrow> kstate \<Rightarrow> uchar option" where
  "user_byte me va s = (let k = kmem (kfs s) in
    map_option (pmem k) (user_addr (pr_pgdir (procs s ! me)) va k))"

primrec user_bytes :: "nat \<Rightarrow> nat \<Rightarrow> nat \<Rightarrow> kstate \<Rightarrow> uchar list option" where
  "user_bytes me va 0 s = Some []"
| "user_bytes me va (Suc n) s = (case user_byte me va s of None \<Rightarrow> None
    | Some b \<Rightarrow> map_option ((#) b) (user_bytes me (va + 1) n s))"

primrec user_store :: "nat \<Rightarrow> nat \<Rightarrow> uchar list \<Rightarrow> kstate \<Rightarrow> (unit, kstate) outcome" where
  "user_store me va [] s = Ret () s"
| "user_store me va (b # bs) s = (let k = kmem (kfs s) in
    case user_addr (pr_pgdir (procs s ! me)) va k of None \<Rightarrow> Fault
    | Some a \<Rightarrow> user_store me (va + 1) bs (set_kmem (k\<lparr>pmem := (pmem k)(a := b)\<rparr>) s))"

definition user_load :: "nat \<Rightarrow> nat \<Rightarrow> nat \<Rightarrow> kstate \<Rightarrow> (uchar list, kstate) outcome" where
  "user_load me va n s = (case user_bytes me va n s of None \<Rightarrow> Fault | Some bs \<Rightarrow> Ret bs s)"

section \<open>Fetching\<close>

text \<open>
  Addresses are 64-bit and their sums wrap. A fetch gives \<open>None\<close> where the code returns -1.
\<close>

abbreviation psz :: "nat \<Rightarrow> kstate \<Rightarrow> nat" where
  "psz me s \<equiv> pr_sz (procs s ! me)"

definition in_space :: "nat \<Rightarrow> uintp \<Rightarrow> uintp \<Rightarrow> kstate \<Rightarrow> bool" where
  "in_space me addr n s \<longleftrightarrow> \<not> (psz me s \<le> unat addr \<or> psz me s < unat (addr + n))"

definition fetchint :: "nat \<Rightarrow> uintp \<Rightarrow> kstate \<Rightarrow> (uint option, kstate) outcome" where
  "fetchint me addr s =
    (if \<not> in_space me addr 4 s then Ret None s
     else obind (user_load me (unat addr) 4 s) (\<lambda>bs s. Ret (Some (unle32 bs)) s))"

definition fetchuintp :: "nat \<Rightarrow> uintp \<Rightarrow> kstate \<Rightarrow> (uintp option, kstate) outcome" where
  "fetchuintp me addr s =
    (if \<not> in_space me addr 8 s then Ret None s
     else obind (user_load me (unat addr) 8 s) (\<lambda>bs s. Ret (Some (unle64 bs)) s))"

text \<open>
  The scan of \<open>fetchstr\<close> over \<open>n\<close> bytes up to the end of the process; the string is returned
  as its bytes.
\<close>

primrec fetchstr_from :: "nat \<Rightarrow> nat \<Rightarrow> nat \<Rightarrow> kstate \<Rightarrow> (uchar list option, kstate) outcome" where
  "fetchstr_from me a 0 s = Ret None s"
| "fetchstr_from me a (Suc n) s = (case user_byte me a s of None \<Rightarrow> Fault
    | Some b \<Rightarrow>
      if b = 0 then Ret (Some []) s
      else obind (fetchstr_from me (a + 1) n s) (\<lambda>r s. Ret (map_option ((#) b) r) s))"

definition fetchstr :: "nat \<Rightarrow> uintp \<Rightarrow> kstate \<Rightarrow> (uchar list option, kstate) outcome" where
  "fetchstr me addr s =
    (if psz me s \<le> unat addr then Ret None s
     else fetchstr_from me (unat addr) (psz me s - unat addr) s)"

section \<open>Arguments\<close>

definition fetcharg :: "nat \<Rightarrow> nat \<Rightarrow> kstate \<Rightarrow> uintp" where
  "fetcharg me n s = (let tf = pr_tf (procs s ! me) in
    if n = 0 then tf_rdi tf else if n = 1 then tf_rsi tf else if n = 2 then tf_rdx tf
    else if n = 3 then tf_rcx tf else if n = 4 then tf_r8 tf else if n = 5 then tf_r9 tf else 0)"

definition argint :: "nat \<Rightarrow> nat \<Rightarrow> kstate \<Rightarrow> uint" where
  "argint me n s = ucast (fetcharg me n s)"

definition arguintp :: "nat \<Rightarrow> nat \<Rightarrow> kstate \<Rightarrow> uintp" where
  "arguintp me n s = fetcharg me n s"

definition argptr :: "nat \<Rightarrow> nat \<Rightarrow> uint \<Rightarrow> kstate \<Rightarrow> uintp option" where
  "argptr me n sz s = (let i = arguintp me n s in
    if psz me s \<le> unat i \<or> psz me s < unat (i + scast sz) then None else Some i)"

definition argstr :: "nat \<Rightarrow> nat \<Rightarrow> kstate \<Rightarrow> (uchar list option, kstate) outcome" where
  "argstr me n s = fetchstr me (arguintp me n s) s"

section \<open>Properties\<close>

text \<open>
  C30: A pointer argument accepted with a count that is not negative denotes bytes that all lie
  inside the process: no 64-bit wrap-around gets an address past the check.
\<close>

theorem argptr_in_process:
  assumes "argptr me n sz s = Some p" "0 \<le> sint sz" "psz me s \<le> 2 ^ 63"
  shows "unat p + nat (sint sz) \<le> psz me s \<and> p = fetcharg me n s"
proof -
  let ?i = "arguintp me n s"
  have a: "p = ?i" "unat ?i < psz me s" "unat (?i + scast sz) \<le> psz me s"
    using assms(1) by (auto simp: argptr_def Let_def split: if_splits)
  have lt: "sint sz < 2 ^ 31" using sint_lt[of sz] by simp
  have u: "unat (scast sz :: uintp) = nat (sint sz)"
  proof -
    have "uint (word_of_int (sint sz) :: uintp) = sint sz mod 2 ^ 64" by (subst uint_word_of_int) simp
    then have "uint (scast sz :: uintp) = sint sz mod 2 ^ 64" by (simp only: scast_eq)
    also have "\<dots> = sint sz" using assms(2) lt by simp
    finally show ?thesis by (simp flip: nat_uint_eq)
  qed
  have "unat ?i + nat (sint sz) < 2 ^ LENGTH(64)" using a(2) assms(3) lt by simp
  then have "unat (?i + scast sz) = unat ?i + nat (sint sz)"
    unfolding unat_word_ariths u by (rule mod_less)
  then show ?thesis using a by (simp add: arguintp_def)
qed

definition ex_args :: "uintp \<Rightarrow> kstate" where
  "ex_args a = upd_proc 1 (\<lambda>p. p\<lparr>pr_tf := zero_tf\<lparr>tf_rsi := a\<rparr>\<rparr>) ex_kernel"

lemma ex_args_simps: "psz (Suc 0) (ex_args a) = 4096" "fetcharg (Suc 0) (Suc 0) (ex_args a) = a"
  by (simp_all add: ex_args_def upd_proc_def ex_kernel_def ex_proc_def fetcharg_def)

lemma argptr_in_process_witness: "unat (4000 :: uintp) + 96 \<le> psz 1 (ex_args 4000)"
proof -
  have "argptr 1 1 96 (ex_args 4000) = Some 4000"
    by (simp add: argptr_def arguintp_def ex_args_simps)
  from argptr_in_process[OF this] show ?thesis by (simp add: ex_args_simps)
qed

text \<open>
  C31: The same check accepts a negative count whenever the address plus the count stays below
  the size of the process, although the bytes it is then used for are not inside it: with a
  count of -1, \<open>argptr\<close> accepts every address from 1 to the last byte of the process.
\<close>

theorem argptr_accepts_negative:
  assumes "psz me s < 2 ^ 63" "0 < fetcharg me n s" "unat (fetcharg me n s) < psz me s"
  shows "argptr me n (-1) s = Some (fetcharg me n s)"
proof -
  let ?i = "fetcharg me n s"
  have "scast (-1 :: uint) = (-1 :: uintp)" by simp
  moreover have "unat (?i - 1) = unat ?i - 1" using assms(2) by (simp add: unat_minus_one word_neq_0_conv)
  ultimately show ?thesis using assms(3) by (simp add: argptr_def arguintp_def Let_def)
qed

lemma argptr_accepts_negative_witness: "argptr 1 1 (-1) (ex_args 4095) = Some 4095"
proof -
  have "psz 1 (ex_args 4095) < 2 ^ 63" "0 < fetcharg 1 1 (ex_args 4095)"
    "unat (fetcharg 1 1 (ex_args 4095)) < psz 1 (ex_args 4095)" by (simp_all add: ex_args_simps)
  from argptr_accepts_negative[OF this] show ?thesis by (simp add: ex_args_simps)
qed

text \<open>
  C32: A string argument. When the bytes of the process from the address on are mapped, a fetched
  string is what memory holds up to the first zero byte, which lies inside the process; the
  fetch fails exactly when there is no zero byte before the end of the process.
\<close>

theorem fetchstr_correct:
  assumes "unat addr < psz me s" "user_bytes me (unat addr) (psz me s - unat addr) s = Some bs"
  shows "fetchstr me addr s = Ret (if 0 \<in> set bs then Some (takeWhile (\<lambda>b. b \<noteq> 0) bs) else None) s"
proof -
  have "user_bytes me a n s = Some bs \<Longrightarrow>
    fetchstr_from me a n s = Ret (if 0 \<in> set bs then Some (takeWhile (\<lambda>b. b \<noteq> 0) bs) else None) s" for a n
    by (induction n arbitrary: a bs) (auto split: option.splits)
  then show ?thesis using assms by (simp add: fetchstr_def)
qed

text \<open>
  A process of two bytes whose page directory and page table entries are all 7 (present,
  writable, user, frame 0).
\<close>

definition ex_mapped :: kstate where
  "ex_mapped = upd_proc 1 (\<lambda>p. p\<lparr>pr_sz := 2, pr_pgdir := 4096\<rparr>)
    (set_kmem (kone\<lparr>pmem := (\<lambda>a. if a mod 8 = 0 then 7 else 0)\<rparr>) ex_kernel)"

lemma add_aligned: "a mod 8 = 0 \<Longrightarrow> (a + i) mod 8 = i mod (8 :: nat)"
  by (metis add_cancel_left_left mod_add_left_eq)

lemma ex_mapped_load: "a mod 8 = 0 \<Longrightarrow> load64 a (\<lambda>a. if a mod 8 = 0 then 7 else 0) = 7"
proof -
  assume "a mod 8 = 0"
  then have "(a + i) mod 8 = i mod 8" for i by (rule add_aligned)
  then have "load_bytes a 8 (\<lambda>a. if a mod 8 = 0 then 7 else 0) = [7, 0, 0, 0, 0, 0, 0, 0 :: uchar]"
    by (simp add: load_bytes_def upt_conv_Cons)
  then show ?thesis by (simp add: load64_def unle64_def unle32_def)
qed

lemma ex_mapped_byte: "user_byte (Suc 0) a ex_mapped = Some (if a mod 8 = 0 then 7 else 0)" if "a < 4096"
proof -
  let ?m = "\<lambda>a. if a mod 8 = 0 then 7 else (0 :: uchar)"
  have p: "PDX a = 0" "PTX a = 0" using that by (simp_all add: PDX_def PTX_def)
  have l: "load64 4096 ?m = 7" "load64 0xFFFFFFFF80000000 ?m = 7" by (rule ex_mapped_load, simp)+
  have f: "present 7" "PTE_ADDR 7 = 0" "p2v 0 = 0xFFFFFFFF80000000"
    by (simp_all add: PTE_P_def PTE_ADDR_def mask_eq_exp_minus_1 p2v_def KERNBASE_def)
  have "(0xFFFFFFFF80000000 + a) mod 8 = a mod 8" by (rule add_aligned) simp
  then show ?thesis using that p l f
    by (simp add: user_byte_def user_addr_def walkpgdir_def ex_mapped_def upd_proc_def set_kmem_def
        ex_kernel_def PGSIZE_def)
qed

lemma fetchstr_correct_witness: "fetchstr 1 0 ex_mapped = Ret (Some [7]) ex_mapped"
proof -
  have z: "psz (Suc 0) ex_mapped = Suc (Suc 0)"
    by (simp add: ex_mapped_def upd_proc_def ex_kernel_def set_kmem_def)
  have "user_bytes (Suc 0) 0 (Suc (Suc 0)) ex_mapped = Some [7, 0]" by (simp add: ex_mapped_byte)
  then show ?thesis using fetchstr_correct[where addr = 0 and me = "Suc 0" and s = ex_mapped and bs = "[7, 0]"] z by simp
qed

end
