(* ===== verification/Sysfile.thy ===== *)
theory Sysfile
  imports Syscall
begin

text \<open>
  The file-system calls (\<^verbatim>\<open>kernel/sysfile.c\<close>). The parts that only use the file system are
  functions of its state; the calls put them together with the arguments and the descriptors of
  the calling process. Results are C \<open>int\<close>s; \<open>None\<close> stands for a null pointer.
\<close>

section \<open>Descriptors\<close>

definition argfd :: "nat \<Rightarrow> nat \<Rightarrow> kstate \<Rightarrow> (nat \<times> nat) option" where
  "argfd me n s = (let fd = sint (argint me n s) in
    if fd < 0 \<or> int NOFILE \<le> fd then None
    else map_option (\<lambda>f. (nat fd, f)) (pr_ofile (procs s ! me) ! nat fd))"

definition set_fd :: "nat \<Rightarrow> nat \<Rightarrow> nat option \<Rightarrow> kstate \<Rightarrow> kstate" where
  "set_fd me fd f s = upd_proc me (\<lambda>p. p\<lparr>pr_ofile := (pr_ofile p)[fd := f]\<rparr>) s"

definition fdalloc :: "nat \<Rightarrow> nat \<Rightarrow> kstate \<Rightarrow> nat option \<times> kstate" where
  "fdalloc me f s = (case find_idx (\<lambda>x. x = None) (pr_ofile (procs s ! me)) of
    None \<Rightarrow> (None, s) | Some fd \<Rightarrow> (Some fd, set_fd me fd (Some f) s))"

abbreviation devs :: "nat \<Rightarrow> kstate \<Rightarrow> constate devsw" where
  "devs me s \<equiv> console_devsw (pr_killed (procs s ! me))"

abbreviation killed_of :: "nat \<Rightarrow> kstate \<Rightarrow> bool" where
  "killed_of me s \<equiv> pr_killed (procs s ! me)"

section \<open>Calls on an open file\<close>

definition sys_dup :: "nat \<Rightarrow> kstate \<Rightarrow> (int, kstate) outcome" where
  "sys_dup me s = (case argfd me 0 s of None \<Rightarrow> Ret (-1) s
    | Some (_, f) \<Rightarrow>
      (case fdalloc me f s of (None, s) \<Rightarrow> Ret (-1) s
       | (Some fd, s) \<Rightarrow> obind (on_fs (filedup f) s) (\<lambda>_ s. Ret (int fd) s)))"

definition sys_read :: "nat \<Rightarrow> kstate \<Rightarrow> (int, kstate) outcome" where
  "sys_read me s = (let n = argint me 2 s in
    case (argfd me 0 s, argptr me 1 n s) of
      (Some (_, f), Some p) \<Rightarrow>
        obind (on_fs (fileread (devs me s) (killed_of me s) f n) s) (\<lambda>r s.
        case r of None \<Rightarrow> Ret (-1) s
        | Some bs \<Rightarrow> obind (user_store me (unat p) bs s) (\<lambda>_ s. Ret (int (length bs)) s))
    | _ \<Rightarrow> Ret (-1) s)"

text \<open>
  A negative count writes nothing; \<open>pipewrite\<close> then returns the count and the file loop -1.
\<close>

definition sys_write :: "nat \<Rightarrow> kstate \<Rightarrow> (int, kstate) outcome" where
  "sys_write me s = (let n = argint me 2 s in
    case (argfd me 0 s, argptr me 1 n s) of
      (Some (_, f), Some p) \<Rightarrow>
        obind (user_load me (unat p) (nat (sint n)) s) (\<lambda>bs s.
        obind (on_fs (filewrite (devs me s) (killed_of me s) f bs) s) (\<lambda>r s.
        case r of None \<Rightarrow> Ret (-1) s
        | Some k \<Rightarrow> Ret (if sint n < 0 then
              (if f_type (file_at (kfs s) f) = FD_PIPE then sint n else -1) else int k) s))
    | _ \<Rightarrow> Ret (-1) s)"

definition sys_close :: "kenv \<Rightarrow> nat \<Rightarrow> kstate \<Rightarrow> (int, kstate) outcome" where
  "sys_close e me s = (case argfd me 0 s of None \<Rightarrow> Ret (-1) s
    | Some (fd, f) \<Rightarrow>
      obind (on_fs (fileclose (k_end e) f) (set_fd me fd None s)) (\<lambda>_ s. Ret 0 s))"

text \<open>The layout of \<open>struct stat\<close>: 16-bit fields padded to 4 bytes where a 32-bit field follows.\<close>

definition enc_stat :: "stat \<Rightarrow> uchar list" where
  "enc_stat st = le16 (st_type st) @ [0, 0] @ le32 (st_dev st) @ le32 (of_nat (st_ino st)) @
    le16 (st_nlink st) @ le16 (st_ownerid st) @ le16 (st_groupid st) @ [0, 0] @
    le32 (st_mode st) @ le32 (st_size st)"

definition sys_fstat :: "nat \<Rightarrow> kstate \<Rightarrow> (int, kstate) outcome" where
  "sys_fstat me s = (case (argfd me 0 s, argptr me 1 28 s) of
      (Some (_, f), Some p) \<Rightarrow>
        obind (on_fs (filestat f) s) (\<lambda>r s.
        case r of None \<Rightarrow> Ret (-1) s
        | Some st \<Rightarrow> obind (user_store me (unat p) (enc_stat st) s) (\<lambda>_ s. Ret 0 s))
    | _ \<Rightarrow> Ret (-1) s)"

section \<open>Names\<close>

abbreviation name_buf :: "uchar list" where "name_buf \<equiv> replicate DIRSIZ 0"

definition change_nlink :: "nat \<Rightarrow> (ushort \<Rightarrow> ushort) \<Rightarrow> 'a fsstate_scheme \<Rightarrow> (unit, 'a fsstate_scheme) outcome" where
  "change_nlink ip f s = iupdate ip (upd_inode ip (ip_nlink_update f) s)"

text \<open>\<open>sys_link\<close> from the lookup of the old name on, with its error exit.\<close>

definition link_bad :: "nat \<Rightarrow> 'a fsstate_scheme \<Rightarrow> (int, 'a fsstate_scheme) outcome" where
  "link_bad ip s =
    obind (ilock ip s) (\<lambda>_ s.
    obind (change_nlink ip (\<lambda>n. n - 1) s) (\<lambda>_ s.
    obind (iunlockput ip s) (\<lambda>_ s.
    obind (end_op s) (\<lambda>_ s. Ret (-1) s))))"

definition link_fs :: "'a fsstate_scheme devsw \<Rightarrow> nat \<Rightarrow> uchar list \<Rightarrow> uchar list \<Rightarrow> 'a fsstate_scheme \<Rightarrow>
    (int, 'a fsstate_scheme) outcome" where
  "link_fs dv cwd old new s =
    obind (begin_op s) (\<lambda>_ s.
    obind (namei dv cwd old s) (\<lambda>r s.
    case r of None \<Rightarrow> obind (end_op s) (\<lambda>_ s. Ret (-1) s)
    | Some ip \<Rightarrow>
      obind (ilock ip s) (\<lambda>_ s.
      if ip_type (inode_at s ip) = T_DIR then
        obind (iunlockput ip s) (\<lambda>_ s. obind (end_op s) (\<lambda>_ s. Ret (-1) s))
      else
        obind (change_nlink ip (\<lambda>n. n + 1) s) (\<lambda>_ s.
        obind (iunlock ip s) (\<lambda>_ s.
        obind (nameiparent dv cwd new name_buf s) (\<lambda>r s.
        case r of None \<Rightarrow> link_bad ip s
        | Some (dp, name) \<Rightarrow>
          obind (ilock dp s) (\<lambda>_ s.
          obind (if ip_dev (inode_at s dp) \<noteq> ip_dev (inode_at s ip) then Ret False s
                 else dirlink dv dp name (ip_inum (inode_at s ip)) s) (\<lambda>ok s.
          obind (iunlockput dp s) (\<lambda>_ s.
          if \<not> ok then link_bad ip s
          else obind (iput ip s) (\<lambda>_ s. obind (end_op s) (\<lambda>_ s. Ret 0 s)))))))))))"

function isdirempty_from :: "'a fsstate_scheme devsw \<Rightarrow> nat \<Rightarrow> nat \<Rightarrow> nat \<Rightarrow> 'a fsstate_scheme \<Rightarrow>
    (bool, 'a fsstate_scheme) outcome" where
  "isdirempty_from dv dp sz off s =
    (if off < sz then
       obind (readi dv dp (of_nat off) 16 s) (\<lambda>r s.
       case r of None \<Rightarrow> Panic ''isdirempty: readi''
       | Some bs \<Rightarrow>
         if length bs \<noteq> 16 then Panic ''isdirempty: readi''
         else if de_inum (dec_dirent bs) \<noteq> 0 then Ret False s
         else isdirempty_from dv dp sz (off + 16) s)
     else Ret True s)"
  by pat_completeness auto
termination
  by (relation "measure (\<lambda>(dv, dp, sz, off, s). sz - off)") auto

declare isdirempty_from.simps [simp del]

definition isdirempty :: "'a fsstate_scheme devsw \<Rightarrow> nat \<Rightarrow> 'a fsstate_scheme \<Rightarrow> (bool, 'a fsstate_scheme) outcome" where
  "isdirempty dv dp s = isdirempty_from dv dp (unat (ip_size (inode_at s dp))) (2 * 16) s"

definition unlink_bad :: "nat \<Rightarrow> 'a fsstate_scheme \<Rightarrow> (int, 'a fsstate_scheme) outcome" where
  "unlink_bad dp s = obind (iunlockput dp s) (\<lambda>_ s. obind (end_op s) (\<lambda>_ s. Ret (-1) s))"

text \<open>The part of \<open>sys_unlink\<close> that removes the entry at \<open>off\<close> for the locked inode \<open>ip\<close>.\<close>

definition unlink_entry :: "'a fsstate_scheme devsw \<Rightarrow> nat \<Rightarrow> nat \<Rightarrow> nat \<Rightarrow> 'a fsstate_scheme \<Rightarrow>
    (int, 'a fsstate_scheme) outcome" where
  "unlink_entry dv dp ip off s =
    obind (writei dv dp (of_nat off) (replicate 16 0) s) (\<lambda>w s.
    if w \<noteq> Some 16 then Panic ''unlink: writei''
    else
      obind (if ip_type (inode_at s ip) = T_DIR then change_nlink dp (\<lambda>n. n - 1) s else Ret () s) (\<lambda>_ s.
      obind (iunlockput dp s) (\<lambda>_ s.
      obind (change_nlink ip (\<lambda>n. n - 1) s) (\<lambda>_ s.
      obind (iunlockput ip s) (\<lambda>_ s.
      obind (end_op s) (\<lambda>_ s. Ret 0 s))))))"

definition unlink_fs :: "'a fsstate_scheme devsw \<Rightarrow> nat \<Rightarrow> uchar list \<Rightarrow> 'a fsstate_scheme \<Rightarrow>
    (int, 'a fsstate_scheme) outcome" where
  "unlink_fs dv cwd path s =
    obind (begin_op s) (\<lambda>_ s.
    obind (nameiparent dv cwd path name_buf s) (\<lambda>r s.
    case r of None \<Rightarrow> obind (end_op s) (\<lambda>_ s. Ret (-1) s)
    | Some (dp, name) \<Rightarrow>
      obind (ilock dp s) (\<lambda>_ s.
      if namecmp name [46] = 0 \<or> namecmp name [46, 46] = 0 then unlink_bad dp s
      else
        obind (dirlookup dv dp name s) (\<lambda>r s.
        case r of None \<Rightarrow> unlink_bad dp s
        | Some (ip, off) \<Rightarrow>
          obind (ilock ip s) (\<lambda>_ s.
          if sint (ip_nlink (inode_at s ip)) < 1 then Panic ''unlink: nlink < 1''
          else
            obind (if ip_type (inode_at s ip) = T_DIR then isdirempty dv ip s else Ret True s) (\<lambda>empty s.
            if \<not> empty then obind (iunlockput ip s) (\<lambda>_ s. unlink_bad dp s)
            else unlink_entry dv dp ip off s))))))"

text \<open>
  \<open>create\<close> returns a locked inode. \<open>ialloc\<close> never returns a null pointer, so the panic of
  \<open>create\<close> for that case cannot happen.
\<close>

definition create_dots :: "'a fsstate_scheme devsw \<Rightarrow> nat \<Rightarrow> nat \<Rightarrow> 'a fsstate_scheme \<Rightarrow>
    (unit, 'a fsstate_scheme) outcome" where
  "create_dots dv dp ip s =
    obind (change_nlink dp (\<lambda>n. n + 1) s) (\<lambda>_ s.
    obind (dirlink dv ip [46] (ip_inum (inode_at s ip)) s) (\<lambda>ok s.
    if \<not> ok then Panic ''create dots''
    else
      obind (dirlink dv ip [46, 46] (ip_inum (inode_at s dp)) s) (\<lambda>ok s.
      if \<not> ok then Panic ''create dots'' else Ret () s)))"

definition create :: "'a fsstate_scheme devsw \<Rightarrow> nat \<Rightarrow> uchar list \<Rightarrow> ushort \<Rightarrow> ushort \<Rightarrow> ushort \<Rightarrow>
    'a fsstate_scheme \<Rightarrow> (nat option, 'a fsstate_scheme) outcome" where
  "create dv cwd path type major minor s =
    obind (nameiparent dv cwd path name_buf s) (\<lambda>r s.
    case r of None \<Rightarrow> Ret None s
    | Some (dp, name) \<Rightarrow>
      obind (ilock dp s) (\<lambda>_ s.
      obind (dirlookup dv dp name s) (\<lambda>r s.
      case r of
        Some (ip, _) \<Rightarrow>
          obind (iunlockput dp s) (\<lambda>_ s.
          obind (ilock ip s) (\<lambda>_ s.
          if type = T_FILE \<and> ip_type (inode_at s ip) = T_FILE then Ret (Some ip) s
          else obind (iunlockput ip s) (\<lambda>_ s. Ret None s)))
      | None \<Rightarrow>
          obind (ialloc (ip_dev (inode_at s dp)) type s) (\<lambda>ip s.
          obind (ilock ip s) (\<lambda>_ s.
          obind (iupdate ip (upd_inode ip (\<lambda>x. x\<lparr>ip_major := major, ip_minor := minor, ip_nlink := 1\<rparr>) s)) (\<lambda>_ s.
          obind (if type = T_DIR then create_dots dv dp ip s else Ret () s) (\<lambda>_ s.
          obind (dirlink dv dp name (ip_inum (inode_at s ip)) s) (\<lambda>ok s.
          if \<not> ok then Panic ''create: dirlink''
          else obind (iunlockput dp s) (\<lambda>_ s. Ret (Some ip) s)))))))))"

text \<open>\<open>sys_mkdir\<close> and \<open>sys_mknod\<close> after their arguments: create, and put the new inode.\<close>

definition mknod_fs :: "'a fsstate_scheme devsw \<Rightarrow> nat \<Rightarrow> uchar list \<Rightarrow> ushort \<Rightarrow> ushort \<Rightarrow> ushort \<Rightarrow>
    'a fsstate_scheme \<Rightarrow> (int, 'a fsstate_scheme) outcome" where
  "mknod_fs dv cwd path type major minor s =
    obind (create dv cwd path type major minor s) (\<lambda>r s.
    case r of None \<Rightarrow> obind (end_op s) (\<lambda>_ s. Ret (-1) s)
    | Some ip \<Rightarrow> obind (iunlockput ip s) (\<lambda>_ s. obind (end_op s) (\<lambda>_ s. Ret 0 s)))"

definition chmod_fs :: "'a fsstate_scheme devsw \<Rightarrow> nat \<Rightarrow> uchar list \<Rightarrow> uint \<Rightarrow> 'a fsstate_scheme \<Rightarrow>
    (int, 'a fsstate_scheme) outcome" where
  "chmod_fs dv cwd path mode s =
    obind (begin_op s) (\<lambda>_ s.
    obind (namei dv cwd path s) (\<lambda>r s.
    case r of None \<Rightarrow> obind (end_op s) (\<lambda>_ s. Ret (-1) s)
    | Some ip \<Rightarrow>
      obind (ilock ip s) (\<lambda>_ s.
      obind (iupdate ip (upd_inode ip (ip_mode_update (\<lambda>_. mode)) s)) (\<lambda>_ s.
      obind (iunlockput ip s) (\<lambda>_ s.
      obind (end_op s) (\<lambda>_ s. Ret 0 s))))))"

text \<open>\<open>sys_chdir\<close> up to the change of the process: the inode of the new directory.\<close>

definition chdir_fs :: "'a fsstate_scheme devsw \<Rightarrow> nat \<Rightarrow> uchar list \<Rightarrow> 'a fsstate_scheme \<Rightarrow>
    (nat option, 'a fsstate_scheme) outcome" where
  "chdir_fs dv cwd path s =
    obind (namei dv cwd path s) (\<lambda>r s.
    case r of None \<Rightarrow> obind (end_op s) (\<lambda>_ s. Ret None s)
    | Some ip \<Rightarrow>
      obind (ilock ip s) (\<lambda>_ s.
      if ip_type (inode_at s ip) \<noteq> T_DIR then
        obind (iunlockput ip s) (\<lambda>_ s. obind (end_op s) (\<lambda>_ s. Ret None s))
      else
        obind (iunlock ip s) (\<lambda>_ s.
        obind (iput cwd s) (\<lambda>_ s.
        obind (end_op s) (\<lambda>_ s. Ret (Some ip) s)))))"

definition O_WRONLY :: uint where "O_WRONLY = 0x001"
definition O_RDWR :: uint where "O_RDWR = 0x002"
definition O_CREATE :: uint where "O_CREATE = 0x200"

text \<open>The part of \<open>sys_open\<close> that finds or makes the file: a locked inode, or \<open>None\<close> after \<open>end_op\<close>.\<close>

definition open_inode :: "'a fsstate_scheme devsw \<Rightarrow> nat \<Rightarrow> uchar list \<Rightarrow> uint \<Rightarrow> 'a fsstate_scheme \<Rightarrow>
    (nat option, 'a fsstate_scheme) outcome" where
  "open_inode dv cwd path omode s =
    obind (begin_op s) (\<lambda>_ s.
    if omode AND O_CREATE \<noteq> 0 then
      obind (create dv cwd path T_FILE 0 0 s) (\<lambda>r s.
      case r of None \<Rightarrow> obind (end_op s) (\<lambda>_ s. Ret None s) | Some ip \<Rightarrow> Ret (Some ip) s)
    else
      obind (namei dv cwd path s) (\<lambda>r s.
      case r of None \<Rightarrow> obind (end_op s) (\<lambda>_ s. Ret None s)
      | Some ip \<Rightarrow>
        obind (ilock ip s) (\<lambda>_ s.
        if ip_type (inode_at s ip) = T_DIR \<and> omode \<noteq> 0 then
          obind (iunlockput ip s) (\<lambda>_ s. obind (end_op s) (\<lambda>_ s. Ret None s))
        else Ret (Some ip) s)))"

section \<open>The calls that take names\<close>

definition with_cwd :: "nat \<Rightarrow> (nat \<Rightarrow> kstate \<Rightarrow> ('a, kstate) outcome) \<Rightarrow> kstate \<Rightarrow> ('a, kstate) outcome" where
  "with_cwd me f s = (case pr_cwd (procs s ! me) of None \<Rightarrow> Fault | Some cwd \<Rightarrow> f cwd s)"

definition sys_link :: "nat \<Rightarrow> kstate \<Rightarrow> (int, kstate) outcome" where
  "sys_link me s =
    obind (argstr me 0 s) (\<lambda>old s.
    case old of None \<Rightarrow> Ret (-1) s
    | Some old \<Rightarrow>
      obind (argstr me 1 s) (\<lambda>new s.
      case new of None \<Rightarrow> Ret (-1) s
      | Some new \<Rightarrow> with_cwd me (\<lambda>cwd s. on_fs (link_fs (devs me s) cwd old new) s) s))"

definition sys_unlink :: "nat \<Rightarrow> kstate \<Rightarrow> (int, kstate) outcome" where
  "sys_unlink me s =
    obind (argstr me 0 s) (\<lambda>path s.
    case path of None \<Rightarrow> Ret (-1) s
    | Some path \<Rightarrow> with_cwd me (\<lambda>cwd s. on_fs (unlink_fs (devs me s) cwd path) s) s)"

definition lift_pair :: "('s \<Rightarrow> 'a \<times> 's) \<Rightarrow> 's \<Rightarrow> ('a, 's) outcome" where
  "lift_pair f s = (let (a, s) = f s in Ret a s)"

definition open_bad :: "nat \<Rightarrow> 'a fsstate_scheme \<Rightarrow> (int, 'a fsstate_scheme) outcome" where
  "open_bad ip s = obind (iunlockput ip s) (\<lambda>_ s. obind (end_op s) (\<lambda>_ s. Ret (-1) s))"

definition sys_open :: "kenv \<Rightarrow> nat \<Rightarrow> kstate \<Rightarrow> (int, kstate) outcome" where
  "sys_open e me s =
    obind (argstr me 0 s) (\<lambda>path s.
    case path of None \<Rightarrow> Ret (-1) s
    | Some path \<Rightarrow>
      let omode = argint me 1 s in
      obind (with_cwd me (\<lambda>cwd s. on_fs (open_inode (devs me s) cwd path omode) s) s) (\<lambda>r s.
      case r of None \<Rightarrow> Ret (-1) s
      | Some ip \<Rightarrow>
        obind (on_fs (lift_pair filealloc) s) (\<lambda>f s.
        case f of None \<Rightarrow> on_fs (open_bad ip) s
        | Some f \<Rightarrow>
          (case fdalloc me f s of
             (None, s) \<Rightarrow>
               obind (on_fs (fileclose (k_end e) f) s) (\<lambda>_ s. on_fs (open_bad ip) s)
           | (Some fd, s) \<Rightarrow>
               obind (on_fs (\<lambda>t. obind (iunlock ip t) (\<lambda>_ t. end_op t)) s) (\<lambda>_ s.
               Ret (int fd) (s\<lparr>kfs := upd_file f (\<lambda>x. x\<lparr>f_type := FD_INODE, f_ip := ip, f_off := 0,
                 f_readable := (omode AND O_WRONLY = 0),
                 f_writable := (omode AND O_WRONLY \<noteq> 0 \<or> omode AND O_RDWR \<noteq> 0)\<rparr>) (kfs s)\<rparr>))))))"

definition sys_mkdir :: "nat \<Rightarrow> kstate \<Rightarrow> (int, kstate) outcome" where
  "sys_mkdir me s =
    obind (on_fs begin_op s) (\<lambda>_ s.
    obind (argstr me 0 s) (\<lambda>path s.
    case path of None \<Rightarrow> obind (on_fs end_op s) (\<lambda>_ s. Ret (-1) s)
    | Some path \<Rightarrow> with_cwd me (\<lambda>cwd s. on_fs (mknod_fs (devs me s) cwd path T_DIR 0 0) s) s))"

definition sys_mknod :: "nat \<Rightarrow> kstate \<Rightarrow> (int, kstate) outcome" where
  "sys_mknod me s =
    obind (on_fs begin_op s) (\<lambda>_ s.
    obind (argstr me 0 s) (\<lambda>path s.
    case path of None \<Rightarrow> obind (on_fs end_op s) (\<lambda>_ s. Ret (-1) s)
    | Some path \<Rightarrow> with_cwd me (\<lambda>cwd s.
        on_fs (mknod_fs (devs me s) cwd path T_DEV (ucast (argint me 1 s)) (ucast (argint me 2 s))) s) s))"

definition sys_chdir :: "nat \<Rightarrow> kstate \<Rightarrow> (int, kstate) outcome" where
  "sys_chdir me s =
    obind (on_fs begin_op s) (\<lambda>_ s.
    obind (argstr me 0 s) (\<lambda>path s.
    case path of None \<Rightarrow> obind (on_fs end_op s) (\<lambda>_ s. Ret (-1) s)
    | Some path \<Rightarrow>
      obind (with_cwd me (\<lambda>cwd s. on_fs (chdir_fs (devs me s) cwd path) s) s) (\<lambda>r s.
      case r of None \<Rightarrow> Ret (-1) s
      | Some ip \<Rightarrow> Ret 0 (upd_proc me (\<lambda>p. p\<lparr>pr_cwd := Some ip\<rparr>) s))))"

definition sys_chmod :: "nat \<Rightarrow> kstate \<Rightarrow> (int, kstate) outcome" where
  "sys_chmod me s =
    obind (argstr me 0 s) (\<lambda>path s.
    case path of None \<Rightarrow> Ret (-1) s
    | Some path \<Rightarrow> with_cwd me (\<lambda>cwd s. on_fs (chmod_fs (devs me s) cwd path (argint me 1 s)) s) s)"

definition sys_pipe :: "kenv \<Rightarrow> nat \<Rightarrow> kstate \<Rightarrow> (int, kstate) outcome" where
  "sys_pipe e me s = (case argptr me 0 8 s of None \<Rightarrow> Ret (-1) s
    | Some p \<Rightarrow>
      obind (on_fs (pipealloc (k_end e)) s) (\<lambda>r s.
      case r of None \<Rightarrow> Ret (-1) s
      | Some (rf, wrf) \<Rightarrow>
        let bad = (\<lambda>s. obind (on_fs (fileclose (k_end e) rf) s) (\<lambda>_ s.
              obind (on_fs (fileclose (k_end e) wrf) s) (\<lambda>_ s. Ret (-1) s))) in
        (case fdalloc me rf s of (None, s) \<Rightarrow> bad s
         | (Some fd0, s) \<Rightarrow>
           (case fdalloc me wrf s of (None, s) \<Rightarrow> bad (set_fd me fd0 None s)
            | (Some fd1, s) \<Rightarrow>
              obind (user_store me (unat p) (le32 (of_nat fd0)) s) (\<lambda>_ s.
              obind (user_store me (unat (p + 4)) (le32 (of_nat fd1)) s) (\<lambda>_ s. Ret 0 s))))))"

end
