(* ===== verification/Exec.thy ===== *)
theory Exec
  imports Sysfile
begin

text \<open>
  Replacing the image of a process (\<^verbatim>\<open>kernel/exec.c\<close>, \<^verbatim>\<open>include/elf.h\<close>, and \<open>sys_exec\<close> of
  \<^verbatim>\<open>kernel/sysfile.c\<close>). Headers are decoded from the bytes read from the file.
\<close>

section \<open>ELF headers\<close>

definition ELF_MAGIC :: uint where "ELF_MAGIC = 0x464C457F"
definition ELF_PROG_LOAD :: uint where "ELF_PROG_LOAD = 1"
definition MAXARG :: nat where "MAXARG = 32"

record elfhdr =
  e_magic :: uint
  e_entry :: uintp
  e_phoff :: uintp
  e_phnum :: ushort

record proghdr =
  ph_type :: uint
  ph_off :: uintp
  ph_vaddr :: uintp
  ph_filesz :: uintp
  ph_memsz :: uintp

definition dec_elfhdr :: "uchar list \<Rightarrow> elfhdr" where
  "dec_elfhdr bs = \<lparr>e_magic = unle32 (chunk 0 4 bs), e_entry = unle64 (chunk 24 8 bs),
    e_phoff = unle64 (chunk 32 8 bs), e_phnum = unle16 (chunk 56 2 bs)\<rparr>"

definition dec_proghdr :: "uchar list \<Rightarrow> proghdr" where
  "dec_proghdr bs = \<lparr>ph_type = unle32 (chunk 0 4 bs), ph_off = unle64 (chunk 8 8 bs),
    ph_vaddr = unle64 (chunk 16 8 bs), ph_filesz = unle64 (chunk 32 8 bs), ph_memsz = unle64 (chunk 40 8 bs)\<rparr>"

section \<open>Loading\<close>

text \<open>
  \<open>allocuvm\<close> takes 32-bit sizes and returns an \<open>int\<close>, which is assigned to a 64-bit unsigned
  variable.
\<close>

definition sext :: "nat \<Rightarrow> nat" where
  "sext n = unat (scast (of_nat n :: uint) :: uintp)"

definition exec_alloc :: "kenv \<Rightarrow> nat \<Rightarrow> nat \<Rightarrow> nat \<Rightarrow> kstate \<Rightarrow> (nat, kstate) outcome" where
  "exec_alloc e pgdir oldsz newsz s =
    obind (on_mem (allocuvm (k_end e) pgdir (oldsz mod 2 ^ 32) (newsz mod 2 ^ 32)) s) (\<lambda>r s. Ret (sext r) s)"

text \<open>
  The loop over the program headers: \<open>None\<close> is the jump to \<open>bad\<close>, \<open>Some sz\<close> the size of the
  image so far. The offset is a 32-bit \<open>int\<close>.
\<close>

primrec exec_load :: "kenv \<Rightarrow> nat \<Rightarrow> nat \<Rightarrow> nat \<Rightarrow> nat \<Rightarrow> uint \<Rightarrow> nat \<Rightarrow> kstate \<Rightarrow> (nat option, kstate) outcome" where
  "exec_load e me ip pgdir 0 off sz s = Ret (Some sz) s"
| "exec_load e me ip pgdir (Suc k) off sz s =
    obind (on_fs (readi (devs me s) ip off 56) s) (\<lambda>r s.
    case r of None \<Rightarrow> Ret None s
    | Some bs \<Rightarrow>
      if length bs \<noteq> 56 then Ret None s
      else
        let ph = dec_proghdr bs in
        if ph_type ph \<noteq> ELF_PROG_LOAD then exec_load e me ip pgdir k (off + 56) sz s
        else if ph_memsz ph < ph_filesz ph then Ret None s
        else
          obind (exec_alloc e pgdir sz (unat (ph_vaddr ph + ph_memsz ph)) s) (\<lambda>sz s.
          if sz = 0 then Ret None s
          else
            obind (on_fs (loaduvm (devs me s) pgdir (unat (ph_vaddr ph)) ip (ucast (ph_off ph))
              (unat (ph_filesz ph) mod 2 ^ 32)) s) (\<lambda>ok s.
            if \<not> ok then Ret None s else exec_load e me ip pgdir k (off + 56) sz s)))"

text \<open>
  The loop that pushes the argument strings: the new stack pointer and the addresses of the
  strings, or the jump to \<open>bad\<close>.
\<close>

definition push_str :: "uintp \<Rightarrow> uchar list \<Rightarrow> uintp" where
  "push_str sp arg = (sp - of_nat (length arg + 1)) AND NOT 7"

fun exec_args :: "nat \<Rightarrow> nat \<Rightarrow> uintp \<Rightarrow> uchar list list \<Rightarrow> kstate \<Rightarrow> ((uintp \<times> uintp list) option, kstate) outcome" where
  "exec_args pgdir argc sp [] s = Ret (Some (sp, [])) s"
| "exec_args pgdir argc sp (a # argv) s =
    (if MAXARG \<le> argc then Ret None s
     else
       let sp = push_str sp a in
       obind (on_mem (copyout pgdir (unat sp mod 2 ^ 32) (a @ [0])) s) (\<lambda>ok s.
       if \<not> ok then Ret None s
       else
         obind (exec_args pgdir (argc + 1) sp argv s) (\<lambda>r s.
         Ret (map_option (\<lambda>(sp', ptrs). (sp', sp # ptrs)) r) s)))"

definition ustack :: "uintp \<Rightarrow> uintp list \<Rightarrow> uintp list" where
  "ustack sp ptrs = [0xffffffff, of_nat (length ptrs), sp - of_nat ((length ptrs + 1) * 8)] @ ptrs @ [0]"

definition last_elem :: "uchar list \<Rightarrow> uchar list" where
  "last_elem path = rev (takeWhile (\<lambda>c. c \<noteq> 47) (rev path))"

text \<open>
  The error exit: the inode is still held when the failure came before \<open>iunlockput\<close>.
\<close>

definition exec_bad :: "kenv \<Rightarrow> nat \<Rightarrow> nat option \<Rightarrow> kstate \<Rightarrow> (int, kstate) outcome" where
  "exec_bad e pgdir ip s =
    obind (if pgdir \<noteq> 0 then on_mem (freevm (k_end e) pgdir) s else Ret () s) (\<lambda>_ s.
    case ip of None \<Rightarrow> Ret (-1) s
    | Some ip \<Rightarrow> on_fs (\<lambda>t. obind (iunlockput ip t) (\<lambda>_ t. obind (end_op t) (\<lambda>_ t. Ret (-1) t))) s)"

text \<open>
  \<open>exec\<close> from the loaded image on: the stack with its guard page, the arguments, and the switch
  to the new image.
\<close>

definition exec_commit :: "kenv \<Rightarrow> nat \<Rightarrow> uchar list \<Rightarrow> nat \<Rightarrow> nat \<Rightarrow> uintp \<Rightarrow> uintp \<Rightarrow> kstate \<Rightarrow>
    (int, kstate) outcome" where
  "exec_commit e me path pgdir sz sp entry s =
    (let old = pr_pgdir (procs s ! me);
         s = upd_proc me (\<lambda>p. p\<lparr>pr_name := set_name (last_elem path) (pr_name p), pr_pgdir := pgdir,
           pr_sz := sz, pr_tf := (pr_tf p)\<lparr>tf_eip := entry, tf_esp := sp\<rparr>\<rparr>) s in
     obind (switchuvm me me s) (\<lambda>_ s.
     obind (on_mem (freevm (k_end e) old) s) (\<lambda>_ s. Ret 0 s)))"

definition exec_stack :: "kenv \<Rightarrow> nat \<Rightarrow> uchar list \<Rightarrow> uchar list list \<Rightarrow> nat \<Rightarrow> nat \<Rightarrow> uintp \<Rightarrow> kstate \<Rightarrow>
    (int, kstate) outcome" where
  "exec_stack e me path argv pgdir sz entry s =
    (let sz = PGROUNDUP sz in
     obind (exec_alloc e pgdir sz (sz + 2 * PGSIZE) s) (\<lambda>sz s.
     if sz = 0 then exec_bad e pgdir None s
     else
       obind (on_mem (clearpteu pgdir (sz - 2 * PGSIZE)) s) (\<lambda>_ s.
       obind (exec_args pgdir 0 (of_nat sz) argv s) (\<lambda>r s.
       case r of None \<Rightarrow> exec_bad e pgdir None s
       | Some (sp, ptrs) \<Rightarrow>
         let argc = length ptrs;
             s = upd_proc me (\<lambda>p. p\<lparr>pr_tf := (pr_tf p)\<lparr>tf_rdi := of_nat argc,
               tf_rsi := sp - of_nat ((argc + 1) * 8)\<rparr>\<rparr>) s;
             st = ustack sp ptrs; sp = sp - of_nat ((3 + argc + 1) * 8) in
         obind (on_mem (copyout pgdir (unat sp mod 2 ^ 32) (concat (map le64 st))) s) (\<lambda>ok s.
         if \<not> ok then exec_bad e pgdir None s
         else exec_commit e me path pgdir sz sp entry s)))))"

text \<open>
  In the header check the \<open>int\<close> result of \<open>readi\<close> is compared with an unsigned size, so a
  result of -1 passes it and the header is then read uninitialised.
\<close>

definition exec :: "kenv \<Rightarrow> nat \<Rightarrow> uchar list \<Rightarrow> uchar list list \<Rightarrow> kstate \<Rightarrow> (int, kstate) outcome" where
  "exec e me path argv s =
    obind (on_fs begin_op s) (\<lambda>_ s.
    obind (with_cwd me (\<lambda>cwd s. on_fs (namei (devs me s) cwd path) s) s) (\<lambda>r s.
    case r of None \<Rightarrow> obind (on_fs end_op s) (\<lambda>_ s. Ret (-1) s)
    | Some ip \<Rightarrow>
      obind (on_fs (ilock ip) s) (\<lambda>_ s.
      obind (on_fs (readi (devs me s) ip 0 64) s) (\<lambda>r s.
      case r of None \<Rightarrow> Fault
      | Some bs \<Rightarrow>
        if length bs < 64 then exec_bad e 0 (Some ip) s
        else
          let elf = dec_elfhdr bs in
          if e_magic elf \<noteq> ELF_MAGIC then exec_bad e 0 (Some ip) s
          else
            obind (on_mem (setupkvm (k_kpdpt e)) s) (\<lambda>pgdir s.
            if pgdir = 0 then exec_bad e 0 (Some ip) s
            else
              obind (exec_load e me ip pgdir (unat (e_phnum elf)) (ucast (e_phoff elf)) 0 s) (\<lambda>r s.
              case r of None \<Rightarrow> exec_bad e pgdir (Some ip) s
              | Some sz \<Rightarrow>
                obind (on_fs (\<lambda>t. obind (iunlockput ip t) (\<lambda>_ t. end_op t)) s) (\<lambda>_ s.
                exec_stack e me path argv pgdir sz (e_entry elf) s)))))))"

section \<open>The system call\<close>

text \<open>The loop over the argument vector; \<open>None\<close> where \<open>sys_exec\<close> returns -1. \<open>k\<close> entries are left.\<close>

primrec fetch_argv :: "nat \<Rightarrow> uintp \<Rightarrow> nat \<Rightarrow> kstate \<Rightarrow> (uchar list list option, kstate) outcome" where
  "fetch_argv me uargv 0 s = Ret None s"
| "fetch_argv me uargv (Suc k) s =
    obind (fetchuintp me uargv s) (\<lambda>u s.
    case u of None \<Rightarrow> Ret None s
    | Some u \<Rightarrow>
      if u = 0 then Ret (Some []) s
      else
        obind (fetchstr me u s) (\<lambda>a s.
        case a of None \<Rightarrow> Ret None s
        | Some a \<Rightarrow> obind (fetch_argv me (uargv + 8) k s) (\<lambda>r s. Ret (map_option ((#) a) r) s)))"

definition sys_exec :: "kenv \<Rightarrow> nat \<Rightarrow> kstate \<Rightarrow> (int, kstate) outcome" where
  "sys_exec e me s =
    obind (argstr me 0 s) (\<lambda>path s.
    case path of None \<Rightarrow> Ret (-1) s
    | Some path \<Rightarrow>
      obind (fetch_argv me (arguintp me 1 s) MAXARG s) (\<lambda>argv s.
      case argv of None \<Rightarrow> Ret (-1) s
      | Some argv \<Rightarrow> exec e me path argv s))"

end
