(* ===== verification/Trap.thy ===== *)
theory Trap
  imports Exec
begin

text \<open>
  The remaining system calls, the system-call table, and interrupts and exceptions
  (\<^verbatim>\<open>kernel/sysproc.c\<close>, \<open>syscall\<close> of \<^verbatim>\<open>kernel/syscall.c\<close>, \<^verbatim>\<open>kernel/trap.c\<close>). A call that goes to
  sleep is the outcome \<open>Sleep\<close>. A process that has called \<open>exit\<close> is a zombie and does not come
  back.
\<close>

section \<open>Calls on processes and time\<close>

definition sys_fork :: "kenv \<Rightarrow> nat \<Rightarrow> kstate \<Rightarrow> (int, kstate) outcome" where
  "sys_fork e me s = fork e me s"

definition sys_exit :: "kenv \<Rightarrow> nat \<Rightarrow> kstate \<Rightarrow> (int, kstate) outcome" where
  "sys_exit e me s = obind (exit e me s) (\<lambda>_ s. Ret 0 s)"

definition sys_wait :: "kenv \<Rightarrow> nat \<Rightarrow> kstate \<Rightarrow> (int, kstate) outcome" where
  "sys_wait e me s = wait e me s"

definition sys_kill :: "nat \<Rightarrow> kstate \<Rightarrow> (int, kstate) outcome" where
  "sys_kill me s = (let (r, s) = kill (sint (argint me 0 s)) s in Ret r s)"

definition sys_getpid :: "nat \<Rightarrow> kstate \<Rightarrow> (int, kstate) outcome" where
  "sys_getpid me s = Ret (pr_pid (procs s ! me)) s"

text \<open>
  \<open>growproc\<close> takes an \<open>int\<close>; the address that \<open>sys_sbrk\<close> returns goes through the table of
  functions returning \<open>int\<close>.
\<close>

definition sys_sbrk :: "kenv \<Rightarrow> nat \<Rightarrow> kstate \<Rightarrow> (int, kstate) outcome" where
  "sys_sbrk e me s = (let addr = psz me s in
    obind (growproc e me (ucast (arguintp me 0 s)) s) (\<lambda>r s.
    Ret (if r < 0 then -1 else sint (of_nat addr :: uint)) s))"

text \<open>
  \<open>sys_sleep\<close> after \<open>ticks0\<close> was read: one turn of the loop. The difference of ticks is
  unsigned, and so is the comparison with the \<open>int\<close> argument.
\<close>

definition sys_sleep_from :: "uint \<Rightarrow> nat \<Rightarrow> kstate \<Rightarrow> (int, kstate) outcome" where
  "sys_sleep_from ticks0 me s =
    (if ticks s - ticks0 < argint me 0 s then
       (if pr_killed (procs s ! me) then Ret (-1) s else Sleep ChTicks s)
     else Ret 0 s)"

definition sys_sleep :: "nat \<Rightarrow> kstate \<Rightarrow> (int, kstate) outcome" where
  "sys_sleep me s = sys_sleep_from (ticks s) me s"

definition sys_uptime :: "kstate \<Rightarrow> (int, kstate) outcome" where
  "sys_uptime s = Ret (sint (ticks s)) s"

section \<open>Dispatch\<close>

definition syscalls :: "kenv \<Rightarrow> nat \<Rightarrow> int \<Rightarrow> (kstate \<Rightarrow> (int, kstate) outcome) option" where
  "syscalls e me num =
    (if num = 1 then Some (sys_fork e me) else if num = 2 then Some (sys_exit e me)
     else if num = 3 then Some (sys_wait e me) else if num = 4 then Some (sys_pipe e me)
     else if num = 5 then Some (sys_read me) else if num = 6 then Some (sys_kill me)
     else if num = 7 then Some (sys_exec e me) else if num = 8 then Some (sys_fstat me)
     else if num = 9 then Some (sys_chdir me) else if num = 10 then Some (sys_dup me)
     else if num = 11 then Some (sys_getpid me) else if num = 12 then Some (sys_sbrk e me)
     else if num = 13 then Some (sys_sleep me) else if num = 14 then Some sys_uptime
     else if num = 15 then Some (sys_open e me) else if num = 16 then Some (sys_write me)
     else if num = 17 then Some (sys_mknod me) else if num = 18 then Some (sys_unlink me)
     else if num = 19 then Some (sys_link me) else if num = 20 then Some (sys_mkdir me)
     else if num = 21 then Some (sys_close e me) else if num = 22 then Some (sys_chmod me)
     else None)"

definition gone :: "nat \<Rightarrow> kstate \<Rightarrow> bool" where
  "gone me s \<longleftrightarrow> pr_state (procs s ! me) = ZOMBIE"

definition set_eax :: "nat \<Rightarrow> int \<Rightarrow> kstate \<Rightarrow> kstate" where
  "set_eax me r s = upd_proc me (\<lambda>p. p\<lparr>pr_tf := (pr_tf p)\<lparr>tf_eax := of_int r\<rparr>\<rparr>) s"

definition kprintf :: "string \<Rightarrow> carg list \<Rightarrow> kstate \<Rightarrow> (unit, kstate) outcome" where
  "kprintf fmt args s = on_fs (with_cons (cprintf (map of_char fmt) args)) s"

abbreviation name_of :: "nat \<Rightarrow> kstate \<Rightarrow> uchar list" where
  "name_of me s \<equiv> cstr 16 (ptr (pr_name (procs s ! me)))"

definition syscall :: "kenv \<Rightarrow> nat \<Rightarrow> kstate \<Rightarrow> (unit, kstate) outcome" where
  "syscall e me s = (let num = sint (ucast (tf_eax (pr_tf (procs s ! me))) :: uint) in
    case syscalls e me num of
      Some f \<Rightarrow> obind (f s) (\<lambda>r s. Ret () (if gone me s then s else set_eax me r s))
    | None \<Rightarrow>
        obind (kprintf (''%d %s: unknown sys call %d'' @ [CHR 0x0A])
          [CInt (of_int (pr_pid (procs s ! me))), CStr (Some (name_of me s)), CInt (of_int num)] s) (\<lambda>_ s.
        Ret () (set_eax me (-1) s)))"

section \<open>Interrupts and exceptions\<close>

definition T_SYSCALL :: uintp where "T_SYSCALL = 64"
definition T_IRQ0 :: uintp where "T_IRQ0 = 32"
definition IRQ_TIMER :: uintp where "IRQ_TIMER = 0"
definition IRQ_KBD :: uintp where "IRQ_KBD = 1"
definition IRQ_COM1 :: uintp where "IRQ_COM1 = 4"
definition IRQ_IDE :: uintp where "IRQ_IDE = 14"
definition IRQ_SPURIOUS :: uintp where "IRQ_SPURIOUS = 31"

text \<open>The system-call part of \<open>trap\<close>.\<close>

definition trap_syscall :: "kenv \<Rightarrow> nat \<Rightarrow> trapframe \<Rightarrow> kstate \<Rightarrow> (unit, kstate) outcome" where
  "trap_syscall e me tf s =
    (if pr_killed (procs s ! me) then exit e me s
     else
       obind (syscall e me (upd_proc me (\<lambda>p. p\<lparr>pr_tf := tf\<rparr>) s)) (\<lambda>_ s.
       if gone me s then Ret () s
       else if pr_killed (procs s ! me) then exit e me s else Ret () s))"

text \<open>
  The devices: \<open>rx\<close> is what the keyboard controller or the serial port has received. The disk
  of this build is memory and its interrupt handler is empty; acknowledging an interrupt at the
  local APIC has no state here.
\<close>

definition procdump_hook :: "kstate \<Rightarrow> constate \<Rightarrow> (unit, constate) outcome" where
  "procdump_hook s t = with_cons (procdump (s\<lparr>kfs := t\<rparr>)) t"

definition trap_irq :: "nat \<Rightarrow> nat option \<Rightarrow> uchar list \<Rightarrow> uintp \<Rightarrow> trapframe \<Rightarrow> kstate \<Rightarrow> (unit, kstate) outcome" where
  "trap_irq cpu me rx cr2 tf s =
    (let no = tf_trapno tf in
     if no = T_IRQ0 + IRQ_TIMER then
       Ret () (if cpu = 0 then pwakeup ChTicks (s\<lparr>ticks := ticks s + 1\<rparr>) else s)
     else if no = T_IRQ0 + IRQ_IDE then Ret () s
     else if no = T_IRQ0 + IRQ_KBD then
       obind (on_fs (kbdintr (procdump_hook s) rx (kbdshift s)) s) (\<lambda>sh s. Ret () (s\<lparr>kbdshift := sh\<rparr>))
     else if no = T_IRQ0 + IRQ_COM1 then on_fs (uartintr (procdump_hook s) rx) s
     else if no = T_IRQ0 + 7 \<or> no = T_IRQ0 + IRQ_SPURIOUS then
       kprintf (''cpu%d: spurious interrupt at %x:%x'' @ [CHR 0x0A])
         [CInt (of_nat cpu), CInt (ucast (tf_cs tf)), CInt (ucast (tf_eip tf))] s
     else
       (case me of
          Some me \<Rightarrow>
            if tf_cs tf AND 3 = 0 then Panic ''trap''
            else
              obind (kprintf (''pid %d %s: trap %d err %d on cpu %d eip 0x%x addr 0x%x--kill proc'' @ [CHR 0x0A])
                [CInt (of_int (pr_pid (procs s ! me))), CStr (Some (name_of me s)), CInt (ucast no),
                 CInt (ucast (tf_err tf)), CInt (of_nat cpu), CInt (ucast (tf_eip tf)), CInt (ucast cr2)] s) (\<lambda>_ s.
              Ret () (upd_proc me (\<lambda>p. p\<lparr>pr_killed := True\<rparr>) s))
        | None \<Rightarrow> Panic ''trap''))"

text \<open>
  The end of \<open>trap\<close>: a killed process that was in user space exits; a clock tick makes the
  running process yield. Between the two checks for a kill other processes run: \<open>others\<close>.
\<close>

definition trap_exit :: "kenv \<Rightarrow> nat \<Rightarrow> trapframe \<Rightarrow> kstate \<Rightarrow> (bool, kstate) outcome" where
  "trap_exit e me tf s =
    (if pr_killed (procs s ! me) \<and> tf_cs tf AND 3 = 3 then obind (exit e me s) (\<lambda>_ s. Ret True s)
     else Ret False s)"

definition trap_return :: "kenv \<Rightarrow> nat \<Rightarrow> (kstate \<Rightarrow> kstate) \<Rightarrow> trapframe \<Rightarrow> kstate \<Rightarrow> (unit, kstate) outcome" where
  "trap_return e me others tf s =
    obind (trap_exit e me tf s) (\<lambda>out s.
    if out then Ret () s
    else
      let s = (if pr_state (procs s ! me) = RUNNING \<and> tf_trapno tf = T_IRQ0 + IRQ_TIMER
               then others (yield me s) else s) in
      obind (trap_exit e me tf s) (\<lambda>_ s. Ret () s))"

definition trap :: "kenv \<Rightarrow> nat \<Rightarrow> nat option \<Rightarrow> (kstate \<Rightarrow> kstate) \<Rightarrow> uchar list \<Rightarrow> uintp \<Rightarrow> trapframe \<Rightarrow> kstate \<Rightarrow>
    (unit, kstate) outcome" where
  "trap e cpu me others rx cr2 tf s =
    (if tf_trapno tf = T_SYSCALL then
       (case me of None \<Rightarrow> Fault | Some me \<Rightarrow> trap_syscall e me tf s)
     else
       obind (trap_irq cpu me rx cr2 tf s) (\<lambda>_ s.
       case me of None \<Rightarrow> Ret () s | Some me \<Rightarrow> trap_return e me others tf s))"

section \<open>Properties\<close>

subsection \<open>Killed processes\<close>

lemma slots_reparent [simp]: "slots (reparent me init s) = slots s"
proof -
  have "slots (reparent_one me init i u) = slots u" for i u
    by (simp add: reparent_one_def Let_def wakeup1_def)
  then have "slots (fold (reparent_one me init) is u) = slots u" for "is" u
    by (induction "is" arbitrary: u) simp_all
  then show ?thesis by (simp add: reparent_def)
qed

lemma exit_finish_zombie: "me < slots s \<Longrightarrow> st_of (exit_finish me s) me = ZOMBIE"
  by (simp add: exit_finish_def Let_def procs_upd wakeup1_def split: option.split)

lemma close_file_quiet: "close_file e me fd s = Ret () t \<Longrightarrow> quiet s t"
  by (auto simp: close_file_def obind_Ret_iff split: option.splits dest!: quiet_on_fs intro!: quiet_then_upd)

lemma exit_cwd_quiet: "exit_cwd me s = Ret () t \<Longrightarrow> quiet s t"
  by (auto simp: exit_cwd_def obind_Ret_iff split: option.splits dest!: quiet_on_fs intro!: quiet_then_upd)

lemma exit_zombie:
  assumes "exit e me s = Ret () t" "me < slots s"
  shows "st_of t me = ZOMBIE"
proof -
  from assms(1) obtain u v where u: "ofor [0..<NOFILE] (close_file e me) s = Ret () u"
    and v: "exit_cwd me u = Ret () v" and t: "t = exit_finish me v"
    by (auto simp: exit_def obind_Ret_iff split: if_splits)
  have "quiet s u" by (rule ofor_quiet[OF close_file_quiet u])
  also have "quiet u v" by (rule exit_cwd_quiet[OF v])
  finally have "slots v = slots s" by (rule quiet_fields)
  then show ?thesis unfolding t using assms(2) by (intro exit_finish_zombie) simp
qed

definition killed_kept :: "nat \<Rightarrow> kstate \<Rightarrow> kstate \<Rightarrow> bool" where
  "killed_kept me s t \<longleftrightarrow> slots t = slots s \<and> (me < slots s \<longrightarrow> pr_killed (procs s ! me) \<longrightarrow> pr_killed (procs t ! me))"

lemma killed_kept_pwakeup: "killed_kept me s (pwakeup c s)"
  by (simp add: killed_kept_def pwakeup_def wakeup1_def wake_one_def)

lemma killed_kept_deliver: "killed_kept me s (deliver t s)"
proof -
  have "killed_kept me s u \<Longrightarrow> killed_kept me s (fold pwakeup cs u)" for cs u
    using killed_kept_pwakeup by (induction cs arbitrary: u) (auto simp: killed_kept_def)
  moreover have "killed_kept me s (s\<lparr>kfs := t\<lparr>wakeq := []\<rparr>\<rparr>)" by (simp add: killed_kept_def)
  ultimately show ?thesis by (simp add: deliver_def)
qed

lemma killed_kept_on_fs: "on_fs f s = Ret a t \<Longrightarrow> killed_kept me s t"
  using killed_kept_deliver by (auto simp: on_fs_def split: outcome.splits)

lemma trap_irq_killed:
  assumes "trap_irq cpu (Some me) rx cr2 tf s = Ret () t"
  shows "killed_kept me s t"
proof -
  have kp: "kprintf fmt args s = Ret () u \<Longrightarrow> killed_kept me s u" for fmt args u
    unfolding kprintf_def by (rule killed_kept_on_fs)
  have w: "killed_kept me s (pwakeup ChTicks (s\<lparr>ticks := ticks s + 1\<rparr>))"
    using killed_kept_pwakeup[of me "s\<lparr>ticks := ticks s + 1\<rparr>" ChTicks] by (simp add: killed_kept_def)
  have up: "killed_kept me s u \<Longrightarrow> killed_kept me s (upd_proc me (\<lambda>p. p\<lparr>pr_killed := True\<rparr>) u)" for u
    by (auto simp: killed_kept_def procs_upd)
  have sh: "killed_kept me s u \<Longrightarrow> killed_kept me s (u\<lparr>kbdshift := x\<rparr>)" for u x
    by (simp add: killed_kept_def)
  have "killed_kept me s s" by (simp add: killed_kept_def)
  then show ?thesis using assms w
    by (auto simp: trap_irq_def Let_def obind_Ret_iff split: if_splits
        dest: kp killed_kept_on_fs[of _ s _ _ me] intro: up sh)
qed


definition ex_inode :: inode where
  "ex_inode = \<lparr>ip_dev = 1, ip_inum = 1, ip_ref = 2, ip_flags = {I_VALID}, ip_type = 1, ip_major = 0,
    ip_minor = 0, ip_nlink = 1, ip_ownerid = 0, ip_groupid = 0, ip_mode = 0, ip_size = 0, ip_addrs = replicate 11 0\<rparr>"

definition ex_killed :: kstate where
  "ex_killed = upd_proc 1 (\<lambda>p. p\<lparr>pr_killed := True\<rparr>) (ex_kernel\<lparr>kfs := ex_constate\<lparr>icache := [ex_inode]\<rparr>\<rparr>)"

lemma ofor_noop: "(\<And>i. i \<in> set is \<Longrightarrow> body i s = Ret () s) \<Longrightarrow> ofor is body s = Ret () s"
  by (induction "is") auto

lemma ex_killed_exits: "\<exists>t. exit e 1 ex_killed = Ret () t"
proof -
  have "pr_ofile (procs ex_killed ! 1) = replicate 16 None"
    by (simp add: ex_killed_def upd_proc_def ex_kernel_def ex_proc_def)
  then have c: "ofor [0..<NOFILE] (close_file e 1) ex_killed = Ret () ex_killed"
    by (intro ofor_noop) (simp add: close_file_def NOFILE_def)
  have "initproc ex_killed \<noteq> Some 1" by (simp add: ex_killed_def upd_proc_def ex_kernel_def)
  moreover have "\<exists>v. exit_cwd 1 ex_killed = Ret () v"
    by (simp add: exit_cwd_def ex_killed_def upd_proc_def ex_kernel_def ex_proc_def on_fs_def ex_constate_def
        ex_files_def ex_pipes_def fstate.defs begin_op_def iput_def end_op_def commit_def ex_inode_def
        MAXOPBLOCKS_def LOGSIZE_def upd_inode_def Let_def)
  ultimately show ?thesis using c by (auto simp: exit_def)
qed


subsection \<open>Duplicating and closing a descriptor\<close>

definition set_rdi :: "nat \<Rightarrow> uintp \<Rightarrow> kstate \<Rightarrow> kstate" where
  "set_rdi me v s = upd_proc me (\<lambda>p. p\<lparr>pr_tf := (pr_tf p)\<lparr>tf_rdi := v\<rparr>\<rparr>) s"

lemma deliver_quiet_fs: "wakeq t = [] \<Longrightarrow> deliver t s = s\<lparr>kfs := t\<rparr>"
  by (simp add: deliver_def)

text \<open>
  C29: \<open>dup\<close> gives the lowest descriptor that is free, for the same open file, and counts the new
  reference; closing that descriptor restores the kernel's state, except for the register
  that carried the argument of \<open>close\<close>.
\<close>

theorem dup_close_roundtrip:
  assumes "argfd me 0 s = Some (fd0, f)" "me < slots s" "length (pr_ofile (procs s ! me)) = NOFILE"
    and "find_idx (\<lambda>x. x = None) (pr_ofile (procs s ! me)) = Some fd"
    and "f < length (ftable (kfs s))" "1 \<le> f_ref (file_at (kfs s) f)" "wakeq (kfs s) = []"
  shows "runs (sys_dup me s) (\<lambda>r t. r = int fd \<and> pr_ofile (procs t ! me) ! fd = Some f \<and>
    f_ref (file_at (kfs t) f) = f_ref (file_at (kfs s) f) + 1 \<and>
    sys_close e me (set_rdi me (of_nat fd) t) = Ret 0 (set_rdi me (of_nat fd) s))"
proof -
  let ?p = "procs s ! me"
  have fd: "fd < NOFILE" "pr_ofile ?p ! fd = None" using assms(3,4) by (auto simp: find_idx_Some)
  define t where "t = (set_fd me fd (Some f) s)\<lparr>kfs := upd_file f (f_ref_update (\<lambda>r. r + 1)) (kfs s)\<rparr>"
  have w: "wakeq (upd_file f g (kfs s)) = []" for g using assms(7) by (simp add: upd_file_def)
  have k: "kfs (set_fd me fd x s) = kfs s" for x by (simp add: set_fd_def upd_proc_def)
  have dup: "sys_dup me s = Ret (int fd) t"
    using assms(1,4,6) w k by (simp add: sys_dup_def fdalloc_def on_fs_def filedup_def deliver_quiet_fs t_def)
  have pt: "procs t ! me = ?p\<lparr>pr_ofile := (pr_ofile ?p)[fd := Some f]\<rparr>"
    using assms(2) by (simp add: t_def set_fd_def upd_proc_def)
  have ft: "file_at (kfs t) f = (file_at (kfs s) f)\<lparr>f_ref := f_ref (file_at (kfs s) f) + 1\<rparr>"
    using assms(5) by (simp add: t_def upd_file_def)
  let ?t = "set_rdi me (of_nat fd) t"
  have small: "sint (of_nat fd :: uint) = int fd" "ucast (of_nat fd :: uintp) = (of_nat fd :: uint)"
    using fd(1) by (simp_all add: NOFILE_def signed_of_nat unsigned_of_nat take_bit_nat_eq_self
        signed_take_bit_int_eq_self)
  have pt2: "procs ?t ! me = (procs t ! me)\<lparr>pr_tf := (pr_tf (procs t ! me))\<lparr>tf_rdi := of_nat fd\<rparr>\<rparr>"
    using assms(2) by (simp add: set_rdi_def procs_upd t_def set_fd_def)
  have a: "argfd me 0 ?t = Some (fd, f)"
    using fd assms(3) by (simp add: argfd_def argint_def fetcharg_def pt2 pt small)
  have k2: "kfs (set_fd me fd None ?t) = kfs t" by (simp add: set_fd_def set_rdi_def upd_proc_def)
  have fsame: "upd_file f (f_ref_update (\<lambda>r. r - 1)) (kfs t) = kfs s"
    using assms(5) by (simp add: t_def upd_file_def list_update_same_conv)
  have cl: "fileclose (k_end e) f (kfs t) = Ret () (kfs s)"
    using ft assms(5,6) fsame by (simp add: fileclose_def Let_def)
  have oid: "(pr_ofile ?p)[fd := None] = pr_ofile ?p" using fd(2) by (metis list_update_id)
  have q: "?p\<lparr>pr_tf := x, pr_ofile := pr_ofile ?p\<rparr> = ?p\<lparr>pr_tf := x\<rparr>" for x by (rule proc.equality) simp_all
  have psame: "set_fd me fd None ?t = (set_rdi me (of_nat fd) s)\<lparr>kfs := kfs t\<rparr>"
    using assms(2) oid q by (intro kstate.equality) (simp_all add: set_fd_def set_rdi_def upd_proc_def t_def)
  have "sys_close e me ?t = Ret 0 (set_rdi me (of_nat fd) s)"
    using a cl k2 assms(7) psame
    by (simp add: sys_close_def on_fs_def deliver_quiet_fs) (simp add: set_rdi_def upd_proc_def)
  then show ?thesis using dup pt ft fd(1) assms(3) by simp
qed

definition ex_open :: kstate where
  "ex_open = set_fd 1 0 (Some 2) (ex_kernel\<lparr>kfs := upd_file 2 (f_ref_update (\<lambda>_. 1)) ex_constate\<rparr>)"

lemma dup_close_roundtrip_witness:
  "runs (sys_dup 1 ex_open) (\<lambda>r t. r = 1 \<and>
    sys_close \<lparr>k_end = 0, k_kpdpt = 0, k_forkret = 0, k_trapret = 0\<rparr> 1 (set_rdi 1 1 t) = Ret 0 (set_rdi 1 1 ex_open))"
proof -
  let ?e = "\<lparr>k_end = 0, k_kpdpt = 0, k_forkret = 0, k_trapret = 0\<rparr>"
  have p: "procs ex_open ! Suc 0 = (ex_proc RUNNING 2 (Some 0) None)\<lparr>pr_ofile := (replicate 16 None)[0 := Some 2]\<rparr>"
    "slots ex_open = 4"
    by (simp_all add: ex_open_def set_fd_def upd_proc_def ex_kernel_def ex_proc_def)
  have o: "pr_ofile (procs ex_open ! 1) = (replicate 16 None)[0 := Some 2]" using p(1) by simp
  have a: "argfd 1 0 ex_open = Some (0, 2)"
    by (simp add: argfd_def argint_def fetcharg_def p(1) ex_proc_def zero_tf_def NOFILE_def)
  have i: "find_idx (\<lambda>x. x = None) (pr_ofile (procs ex_open ! 1)) = Some 1"
    unfolding o by (simp add: find_idx_Some)
  have f: "length (ftable (kfs ex_open)) = 3" "f_ref (file_at (kfs ex_open) 2) = 1" "wakeq (kfs ex_open) = []"
    by (simp_all add: ex_open_def set_fd_def upd_proc_def upd_file_def ex_constate_def ex_files_def ex_pipes_def
        fstate.defs)
  have "1 < slots ex_open" "length (pr_ofile (procs ex_open ! 1)) = NOFILE" "2 < length (ftable (kfs ex_open))"
    "1 \<le> f_ref (file_at (kfs ex_open) 2)" using p o f by (simp_all add: NOFILE_def)
  from dup_close_roundtrip[OF a this(1,2) i this(3,4) f(3), of ?e] show ?thesis
    by (rule runs_mono) simp
qed

end
