(* ===== verification/Grep.thy ===== *)
theory Grep
  imports Prelude
begin

text \<open>
  The user program \<^verbatim>\<open>user/grep.c\<close>: the matcher for the operators \<open>^ . * $\<close> and the loop that
  cuts the input into lines. Patterns and lines are the bytes before the terminating zero.
\<close>

section \<open>The matcher\<close>

abbreviation c_hat :: uchar where "c_hat \<equiv> 94"
abbreviation c_dot :: uchar where "c_dot \<equiv> 46"
abbreviation c_star :: uchar where "c_star \<equiv> 42"
abbreviation c_dollar :: uchar where "c_dollar \<equiv> 36"
abbreviation c_nl :: uchar where "c_nl \<equiv> 10"

function matchhere :: "uchar list \<Rightarrow> uchar list \<Rightarrow> bool"
  and matchstar :: "uchar \<Rightarrow> uchar list \<Rightarrow> uchar list \<Rightarrow> bool" where
  "matchhere re str =
    (case re of [] \<Rightarrow> True
     | c # re' \<Rightarrow>
       if re' \<noteq> [] \<and> hd re' = c_star then matchstar c (tl re') str
       else if c = c_dollar \<and> re' = [] then str = []
       else if str \<noteq> [] \<and> (c = c_dot \<or> c = hd str) then matchhere re' (tl str)
       else False)"
| "matchstar c re str =
    (if matchhere re str then True
     else if str \<noteq> [] \<and> (hd str = c \<or> c = c_dot) then matchstar c re (tl str)
     else False)"
  by pat_completeness auto
termination
  by (relation "measure (\<lambda>x. case x of Inl (re, str) \<Rightarrow> 2 * (length re + length str)
      | Inr (c, re, str) \<Rightarrow> Suc (2 * (length re + length str)))")
    (auto simp: neq_Nil_conv)

declare matchhere.simps [simp del] matchstar.simps [simp del]

fun match_from :: "uchar list \<Rightarrow> uchar list \<Rightarrow> bool" where
  "match_from re [] = matchhere re []"
| "match_from re (x # str) = (if matchhere re (x # str) then True else match_from re str)"

definition match :: "uchar list \<Rightarrow> uchar list \<Rightarrow> bool" where
  "match re str = (if re \<noteq> [] \<and> hd re = c_hat then matchhere (tl re) str else match_from re str)"

section \<open>What a pattern means\<close>

text \<open>
  The specification: a pattern matches the beginning of a text. A character, a dot for any
  character, either of them starred for any number of repetitions, and a dollar sign at the end
  of the pattern for the end of the text.
\<close>

definition stands_for :: "uchar \<Rightarrow> uchar \<Rightarrow> bool" where
  "stands_for c x \<longleftrightarrow> c = c_dot \<or> c = x"

inductive begins :: "uchar list \<Rightarrow> uchar list \<Rightarrow> bool" where
  b_empty: "begins [] str"
| b_star: "\<forall>x \<in> set run. stands_for c x \<Longrightarrow> begins re str \<Longrightarrow> begins (c # c_star # re) (run @ str)"
| b_end: "begins [c_dollar] []"
| b_char: "stands_for c x \<Longrightarrow> (re = [] \<Longrightarrow> c \<noteq> c_dollar) \<Longrightarrow> (re \<noteq> [] \<Longrightarrow> hd re \<noteq> c_star) \<Longrightarrow>
    begins re str \<Longrightarrow> begins (c # re) (x # str)"

inductive_cases begins_starE: "begins (c # c_star # re) str"
inductive_cases begins_dollarE: "begins [c_dollar] str"
inductive_cases begins_consE: "begins (c # re) str"

lemma begins_star_iff:
  "begins (c # c_star # re) str \<longleftrightarrow>
    begins re str \<or> (str \<noteq> [] \<and> stands_for c (hd str) \<and> begins (c # c_star # re) (tl str))"
proof
  assume "begins (c # c_star # re) str"
  then show "begins re str \<or> (str \<noteq> [] \<and> stands_for c (hd str) \<and> begins (c # c_star # re) (tl str))"
  proof (rule begins_starE)
    fix run rest assume r: "str = run @ rest" "\<forall>x \<in> set run. stands_for c x" "begins re rest"
    then show "?thesis" by (cases run) (auto intro: b_star)
  qed
next
  assume a: "begins re str \<or> (str \<noteq> [] \<and> stands_for c (hd str) \<and> begins (c # c_star # re) (tl str))"
  show "begins (c # c_star # re) str"
  proof (cases "begins re str")
    case True
    then show ?thesis using b_star[of "[]"] by simp
  next
    case False
    then have t: "str \<noteq> []" "stands_for c (hd str)" "begins (c # c_star # re) (tl str)" using a by auto
    from t(3) show ?thesis
    proof (rule begins_starE)
      fix run rest assume r: "tl str = run @ rest" "\<forall>x \<in> set run. stands_for c x" "begins re rest"
      have "str = (hd str # run) @ rest" using t(1) r(1) by (metis append_Cons list.collapse)
      then show ?thesis using b_star[of "hd str # run" c re rest] t(2) r by simp
    qed
  qed
qed

lemma begins_plain:
  assumes "\<not> (re \<noteq> [] \<and> hd re = c_star)" "\<not> (c = c_dollar \<and> re = [])"
  shows "begins (c # re) str \<longleftrightarrow> str \<noteq> [] \<and> stands_for c (hd str) \<and> begins re (tl str)"
proof
  assume "begins (c # re) str"
  then show "str \<noteq> [] \<and> stands_for c (hd str) \<and> begins re (tl str)"
    by (rule begins_consE) (use assms in simp_all)
next
  assume a: "str \<noteq> [] \<and> stands_for c (hd str) \<and> begins re (tl str)"
  then obtain x s where s: "str = x # s" by (cases str) auto
  show "begins (c # re) str"
    unfolding s by (rule b_char) (use a s assms in auto)
qed

lemma matchhere_begins:
  "matchhere re str = begins re str" "matchstar c re str = begins (c # c_star # re) str"
proof (induction re str and c re str rule: matchhere_matchstar.induct)
  case (1 re str)
  show ?case
  proof (cases re)
    case Nil
    then show ?thesis by (simp add: matchhere.simps b_empty)
  next
    case (Cons c re')
    consider "re' \<noteq> []" "hd re' = c_star" | "c = c_dollar" "re' = []"
      | "\<not> (re' \<noteq> [] \<and> hd re' = c_star)" "\<not> (c = c_dollar \<and> re' = [])" by blast
    then show ?thesis
    proof cases
      case 1
      then have "re = c # c_star # tl re'" using Cons by (metis list.collapse)
      moreover have "matchhere re str = matchstar c (tl re') str"
        by (subst matchhere.simps) (simp add: 1 Cons)
      ultimately show ?thesis using "1.IH"(1)[OF Cons] 1 by simp
    next
      case 2
      have "matchhere re str \<longleftrightarrow> str = []" by (subst matchhere.simps) (simp add: 2 Cons)
      moreover have "begins re str \<longleftrightarrow> str = []"
        unfolding Cons 2 by (rule iffI, erule begins_dollarE) (simp_all add: b_end)
      ultimately show ?thesis by simp
    next
      case 3
      have "matchhere re str \<longleftrightarrow> str \<noteq> [] \<and> stands_for c (hd str) \<and> matchhere re' (tl str)"
        by (subst matchhere.simps) (use 3 in \<open>auto simp: Cons stands_for_def\<close>)
      moreover have "begins re str \<longleftrightarrow> str \<noteq> [] \<and> stands_for c (hd str) \<and> begins re' (tl str)"
        unfolding Cons by (rule begins_plain[OF 3])
      moreover have "matchhere re' (tl str) \<longleftrightarrow> begins re' (tl str)"
        if "str \<noteq> []" "stands_for c (hd str)"
        using "1.IH"(2)[OF Cons 3] that by (auto simp: stands_for_def)
      ultimately show ?thesis by blast
    qed
  qed
next
  case (2 c re str)
  show ?case
    unfolding begins_star_iff[of c re str] matchstar.simps[of c re str]
    using 2 by (auto simp: stands_for_def)
qed

section \<open>The loop over the input\<close>

definition BUFSZ :: nat where "BUFSZ = 1024"

fun strchr :: "uchar list \<Rightarrow> uchar \<Rightarrow> nat option" where
  "strchr [] c = None"
| "strchr (x # s) c = (if x = 0 then None else if x = c then Some 0 else map_option Suc (strchr s c))"

lemma strchr_Some: "strchr s c = Some q \<Longrightarrow> q < length s \<and> s ! q = c \<and> c \<notin> set (take q s)"
  by (induction s arbitrary: q) (auto split: if_splits)

lemma strchr_None: "strchr s c = None \<Longrightarrow> 0 \<notin> set s \<Longrightarrow> c \<notin> set s"
  by (induction s) (auto split: if_splits)

text \<open>The lines of the buffer: what is written, and how far \<open>p\<close> gets.\<close>

function grep_scan :: "uchar list \<Rightarrow> uchar list \<Rightarrow> uchar list \<times> nat" where
  "grep_scan pattern b =
    (case strchr b c_nl of
       None \<Rightarrow> ([], 0)
     | Some q \<Rightarrow>
       let (out, p) = grep_scan pattern (drop (q + 1) b)
       in ((if match pattern (take q b) then take (q + 1) b else []) @ out, q + 1 + p))"
  by pat_completeness auto
termination
  by (relation "measure (\<lambda>(pattern, b). length b)") (auto dest: strchr_Some)

declare grep_scan.simps [simp del]

text \<open>
  \<open>grep\<close> on a regular file: \<open>b\<close> is the first \<open>m\<close> bytes of the buffer, \<open>rest\<close> what the file
  has from the offset on. The result is what is written to descriptor 1.
\<close>

function grep :: "uchar list \<Rightarrow> uchar list \<Rightarrow> uchar list \<Rightarrow> uchar list" where
  "grep pattern b rest =
    (let n = min (BUFSZ - length b - 1) (length rest) in
     if n > 0 then
       let b = b @ take n rest; (out, p) = grep_scan pattern b
       in out @ grep pattern (if p = 0 then [] else drop p b) (drop n rest)
     else [])"
  by pat_completeness auto
termination
  by (relation "measure (\<lambda>(pattern, b, rest). length rest)") auto

declare grep.simps [simp del]

section \<open>Lines\<close>

text \<open>The lines that end in a newline, and what is selected from them.\<close>

fun full_lines :: "uchar list \<Rightarrow> uchar list \<Rightarrow> uchar list list" where
  "full_lines l [] = []"
| "full_lines l (x # xs) = (if x = c_nl then l # full_lines [] xs else full_lines (l @ [x]) xs)"

definition selected :: "uchar list \<Rightarrow> uchar list \<Rightarrow> uchar list" where
  "selected pattern xs = concat (map (\<lambda>l. l @ [c_nl]) (filter (match pattern) (full_lines [] xs)))"

lemma full_lines_none: "c_nl \<notin> set xs \<Longrightarrow> full_lines l (xs @ ys) = full_lines (l @ xs) ys"
  by (induction xs arbitrary: l) auto

lemma full_lines_line: "c_nl \<notin> set xs \<Longrightarrow> full_lines [] (xs @ c_nl # ys) = xs # full_lines [] ys"
  by (simp add: full_lines_none)

lemma full_lines_no_nl: "c_nl \<notin> set xs \<Longrightarrow> full_lines l xs = []"
  using full_lines_none[of xs l "[]"] by simp

lemma full_lines_first:
  assumes "c_nl \<in> set ys"
  obtains l' ls where "full_lines l ys = (l @ l') # ls"
  using assms
proof (induction ys arbitrary: l thesis)
  case (Cons y ys)
  show ?case
  proof (cases "y = c_nl")
    case True
    then show ?thesis using Cons.prems(1)[of "[]" "full_lines [] ys"] by simp
  next
    case False
    then have "c_nl \<in> set ys" using Cons.prems(2) by simp
    from Cons.IH[OF _ this, of "l @ [y]"] obtain l' ls where "full_lines (l @ [y]) ys = (l @ y # l') # ls"
      by auto
    then show ?thesis using Cons.prems(1)[of "y # l'" ls] False by simp
  qed
qed simp

lemma selected_no_nl: "c_nl \<notin> set xs \<Longrightarrow> selected pattern xs = []"
  by (simp add: selected_def full_lines_no_nl)

text \<open>A scan of the buffer writes the selected lines of it and leaves \<open>p\<close> behind the last newline.\<close>

lemma grep_scan_lines:
  assumes "0 \<notin> set b" "grep_scan pattern b = (out, p)"
  shows "full_lines [] (b @ ys) = full_lines [] (take p b) @ full_lines [] (drop p b @ ys)"
    and "out = selected pattern (take p b)" and "c_nl \<notin> set (drop p b)"
  using assms
proof (induction pattern b arbitrary: out p rule: grep_scan.induct)
  case (1 pattern b)
  {
    case 1
    show ?case
    proof (cases "strchr b c_nl")
      case None
      then show ?thesis using 1 by (simp add: grep_scan.simps[of pattern b])
    next
      case (Some q)
      obtain out' p' where r: "grep_scan pattern (drop (q + 1) b) = (out', p')" by fastforce
      have p: "p = q + 1 + p'" using 1(2) Some r by (simp add: grep_scan.simps[of pattern b])
      have q: "q < length b" "b ! q = c_nl" "c_nl \<notin> set (take q b)" using strchr_Some[OF Some] by auto
      have b: "b = take q b @ c_nl # drop (q + 1) b" using q id_take_nth_drop[of q b] by simp
      have t: "take p b = take q b @ c_nl # take p' (drop (q + 1) b)"
        using q by (simp add: p take_add[of "Suc q"] take_Suc_conv_app_nth[of q b] del: add_Suc flip: add_Suc)
      have z: "0 \<notin> set (drop (q + 1) b)" using 1(1) by (meson in_set_dropD)
      have "full_lines [] (b @ ys) = take q b # full_lines [] (drop (q + 1) b @ ys)"
        using full_lines_line[OF q(3), of "drop (q + 1) b @ ys"] b by (metis append.assoc append_Cons)
      also have "\<dots> = take q b # full_lines [] (take p' (drop (q + 1) b)) @ full_lines [] (drop p' (drop (q + 1) b) @ ys)"
        using "1.IH"(1)[OF Some z r] by simp
      also have "drop p' (drop (q + 1) b) = drop p b" by (simp add: p add.commute)
      finally show ?thesis by (simp only: t full_lines_line[OF q(3)] append_Cons)
    qed
  next
    case 2
    show ?case
    proof (cases "strchr b c_nl")
      case None
      then show ?thesis using 2 by (simp add: grep_scan.simps[of pattern b] selected_def)
    next
      case (Some q)
      obtain out' p' where r: "grep_scan pattern (drop (q + 1) b) = (out', p')" by fastforce
      have p: "p = q + 1 + p'" using 2(2) Some r by (simp add: grep_scan.simps[of pattern b])
      have q: "q < length b" "b ! q = c_nl" "c_nl \<notin> set (take q b)" using strchr_Some[OF Some] by auto
      have t: "take p b = take q b @ c_nl # take p' (drop (q + 1) b)"
        using q by (simp add: p take_add[of "Suc q"] take_Suc_conv_app_nth[of q b] del: add_Suc flip: add_Suc)
      have z: "0 \<notin> set (drop (q + 1) b)" using 2(1) by (meson in_set_dropD)
      have "out' = selected pattern (take p' (drop (q + 1) b))" using "1.IH"(2)[OF Some z r] .
      then show ?thesis using 2(2) Some r q
        by (auto simp: grep_scan.simps[of pattern b] selected_def t full_lines_line take_Suc_conv_app_nth)
    qed
  next
    case 3
    show ?case
    proof (cases "strchr b c_nl")
      case None
      then show ?thesis using 3 strchr_None[OF None] by (simp add: grep_scan.simps[of pattern b])
    next
      case (Some q)
      obtain out' p' where r: "grep_scan pattern (drop (q + 1) b) = (out', p')" by fastforce
      have p: "p = q + 1 + p'" using 3(2) Some r by (simp add: grep_scan.simps[of pattern b])
      have z: "0 \<notin> set (drop (q + 1) b)" using 3(1) by (meson in_set_dropD)
      show ?thesis using "1.IH"(3)[OF Some z r] by (simp add: p add.commute)
    qed
  }
qed

lemma grep_selected:
  assumes "0 \<notin> set (b @ rest)" "c_nl \<notin> set b" "length b < BUFSZ"
    and "\<forall>l \<in> set (full_lines [] (b @ rest)). length l < BUFSZ - 1"
  shows "grep pattern b rest = selected pattern (b @ rest)"
  using assms
proof (induction pattern b rest rule: grep.induct)
  case (1 pattern b rest)
  define n where "n = min (BUFSZ - length b - 1) (length rest)"
  have full: "c_nl \<notin> set ys" if "c_nl \<notin> set xs" "length xs = BUFSZ - 1" "xs @ ys = b @ rest" for xs ys
  proof
    assume "c_nl \<in> set ys"
    then obtain l' ls where "full_lines xs ys = (xs @ l') # ls" using full_lines_first by blast
    then have "xs @ l' \<in> set (full_lines [] (b @ rest))"
      using full_lines_none[OF that(1), of "[]" ys] that(3) by simp
    then show False using 1(5) that(2) by force
  qed
  show ?case
  proof (cases "n > 0")
    case False
    then have "rest = [] \<or> length b = BUFSZ - 1" using 1(4) unfolding n_def by (auto simp: min_def split: if_splits)
    then have "c_nl \<notin> set (b @ rest)" using full[of b rest] 1(3) by auto
    moreover have "grep pattern b rest = []"
      unfolding grep.simps[of pattern b rest] n_def[symmetric] Let_def using False by simp
    ultimately show ?thesis by (simp add: selected_no_nl)
  next
    case True
    define b' where "b' = b @ take n rest"
    obtain out p where s: "grep_scan pattern b' = (out, p)" by fastforce
    have whole: "b @ rest = b' @ drop n rest" by (simp add: b'_def)
    have z: "0 \<notin> set b'" "0 \<notin> set (drop n rest)" using 1(2) unfolding whole by auto
    note sc = grep_scan_lines[OF z(1) s]
    have len: "length b' < BUFSZ" using 1(4) by (auto simp: b'_def n_def)
    define k where "k = (if p = 0 then [] else drop p b')"
    have fl: "full_lines [] (b @ rest) = full_lines [] (take p b') @ full_lines [] (k @ drop n rest)"
    proof (cases "p = 0")
      case False
      then show ?thesis unfolding whole using sc(1) by (simp add: k_def)
    next
      case True
      then have nl: "c_nl \<notin> set b'" using sc(3) by simp
      have "drop n rest = [] \<or> length b' = BUFSZ - 1" using 1(4) by (auto simp: b'_def n_def)
      then have "c_nl \<notin> set (drop n rest)" using full[OF nl _ whole[symmetric]] by auto
      then show ?thesis unfolding whole using nl True by (simp add: k_def full_lines_no_nl)
    qed
    have kz: "0 \<notin> set (k @ drop n rest)" using z by (auto simp: k_def dest: in_set_dropD)
    have kl: "length k < BUFSZ" using len by (auto simp: k_def)
    have kn: "c_nl \<notin> set k" using sc(3) by (simp add: k_def)
    have "grep pattern k (drop n rest) = selected pattern (k @ drop n rest)"
      using "1.IH"[OF n_def True b'_def s[symmetric] refl] kz kn kl fl 1(5) by (simp add: k_def)
    moreover have "grep pattern b rest = out @ grep pattern k (drop n rest)"
      unfolding grep.simps[of pattern b rest] n_def[symmetric] Let_def b'_def[symmetric] k_def using True s by simp
    ultimately show ?thesis using fl sc(2) by (simp add: selected_def)
  qed
qed

section \<open>Properties\<close>

lemma match_from_begins: "match_from re str \<longleftrightarrow> (\<exists>pre suf. str = pre @ suf \<and> begins re suf)"
proof (induction str)
  case Nil
  then show ?case by (simp add: matchhere_begins)
next
  case (Cons x str)
  have "(\<exists>pre suf. x # str = pre @ suf \<and> begins re suf) \<longleftrightarrow>
      begins re (x # str) \<or> (\<exists>pre suf. str = pre @ suf \<and> begins re suf)"
    by (auto simp: Cons_eq_append_conv)
  then show ?case using Cons.IH by (simp add: matchhere_begins)
qed

text \<open>
  C33: The matcher of \<open>grep\<close> finds a pattern exactly when the pattern, read as characters, dots,
  starred characters and an end mark, describes a piece of the line: the beginning of the line
  after a leading \<open>^\<close>, and what follows any prefix of it otherwise.
\<close>

theorem match_correct:
  "match re str \<longleftrightarrow>
    (if re \<noteq> [] \<and> hd re = c_hat then begins (tl re) str
     else \<exists>pre suf. str = pre @ suf \<and> begins re suf)"
  by (simp add: match_def matchhere_begins match_from_begins)

text \<open>
  C34: On a file without zero bytes whose lines fit the buffer, \<open>grep\<close> ends, having written
  exactly the lines that match, whole and in order, however the lines fall on the reads; an
  unterminated last line is not examined.
\<close>

theorem grep_writes_matching_lines:
  assumes "0 \<notin> set contents"
    and "\<forall>l \<in> set (full_lines [] contents). length l < BUFSZ - 1"
  shows "grep pattern [] contents =
    concat (map (\<lambda>l. l @ [c_nl]) (filter (match pattern) (full_lines [] contents)))"
  using grep_selected[of "[]" contents pattern] assms by (simp add: selected_def BUFSZ_def)

lemma grep_writes_matching_lines_witness:
  "grep [97] [] [98, 97, 10, 98, 10, 97] = [98, 97, 10]"
proof -
  have "match [97] [98, 97]" "\<not> match [97] [98]"
    by (simp_all add: match_def matchhere.simps)
  then show ?thesis
    using grep_writes_matching_lines[of "[98, 97, 10, 98, 10, 97]" "[97]"] by (simp add: BUFSZ_def)
qed

end
