(* ===== verification/Spec2Isabelle.thy ===== *)
theory Spec2Isabelle
  imports Fs_Name VM_Map Trap Grep
begin

text \<open>
  \<^bold>\<open>Verification of the xv6-memfs kernel and its tools.\<close>

  The program is a small Unix-like kernel for x86 and x86-64 (\<^verbatim>\<open>src/kernel\<close>,
  \<^verbatim>\<open>src/include\<close>), its user library and programs (\<^verbatim>\<open>src/ulib\<close>, \<^verbatim>\<open>src/user\<close>) and the
  host tools that build file-system images (\<^verbatim>\<open>src/tools\<close>). The kernel is layered: the
  disk (\<^verbatim>\<open>memide.c\<close>), the buffer cache over it (\<^verbatim>\<open>bio.c\<close>), the write-ahead log over the
  cache (\<^verbatim>\<open>log.c\<close>), the file system over the log (\<^verbatim>\<open>fs.c\<close>), open files and pipes
  (\<^verbatim>\<open>file.c\<close>, \<^verbatim>\<open>pipe.c\<close>), processes, memory and system calls.

  Theories: \<open>Prelude\<close> (shared vocabulary).
\<close>

end
